(* ===== verification/Fibp_Prelude.thy ===== *)
theory Fibp_Prelude
  imports Main "HOL-Library.Word" "HOL-Library.List_Lexorder" "HOL-Library.Char_ord"
    "HOL-Library.Product_Lexorder" "HOL-Library.Sublist" "HOL-Library.Code_Target_Nat"
begin

text \<open>
  Shared vocabulary of the development: the collections of rewrite rules, the C++ standard
  containers and strings as the sources use them, and the interface of the Boost string
  functions, which are not part of the repository.

  \<^item> \<open>std::map\<close> is a strictly key-sorted association list (\<open>smap_put\<close>, \<open>smap_erase\<close>,
    lookup by \<^const>\<open>map_of\<close>), because several loops iterate over a map in key order.
    The locale \<open>ordered_map\<close> is its contract.
  \<^item> \<open>std::set\<close> is a strictly sorted list (\<open>sset_insert\<close>).
  \<^item> \<open>std::string\<close> is a \<^typ>\<open>string\<close>; \<open>substr\<close> and \<open>find\<close> follow the standard, an
    \<open>out_of_range\<close> exception is the value \<^term>\<open>None\<close>.
  \<^item> The Boost functions (\<open>split\<close>, \<open>to_lower\<close>, \<open>lexical_cast\<close>) are a record of functions that
    the definitions take as an argument; \<open>boost_ok\<close> names their documented behaviour and
    \<open>ref_boost\<close> is an implementation that has it.
\<close>

named_theorems smap_simps \<open>lookup and invariant rules of ordered maps and sets\<close>
named_theorems str_simps \<open>rules of the string operations\<close>
named_theorems inv_intros \<open>preservation of the component invariants\<close>

section \<open>Strings\<close>

text \<open>A \<open>const char*\<close> ends at its first NUL, so a conversion through \<open>c_str()\<close> cuts there.\<close>

definition c_str :: "string \<Rightarrow> string" where
  "c_str s = takeWhile (\<lambda>c. c \<noteq> CHR 0x00) s"

lemma c_str_id [str_simps]: "CHR 0x00 \<notin> set s \<Longrightarrow> c_str s = s"
  by (auto simp: c_str_def takeWhile_eq_all_conv)

lemma c_str_no_nul [str_simps]: "CHR 0x00 \<notin> set (c_str s)"
  by (auto simp: c_str_def dest: set_takeWhileD)

lemma c_str_idem [simp]: "c_str (c_str s) = c_str s"
  by (simp add: c_str_id c_str_no_nul)

text \<open>\<open>std::string::find\<close>: the least position from \<open>pos\<close> on at which the pattern occurs.\<close>

fun find_sub :: "string \<Rightarrow> string \<Rightarrow> nat option" where
  "find_sub p [] = (if p = [] then Some 0 else None)"
| "find_sub p (c # s) = (if prefix p (c # s) then Some 0 else map_option Suc (find_sub p s))"

definition find_from :: "string \<Rightarrow> string \<Rightarrow> nat \<Rightarrow> nat option" where
  "find_from p s pos =
     (if pos > length s then None else map_option (\<lambda>i. i + pos) (find_sub p (drop pos s)))"

lemma find_sub_Some:
  "find_sub p s = Some i \<Longrightarrow>
     i + length p \<le> length s \<and> take (length p) (drop i s) = p \<and>
     (\<forall>j<i. take (length p) (drop j s) \<noteq> p)"
proof (induction s arbitrary: i)
  case (Cons c s)
  show ?case
  proof (cases "prefix p (c # s)")
    case True
    with Cons.prems show ?thesis
      by (auto simp: prefix_def simp flip: append_eq_conv_conj dest: arg_cong[of _ _ length])
  next
    case False
    then obtain k where k: "find_sub p s = Some k" "i = Suc k"
      using Cons.prems by (auto split: if_splits)
    have no: "take (length p) (c # s) \<noteq> p"
      using False by (metis take_is_prefix)
    have "take (length p) (drop j (c # s)) \<noteq> p" if "j < i" for j
      using that Cons.IH[OF k(1)] k(2) no by (cases j) auto
    with Cons.IH[OF k(1)] k(2) show ?thesis by simp
  qed
qed (auto split: if_splits)

lemma find_sub_None:
  "find_sub p s = None \<longleftrightarrow> (\<forall>i. i + length p \<le> length s \<longrightarrow> take (length p) (drop i s) \<noteq> p)"
proof (induction s)
  case Nil
  show ?case by auto
next
  case (Cons c s)
  have pre: "prefix p (c # s) \<longleftrightarrow> length p \<le> Suc (length s) \<and> take (length p) (c # s) = p"
    by (metis append_take_drop_id length_Cons prefixI prefix_length_le take_is_prefix
        append_eq_conv_conj prefixE)
  show ?case
  proof (cases "prefix p (c # s)")
    case True
    then show ?thesis using pre by (auto intro!: exI[of _ 0])
  next
    case False
    then have none0: "\<not> (length p \<le> Suc (length s) \<and> take (length p) (c # s) = p)"
      using pre by simp
    have "(\<forall>i. i + length p \<le> length (c # s) \<longrightarrow> take (length p) (drop i (c # s)) \<noteq> p) \<longleftrightarrow>
          (\<forall>i. i + length p \<le> length s \<longrightarrow> take (length p) (drop i s) \<noteq> p)" (is "?L \<longleftrightarrow> ?R")
    proof
      assume L: ?L
      show ?R using L[rule_format, of "Suc i" for i] by simp
    next
      assume R: ?R
      have "take (length p) (drop i (c # s)) \<noteq> p" if "i + length p \<le> length (c # s)" for i
        using that R none0 by (cases i) auto
      then show ?L by blast
    qed
    with False Cons.IH show ?thesis by simp
  qed
qed

text \<open>\<open>substr(pos, n)\<close> throws \<open>out_of_range\<close> exactly when \<open>pos > size()\<close>.\<close>

definition substr :: "string \<Rightarrow> nat \<Rightarrow> nat \<Rightarrow> string option" where
  "substr s pos n = (if pos > length s then None else Some (take n (drop pos s)))"

definition substr_from :: "string \<Rightarrow> nat \<Rightarrow> string option" where
  "substr_from s pos = (if pos > length s then None else Some (drop pos s))"

lemma char_of_numeral_eval [simp]:
  "char_of (numeral n :: nat) =
     Char (odd (numeral n :: nat)) (bit (numeral n :: nat) 1) (bit (numeral n :: nat) 2)
       (bit (numeral n :: nat) 3) (bit (numeral n :: nat) 4) (bit (numeral n :: nat) 5)
       (bit (numeral n :: nat) 6) (bit (numeral n :: nat) 7)"
  by (simp add: char_of_def bit_0)

lemma bit_Suc_0_eval [simp]: "bit (Suc 0) 0"
  by (simp add: bit_0)

text \<open>Decimal numerals, as \<open>sprintf("%d")\<close> and stream output print them.\<close>

definition digit_char :: "nat \<Rightarrow> char" where
  "digit_char d = char_of (48 + d)"

fun dec_of_nat :: "nat \<Rightarrow> string" where
  "dec_of_nat n = (if n < 10 then [digit_char n] else dec_of_nat (n div 10) @ [digit_char (n mod 10)])"

declare dec_of_nat.simps [simp del]

definition dec_of_int :: "int \<Rightarrow> string" where
  "dec_of_int i = (if i < 0 then CHR ''-'' # dec_of_nat (nat (- i)) else dec_of_nat (nat i))"

definition is_digit :: "char \<Rightarrow> bool" where
  "is_digit c = (48 \<le> (of_char c :: nat) \<and> (of_char c :: nat) \<le> 57)"

definition digit_val :: "char \<Rightarrow> nat" where
  "digit_val c = of_char c - 48"

definition nat_of_dec :: "string \<Rightarrow> nat" where
  "nat_of_dec s = foldl (\<lambda>n c. n * 10 + digit_val c) 0 s"

lemma digit_char_val [str_simps]: "d < 10 \<Longrightarrow> digit_val (digit_char d) = d"
  by (simp add: digit_val_def digit_char_def)

lemma digit_char_lit [simp]:
  "digit_char 0 = CHR ''0''" "digit_char (Suc 0) = CHR ''1''" "digit_char 1 = CHR ''1''"
  "digit_char 2 = CHR ''2''" "digit_char 3 = CHR ''3''" "digit_char 4 = CHR ''4''"
  "digit_char 5 = CHR ''5''" "digit_char 6 = CHR ''6''" "digit_char 7 = CHR ''7''"
  "digit_char 8 = CHR ''8''" "digit_char 9 = CHR ''9''"
  by (simp_all add: digit_char_def char_of_def bit_0)

lemma digit_char_is_digit [str_simps]: "d < 10 \<Longrightarrow> is_digit (digit_char d)"
  by (simp add: is_digit_def digit_char_def)

lemma dec_of_nat_digits: "\<forall>c \<in> set (dec_of_nat n). is_digit c"
proof (induction n rule: dec_of_nat.induct)
  case (1 n)
  then show ?case
    by (subst dec_of_nat.simps) (auto simp: digit_char_is_digit)
qed

lemma dec_of_nat_nonempty [simp]: "dec_of_nat n \<noteq> []"
  by (subst dec_of_nat.simps) simp

lemma nat_of_dec_of_nat [str_simps]: "nat_of_dec (dec_of_nat n) = n"
proof (induction n rule: dec_of_nat.induct)
  case (1 n)
  then show ?case
    by (subst dec_of_nat.simps) (auto simp: nat_of_dec_def digit_char_val)
qed

lemma dec_of_nat_inj: "dec_of_nat m = dec_of_nat n \<longleftrightarrow> m = n"
  by (metis nat_of_dec_of_nat)

lemma dec_of_nat_length:
  "n < 10 ^ k \<Longrightarrow> 0 < k \<Longrightarrow> length (dec_of_nat n) \<le> k"
proof (induction n arbitrary: k rule: dec_of_nat.induct)
  case (1 n)
  show ?case
  proof (cases "n < 10")
    case True
    with 1 show ?thesis by (subst dec_of_nat.simps) simp
  next
    case False
    then obtain k' where k: "k = Suc k'" "0 < k'"
      using 1(2,3) by (cases k; cases "k - 1") auto
    have "n div 10 < 10 ^ k'" using 1(2) k by (simp add: less_mult_imp_div_less)
    then have "length (dec_of_nat (n div 10)) \<le> k'" using 1(1) False k by blast
    with False k show ?thesis by (subst dec_of_nat.simps) simp
  qed
qed

lemma set_map_filter_eq: "set (List.map_filter f xs) = {y. \<exists>x \<in> set xs. f x = Some y}"
  by (induction xs) (auto simp: map_filter_simps split: option.split)

section \<open>Ordered maps and sets\<close>

text \<open>\<open>std::map\<close>: the pairs in increasing order of their keys.  \<open>m[k] = v\<close> and
  \<open>m.erase(k)\<close>; \<open>m.find(k)\<close> is \<^term>\<open>map_of m k\<close>.\<close>

fun smap_put :: "'k::linorder \<Rightarrow> 'v \<Rightarrow> ('k \<times> 'v) list \<Rightarrow> ('k \<times> 'v) list" where
  "smap_put k v [] = [(k, v)]"
| "smap_put k v ((k', v') # m) =
     (if k < k' then (k, v) # (k', v') # m
      else if k = k' then (k, v) # m
      else (k', v') # smap_put k v m)"

definition smap_erase :: "'k::linorder \<Rightarrow> ('k \<times> 'v) list \<Rightarrow> ('k \<times> 'v) list" where
  "smap_erase k m = filter (\<lambda>p. fst p \<noteq> k) m"

definition smap_ok :: "('k::linorder \<times> 'v) list \<Rightarrow> bool" where
  "smap_ok m = sorted_wrt (<) (map fst m)"

lemma smap_ok_Nil [smap_simps, simp]: "smap_ok []"
  by (simp add: smap_ok_def)

lemma smap_ok_Cons [smap_simps]:
  "smap_ok ((k, v) # m) \<longleftrightarrow> (\<forall>k' \<in> fst ` set m. k < k') \<and> smap_ok m"
  by (auto simp: smap_ok_def)

lemma keys_smap_put [smap_simps]: "fst ` set (smap_put k v m) = insert k (fst ` set m)"
  by (induction k v m rule: smap_put.induct) auto

lemma smap_ok_put [smap_simps, inv_intros]: "smap_ok m \<Longrightarrow> smap_ok (smap_put k v m)"
  by (induction k v m rule: smap_put.induct)
    (auto simp: smap_ok_Cons keys_smap_put)

lemma map_of_smap_put [smap_simps]:
  "smap_ok m \<Longrightarrow> map_of (smap_put k v m) = (map_of m)(k \<mapsto> v)"
  by (induction k v m rule: smap_put.induct)
    (auto simp: smap_ok_Cons fun_eq_iff)

lemma smap_ok_filter: "smap_ok m \<Longrightarrow> smap_ok (filter P m)"
  by (induction m) (auto simp: smap_ok_def)

lemma smap_ok_erase [smap_simps, inv_intros]: "smap_ok m \<Longrightarrow> smap_ok (smap_erase k m)"
  by (simp add: smap_erase_def smap_ok_filter)

lemma map_of_smap_erase [smap_simps]: "map_of (smap_erase k m) = (map_of m)(k := None)"
  by (induction m) (auto simp: smap_erase_def fun_eq_iff)

lemma smap_ok_distinct: "smap_ok m \<Longrightarrow> distinct (map fst m)"
  unfolding smap_ok_def by (simp add: strict_sorted_iff)

lemma smap_in_set: "smap_ok m \<Longrightarrow> (k, v) \<in> set m \<longleftrightarrow> map_of m k = Some v"
  by (simp add: smap_ok_distinct)

locale ordered_map =
  fixes put :: "'k \<Rightarrow> 'v \<Rightarrow> 'm \<Rightarrow> 'm"
    and erase :: "'k \<Rightarrow> 'm \<Rightarrow> 'm"
    and look :: "'m \<Rightarrow> 'k \<Rightarrow> 'v option"
    and ok :: "'m \<Rightarrow> bool"
  assumes look_put: "ok m \<Longrightarrow> look (put k v m) = (look m)(k \<mapsto> v)"
    and look_erase: "ok m \<Longrightarrow> look (erase k m) = (look m)(k := None)"
    and ok_put: "ok m \<Longrightarrow> ok (put k v m)"
    and ok_erase: "ok m \<Longrightarrow> ok (erase k m)"
begin

text \<open>The two loops over maps that the watchers run: erase every name of a list, and write every
  entry of another container.\<close>

lemma fold_erase_ok: "ok m \<Longrightarrow> ok (fold erase ks m)"
  by (induction ks arbitrary: m) (auto simp: ok_erase)

lemma look_fold_erase:
  "ok m \<Longrightarrow> look (fold erase ks m) k = (if k \<in> set ks then None else look m k)"
  by (induction ks arbitrary: m) (auto simp: ok_erase look_erase)

lemma fold_put_ok: "ok m \<Longrightarrow> ok (fold (\<lambda>(k, v). put k (f v)) es m)"
  by (induction es arbitrary: m) (auto simp: ok_put)

lemma look_fold_put:
  assumes "ok m" "distinct (map fst es)"
  shows "look (fold (\<lambda>(k, v). put k (f v)) es m) k =
           (case map_of es k of Some v \<Rightarrow> Some (f v) | None \<Rightarrow> look m k)"
  using assms
proof (induction es arbitrary: m)
  case (Cons e es)
  obtain a b where e: "e = (a, b)" by (cases e)
  have "map_of es a = None" using Cons.prems(2) e by (simp add: map_of_eq_None_iff)
  then show ?case
    using Cons.prems e by (auto simp: Cons.IH ok_put look_put split: option.split)
qed simp

end

interpretation smap: ordered_map smap_put smap_erase map_of smap_ok
  by unfold_locales (simp_all add: smap_simps)

text \<open>\<open>std::set\<close>: a strictly increasing list.\<close>

definition sset_insert :: "'a::linorder \<Rightarrow> 'a list \<Rightarrow> 'a list" where
  "sset_insert x xs = (if x \<in> set xs then xs else insort x xs)"

definition sset_ok :: "'a::linorder list \<Rightarrow> bool" where
  "sset_ok xs = sorted_wrt (<) xs"

lemma set_sset_insert [smap_simps]: "set (sset_insert x xs) = insert x (set xs)"
  by (auto simp: sset_insert_def set_insort_key)

lemma sset_ok_Nil [simp]: "sset_ok []"
  by (simp add: sset_ok_def)

lemma sset_ok_insert [smap_simps, inv_intros]: "sset_ok xs \<Longrightarrow> sset_ok (sset_insert x xs)"
  by (simp add: sset_ok_def sset_insert_def strict_sorted_iff sorted_insort distinct_insort)

lemma sset_insert_not_Nil [simp]: "sset_insert x xs \<noteq> []"
  by (metis insert_not_empty list.set(1) set_sset_insert)

lemma set_fold_sset_insert: "set (fold sset_insert ys xs) = set ys \<union> set xs"
  by (induction ys arbitrary: xs) (auto simp: set_sset_insert)

lemma sset_ok_fold_insert: "sset_ok xs \<Longrightarrow> sset_ok (fold sset_insert ys xs)"
  by (induction ys arbitrary: xs) (auto simp: sset_ok_insert)

lemma sset_ok_unique: "sset_ok xs \<Longrightarrow> sset_ok ys \<Longrightarrow> set xs = set ys \<Longrightarrow> xs = ys"
  by (simp add: sset_ok_def strict_sorted_equal)

section \<open>Counting the elements of an updated list\<close>

lemma length_filter_gain:
  "i < length xs \<Longrightarrow> P y \<Longrightarrow> \<not> P (xs ! i) \<Longrightarrow> length (filter P (xs[i := y])) = Suc (length (filter P xs))"
  by (induction xs arbitrary: i) (auto split: nat.splits simp: nth_Cons')

lemma length_filter_loss:
  "i < length xs \<Longrightarrow> P (xs ! i) \<Longrightarrow> \<not> P y \<Longrightarrow> Suc (length (filter P (xs[i := y]))) = length (filter P xs)"
  by (induction xs arbitrary: i) (auto split: nat.splits simp: nth_Cons')

lemma length_filter_update_same:
  "i < length xs \<Longrightarrow> P y = P (xs ! i) \<Longrightarrow> length (filter P (xs[i := y])) = length (filter P xs)"
  by (induction xs arbitrary: i) (auto split: nat.splits simp: nth_Cons')

end
