(* ===== verification/Boost_Lib.thy ===== *)
theory Boost_Lib
  imports Fibp_Prelude
begin

text \<open>
  The Boost functions the sources call are not part of the repository.  The model's definitions
  take them as an argument of type \<open>boost_lib\<close>.  What the code relies on is \<open>boost_ok\<close>, the
  documented behaviour of \<open>boost::split\<close>, \<open>boost::trim_if\<close>, \<open>boost::algorithm::to_lower\<close>, \<open>iequals\<close> and
  \<open>boost::lexical_cast\<close>; \<open>ref_boost\<close> is an executable instance, used to evaluate the model on
  concrete inputs.
\<close>

record boost_lib =
  b_split :: "string \<Rightarrow> string \<Rightarrow> string list"
  b_split_compress :: "string \<Rightarrow> string \<Rightarrow> string list"
  b_trim_if :: "string \<Rightarrow> string \<Rightarrow> string"
  b_to_lower :: "string \<Rightarrow> string"
  b_iequals :: "string \<Rightarrow> string \<Rightarrow> bool"
  b_of_int :: "int \<Rightarrow> string"
  b_cast_u32 :: "string \<Rightarrow> 32 word option"
  b_cast_u16 :: "string \<Rightarrow> 16 word option"

text \<open>\<open>split(out, s, is_any_of(seps))\<close>: one token more than separators in the input.\<close>

fun split_off :: "string \<Rightarrow> string \<Rightarrow> string list" where
  "split_off seps [] = [[]]"
| "split_off seps (c # s) =
     (if c \<in> set seps then [] # split_off seps s
      else (case split_off seps s of t # ts \<Rightarrow> (c # t) # ts | [] \<Rightarrow> [[c]]))"

text \<open>With \<open>token_compress_on\<close> a run of separators counts as one.\<close>

function split_on :: "string \<Rightarrow> string \<Rightarrow> string list" where
  "split_on seps [] = [[]]"
| "split_on seps (c # s) =
     (if c \<in> set seps then [] # split_on seps (dropWhile (\<lambda>d. d \<in> set seps) s)
      else (case split_on seps s of t # ts \<Rightarrow> (c # t) # ts | [] \<Rightarrow> [[c]]))"
  by pat_completeness auto
termination
  by (relation "measure (\<lambda>(_, s). length s)") (auto simp: le_imp_less_Suc length_dropWhile_le)

text \<open>\<open>trim_if(s, is_any_of(seps))\<close>.\<close>

definition trim_any :: "string \<Rightarrow> string \<Rightarrow> string" where
  "trim_any seps s = rev (dropWhile (\<lambda>d. d \<in> set seps) (rev (dropWhile (\<lambda>d. d \<in> set seps) s)))"

definition ascii_lower :: "char \<Rightarrow> char" where
  "ascii_lower c =
     (if 65 \<le> (of_char c :: nat) \<and> (of_char c :: nat) \<le> 90 then char_of ((of_char c :: nat) + 32) else c)"

definition cast_unsigned :: "nat \<Rightarrow> string \<Rightarrow> nat option" where
  "cast_unsigned w s =
     (if s \<noteq> [] \<and> list_all is_digit s \<and> nat_of_dec s < 2 ^ w then Some (nat_of_dec s) else None)"

definition ref_boost :: boost_lib where
  "ref_boost = \<lparr>b_split = split_off, b_split_compress = split_on, b_trim_if = trim_any,
     b_to_lower = map ascii_lower,
     b_iequals = (\<lambda>s t. map ascii_lower s = map ascii_lower t),
     b_of_int = dec_of_int,
     b_cast_u32 = (\<lambda>s. map_option of_nat (cast_unsigned 32 s)),
     b_cast_u16 = (\<lambda>s. map_option of_nat (cast_unsigned 16 s))\<rparr>"

text \<open>The documented behaviour.  A numeral outside the range of the target type and an empty
  string are \<open>bad_lexical_cast\<close>; nothing is said of signs and other spellings.\<close>

definition boost_ok :: "boost_lib \<Rightarrow> bool" where
  "boost_ok B \<longleftrightarrow>
     b_split B = split_off \<and> b_split_compress B = split_on \<and> b_trim_if B = trim_any \<and>
     b_to_lower B = map ascii_lower \<and>
     b_iequals B = (\<lambda>s t. map ascii_lower s = map ascii_lower t) \<and>
     b_of_int B = dec_of_int \<and>
     (\<forall>s. s \<noteq> [] \<and> list_all is_digit s \<longrightarrow>
        b_cast_u32 B s = (if nat_of_dec s < 2 ^ 32 then Some (of_nat (nat_of_dec s)) else None) \<and>
        b_cast_u16 B s = (if nat_of_dec s < 2 ^ 16 then Some (of_nat (nat_of_dec s)) else None)) \<and>
     b_cast_u32 B [] = None \<and> b_cast_u16 B [] = None"

lemma ref_boost_ok [simp]: "boost_ok ref_boost"
  by (auto simp: boost_ok_def ref_boost_def cast_unsigned_def)

lemma ref_boost_sel [simp]:
  "b_split ref_boost = split_off" "b_split_compress ref_boost = split_on" "b_trim_if ref_boost = trim_any"
  "b_to_lower ref_boost = map ascii_lower"
  "b_iequals ref_boost = (\<lambda>s t. map ascii_lower s = map ascii_lower t)"
  "b_of_int ref_boost = dec_of_int"
  by (simp_all add: ref_boost_def)

lemma boost_okD:
  assumes "boost_ok B"
  shows "b_split B = split_off" "b_split_compress B = split_on" "b_trim_if B = trim_any"
    "b_to_lower B = map ascii_lower" "b_of_int B = dec_of_int"
    "b_iequals B s t \<longleftrightarrow> map ascii_lower s = map ascii_lower t"
  using assms by (simp_all add: boost_ok_def)

lemma split_off_not_Nil [simp]: "split_off seps s \<noteq> []"
  by (cases s) (auto split: list.split)

lemma split_on_not_Nil [simp]: "split_on seps s \<noteq> []"
  by (cases s) (auto split: list.split)

lemma split_off_no_sep: "set s \<inter> set seps = {} \<Longrightarrow> split_off seps s = [s]"
  by (induction s) auto

lemma split_on_no_sep: "set s \<inter> set seps = {} \<Longrightarrow> split_on seps s = [s]"
  by (induction s) auto

lemma split_on_sep:
  "set s \<inter> set seps = {} \<Longrightarrow> c \<in> set seps \<Longrightarrow>
     split_on seps (s @ c # t) = s # split_on seps (dropWhile (\<lambda>d. d \<in> set seps) t)"
  by (induction s) auto

lemma split_off_sep:
  "set s \<inter> set seps = {} \<Longrightarrow> c \<in> set seps \<Longrightarrow>
     split_off seps (s @ c # t) = s # split_off seps t"
  by (induction s) auto

text \<open>No token of either split contains a separator, and joining the tokens of a plain split with
  the separator gives the input back.\<close>

lemma split_off_tokens: "\<forall>t \<in> set (split_off seps s). set t \<inter> set seps = {}"
  by (induction s) (auto split: list.splits)

lemma split_on_tokens: "\<forall>t \<in> set (split_on seps s). set t \<inter> set seps = {}"
  by (induction seps s rule: split_on.induct) (auto split: list.splits)

end
