(* ===== verification/Http_Types.thy ===== *)
theory Http_Types
  imports Boost_Lib
begin

text \<open>
  The HTTP messages of \<open>fiber-server/HttpProtocolHandler.h\<close>: \<open>request_t\<close>, \<open>response_t\<close>, the header
  list and \<open>find_header\<close>.  The fields \<open>method_\<close> and \<open>code_\<close> are C++ enums that the parsers fill by a
  cast from an integer of the wire, so they are integers here; a \<open>short\<close> is kept as an integer
  because every value it takes comes from a 16-bit parser field.
\<close>

type_synonym header_t = "string \<times> string"
type_synonym headers_t = "header_t list"

datatype http_method = DELETE | GET | HEAD | POST | PUT

primrec method_code :: "http_method \<Rightarrow> int" where
  "method_code DELETE = 0"
| "method_code GET = 1"
| "method_code HEAD = 2"
| "method_code POST = 3"
| "method_code PUT = 4"

datatype status_code = OK | BAD_REQUEST | NOT_FOUND | INTERNAL_SERVER_ERROR | NOT_IMPLEMENTED
  | BAD_GATEWAY | SERVICE_UNAVAILABLE | GATEWAY_TIMEOUT

primrec status_val :: "status_code \<Rightarrow> int" where
  "status_val OK = 200"
| "status_val BAD_REQUEST = 400"
| "status_val NOT_FOUND = 404"
| "status_val INTERNAL_SERVER_ERROR = 500"
| "status_val NOT_IMPLEMENTED = 501"
| "status_val BAD_GATEWAY = 502"
| "status_val SERVICE_UNAVAILABLE = 503"
| "status_val GATEWAY_TIMEOUT = 504"

fun find_header :: "headers_t \<Rightarrow> string \<Rightarrow> string" where
  "find_header [] key = ''''"
| "find_header ((k, v) # hs) key = (if k = key then v else find_header hs key)"

lemma find_header_map_of:
  "find_header hs key = (case map_of hs key of Some v \<Rightarrow> v | None \<Rightarrow> '''')"
  by (induction hs key rule: find_header.induct) auto

record request_t =
  rq_http_major :: int
  rq_http_minor :: int
  rq_method :: int
  rq_schema :: string
  rq_host :: string
  rq_port :: int
  rq_path :: string
  rq_query :: string
  rq_headers :: headers_t
  rq_keep_alive :: bool
  rq_body :: string

definition request_new :: request_t where
  "request_new = \<lparr>rq_http_major = 1, rq_http_minor = 1, rq_method = method_code POST,
     rq_schema = '''', rq_host = '''', rq_port = 0, rq_path = '''', rq_query = '''',
     rq_headers = [], rq_keep_alive = False, rq_body = ''''\<rparr>"

definition request_clear :: "request_t \<Rightarrow> request_t" where
  "request_clear r = \<lparr>rq_http_major = 0, rq_http_minor = 0, rq_method = method_code GET,
     rq_schema = '''', rq_host = '''', rq_port = 0, rq_path = '''', rq_query = '''',
     rq_headers = [], rq_keep_alive = False, rq_body = ''''\<rparr>"

record response_t =
  rp_http_major :: int
  rp_http_minor :: int
  rp_code :: int
  rp_status_message :: string
  rp_headers :: headers_t
  rp_keep_alive :: bool
  rp_body :: string

definition response_new :: response_t where
  "response_new = \<lparr>rp_http_major = 1, rp_http_minor = 1, rp_code = status_val GATEWAY_TIMEOUT,
     rp_status_message = '''', rp_headers = [], rp_keep_alive = False, rp_body = ''''\<rparr>"

definition response_clear :: "response_t \<Rightarrow> response_t" where
  "response_clear r = \<lparr>rp_http_major = 1, rp_http_minor = 1, rp_code = status_val GATEWAY_TIMEOUT,
     rp_status_message = '''', rp_headers = [], rp_keep_alive = False, rp_body = ''''\<rparr>"

end
