(* ===== verification/Common_Types.thy ===== *)
theory Common_Types
  imports Http_Types
begin

text \<open>
  The data of \<open>common/FibpCommonTypes.h\<close>: service types, the call request and response of the
  proxy, and the description of a forwarded port.  The C++ fields \<open>method\<close> and \<open>service_type\<close> are
  plain \<open>int\<close>s that a client fills, so they are integers here and the enumerations give their
  legal values.
\<close>

datatype ServiceType = HTTP_Service | RPC_Service | Raw_Service | Custom_Service | End_Service

primrec service_type_val :: "ServiceType \<Rightarrow> int" where
  "service_type_val HTTP_Service = 0"
| "service_type_val RPC_Service = 1"
| "service_type_val Raw_Service = 2"
| "service_type_val Custom_Service = 3"
| "service_type_val End_Service = 4"

lemma service_type_val_inj [simp]: "service_type_val s = service_type_val t \<longleftrightarrow> s = t"
  by (cases s; cases t) auto

lemma service_type_val_range: "0 \<le> service_type_val t \<and> service_type_val t \<le> 4"
  by (cases t) auto

record ServiceCallReq =
  req_service_name :: string
  req_service_api :: string
  req_method :: int
  req_data :: string
  req_cluster :: string
  req_service_type :: int
  req_enable_cache :: bool

definition call_req_new :: ServiceCallReq where
  "call_req_new = \<lparr>req_service_name = '''', req_service_api = '''', req_method = method_code POST,
     req_data = '''', req_cluster = '''', req_service_type = service_type_val HTTP_Service,
     req_enable_cache = False\<rparr>"

definition call_req_eq :: "ServiceCallReq \<Rightarrow> ServiceCallReq \<Rightarrow> bool" where
  "call_req_eq a b \<longleftrightarrow>
     req_service_name a = req_service_name b \<and>
     req_service_api a = req_service_api b \<and>
     req_data a = req_data b \<and>
     req_cluster a = req_cluster b \<and>
     req_service_type a = req_service_type b \<and>
     req_method a = req_method b"

lemma call_req_eq_equiv: "equivp call_req_eq"
  by (rule equivpI) (auto simp: reflp_def symp_def transp_def call_req_eq_def)

lemma call_req_eq_alt:
  "call_req_eq a b \<longleftrightarrow> a\<lparr>req_enable_cache := c\<rparr> = b\<lparr>req_enable_cache := c\<rparr>"
  by (cases a; cases b) (auto simp: call_req_eq_def)

record ServiceCallRsp =
  rsp_service_name :: string
  rsp_rsp :: string
  rsp_error :: string
  rsp_is_cached :: bool
  rsp_host :: string
  rsp_port :: string

definition call_rsp_new :: ServiceCallRsp where
  "call_rsp_new = \<lparr>rsp_service_name = '''', rsp_rsp = '''', rsp_error = '''',
     rsp_is_cached = False, rsp_host = '''', rsp_port = ''''\<rparr>"

record ForwardInfoT =
  fi_service_name :: string
  fi_service_type :: int
  fi_port :: "16 word"

end
