(* ===== verification/Service_Registry.thy ===== *)
theory Service_Registry
  imports Common_Types
begin

text \<open>
  The service registry of \<open>forward-manager/FibpServiceMgr.cpp\<close>: reading the answers of the
  discovery server (Consul), the per-service watcher that keeps the table of live hosts, the
  catalogue watcher that starts the per-service ones, and the address lookup the callers use.

  The JSON parser (rapidjson) is not part of the repository.  Its document type is \<open>json\<close>, and
  the operations the code calls are a record \<open>rapidjson\<close> that the definitions take as an argument;
  \<open>rj_ok\<close> says what is documented, namely the accessors on values of the right kind.
\<close>

datatype json = JNull | JBool bool | JNum int | JReal string | JString string
  | JArray "json list" | JObject "(string \<times> json) list"

record rapidjson =
  rj_parse :: "string \<Rightarrow> json option"
  rj_get_string :: "json \<Rightarrow> string"
  rj_get_int :: "json \<Rightarrow> int"
  rj_members :: "json \<Rightarrow> (string \<times> json) list"

definition rj_ok :: "rapidjson \<Rightarrow> bool" where
  "rj_ok J \<longleftrightarrow> (\<forall>s. rj_get_string J (JString s) = s) \<and> (\<forall>i. rj_get_int J (JNum i) = i) \<and>
     (\<forall>ms. rj_members J (JObject ms) = ms)"

definition ref_json :: "(string \<Rightarrow> json option) \<Rightarrow> rapidjson" where
  "ref_json p = \<lparr>rj_parse = p,
     rj_get_string = (\<lambda>v. case v of JString s \<Rightarrow> s | _ \<Rightarrow> ''''),
     rj_get_int = (\<lambda>v. case v of JNum i \<Rightarrow> i | _ \<Rightarrow> 0),
     rj_members = (\<lambda>v. case v of JObject ms \<Rightarrow> ms | _ \<Rightarrow> [])\<rparr>"

lemma ref_json_ok [simp]: "rj_ok (ref_json p)"
  by (simp add: rj_ok_def ref_json_def)

abbreviation get_str :: "rapidjson \<Rightarrow> json \<Rightarrow> string" where
  "get_str J v \<equiv> c_str (rj_get_string J v)"

primrec is_object :: "json \<Rightarrow> bool" where
  "is_object JNull = False"
| "is_object (JBool b) = False"
| "is_object (JNum i) = False"
| "is_object (JReal s) = False"
| "is_object (JString s) = False"
| "is_object (JArray vs) = False"
| "is_object (JObject ms) = True"

definition doc_parse :: "rapidjson \<Rightarrow> string \<Rightarrow> json option" where
  "doc_parse J s = rj_parse J (c_str s)"

section \<open>Reading the answers of the discovery server\<close>

definition AGENT_ID_LEN :: nat where "AGENT_ID_LEN = 10"
definition connector :: string where "connector = ''-''"
definition http_service_str :: string where "http_service_str = ''http''"
definition rpc_service_str :: string where "rpc_service_str = ''rpc''"
definition raw_service_str :: string where "raw_service_str = ''raw''"
definition dev_cluster_str :: string where "dev_cluster_str = ''dev''"
definition port_forward_key :: string where "port_forward_key = ''/v1/kv/fibp-forward-port''"

text \<open>The result is the returned flag and the \<open>services\<close> vector, which is cleared first.\<close>

definition parseQueryServicesRsp :: "rapidjson \<Rightarrow> string \<Rightarrow> bool \<times> string list" where
  "parseQueryServicesRsp J json_rsp =
     (case doc_parse J json_rsp of
        None \<Rightarrow> (False, [])
      | Some doc \<Rightarrow>
          if \<not> is_object doc then (False, [])
          else (True, map (c_str \<circ> fst) (rj_members J doc)))"

text \<open>The local variables of the loop over the nodes of a health answer.\<close>

record node_vars =
  nv_host :: string
  nv_port :: string
  nv_service_name :: string
  nv_type :: ServiceType
  nv_tags :: "string list"
  nv_passing :: bool
  nv_ret :: bool

definition node_vars_new :: node_vars where
  "node_vars_new = \<lparr>nv_host = '''', nv_port = '''', nv_service_name = '''',
     nv_type = Custom_Service, nv_tags = [], nv_passing = False, nv_ret = True\<rparr>"

fun find_address :: "rapidjson \<Rightarrow> (string \<times> json) list \<Rightarrow> string option" where
  "find_address J [] = None"
| "find_address J ((k, v) # ms) =
     (if c_str k = ''Address'' then Some (get_str J v) else find_address J ms)"

definition parseServiceNodeInfo :: "rapidjson \<Rightarrow> json \<Rightarrow> string \<Rightarrow> bool \<times> string" where
  "parseServiceNodeInfo J v host =
     (if \<not> is_object v then (False, host)
      else (case find_address J (rj_members J v) of
              Some a \<Rightarrow> (True, a) | None \<Rightarrow> (False, host)))"

definition parse_tag :: "boost_lib \<Rightarrow> rapidjson \<Rightarrow> json \<Rightarrow> node_vars \<Rightarrow> node_vars" where
  "parse_tag B J v nv =
     (let tag = b_to_lower B (get_str J v) in
      if tag = http_service_str then nv\<lparr>nv_type := HTTP_Service\<rparr>
      else if tag = raw_service_str then nv\<lparr>nv_type := Raw_Service\<rparr>
      else if tag = rpc_service_str then nv\<lparr>nv_type := RPC_Service\<rparr>
      else nv\<lparr>nv_tags := nv_tags nv @ [tag]\<rparr>)"

definition parse_service_member ::
  "boost_lib \<Rightarrow> rapidjson \<Rightarrow> string \<times> json \<Rightarrow> node_vars \<Rightarrow> node_vars" where
  "parse_service_member B J m nv =
     (let key = c_str (fst m); v = snd m in
      if key = ''Port'' then nv\<lparr>nv_port := b_of_int B (rj_get_int J v)\<rparr>
      else if key = ''Tags'' then
        (case v of JArray ts \<Rightarrow> fold (parse_tag B J) ts nv | _ \<Rightarrow> nv)
      else if key = ''Service'' then nv\<lparr>nv_service_name := get_str J v\<rparr>
      else nv)"

definition parseServiceInfo ::
  "boost_lib \<Rightarrow> rapidjson \<Rightarrow> json \<Rightarrow> node_vars \<Rightarrow> bool \<times> node_vars" where
  "parseServiceInfo B J v nv =
     (if \<not> is_object v then (False, nv)
      else
        (let nv0 = nv\<lparr>nv_type := Custom_Service, nv_tags := [], nv_service_name := ''''\<rparr>;
             nv1 = fold (parse_service_member B J) (rj_members J v) nv0
         in (True,
             if nv_service_name nv1 \<noteq> '''' \<and> nv_tags nv1 = []
             then nv1\<lparr>nv_tags := [dev_cluster_str]\<rparr> else nv1)))"

text \<open>\<open>parseServiceCheckInfo\<close> leaves the inner loop by \<open>return true\<close> at the first status that is not
  \<open>passing\<close>; the flag of the pair says that it did.\<close>

fun check_members :: "rapidjson \<Rightarrow> (string \<times> json) list \<Rightarrow> bool \<Rightarrow> bool \<times> bool" where
  "check_members J [] p = (p, False)"
| "check_members J ((k, v) # ms) p =
     (if c_str k = ''Status''
      then (let p' = (get_str J v = ''passing'') in
            if \<not> p' then (p', True) else check_members J ms p')
      else check_members J ms p)"

fun check_loop :: "rapidjson \<Rightarrow> json list \<Rightarrow> bool \<Rightarrow> bool" where
  "check_loop J [] p = p"
| "check_loop J (check # vs) p =
     (case check_members J (rj_members J check) p of
        (p', True) \<Rightarrow> p' | (p', False) \<Rightarrow> check_loop J vs p')"

definition parseServiceCheckInfo :: "rapidjson \<Rightarrow> json \<Rightarrow> bool \<times> bool" where
  "parseServiceCheckInfo J v =
     (case v of JArray cs \<Rightarrow> (True, check_loop J cs True) | _ \<Rightarrow> (True, True))"

text \<open>The inner loop over the members of one node; a failed part ends it with \<open>ret\<close> false.\<close>

fun node_members :: "boost_lib \<Rightarrow> rapidjson \<Rightarrow> (string \<times> json) list \<Rightarrow> node_vars \<Rightarrow> node_vars" where
  "node_members B J [] nv = nv"
| "node_members B J ((k, v) # ms) nv =
     (if c_str k = ''Node'' then
        (case parseServiceNodeInfo J v (nv_host nv) of (ret, h) \<Rightarrow>
           let nv' = nv\<lparr>nv_host := h, nv_ret := ret\<rparr> in
           if \<not> ret then nv' else node_members B J ms nv')
      else if c_str k = ''Service'' then
        (case parseServiceInfo B J v nv of (ret, nv1) \<Rightarrow>
           let nv' = nv1\<lparr>nv_ret := ret\<rparr> in
           if \<not> ret then nv' else node_members B J ms nv')
      else if c_str k = ''Checks'' then
        (case parseServiceCheckInfo J v of (ret, p) \<Rightarrow>
           let nv' = nv\<lparr>nv_passing := p, nv_ret := ret\<rparr> in
           if \<not> ret then nv' else node_members B J ms nv')
      else node_members B J ms nv)"

type_synonym HostPairT = "string \<times> string"
type_synonym node_map = "(string \<times> HostPairT list) list"

definition vec_resize :: "nat \<Rightarrow> 'a \<Rightarrow> 'a list \<Rightarrow> 'a list" where
  "vec_resize n d xs = take n xs @ replicate (n - length xs) d"

text \<open>\<open>server_info[key].insert(host)\<close>.\<close>

definition add_host :: "string \<Rightarrow> HostPairT \<Rightarrow> node_map \<Rightarrow> node_map" where
  "add_host key h m =
     smap_put key (sset_insert h (case map_of m key of Some hs \<Rightarrow> hs | None \<Rightarrow> [])) m"

definition type_idx :: "ServiceType \<Rightarrow> nat" where
  "type_idx t = nat (service_type_val t)"

definition add_node :: "node_vars \<Rightarrow> node_map list \<Rightarrow> node_map list" where
  "add_node nv nl =
     (if \<not> nv_passing nv \<or> \<not> nv_ret nv then nl
      else nl[type_idx (nv_type nv) :=
        fold (\<lambda>tag. add_host (nv_service_name nv @ connector @ tag) (nv_host nv, nv_port nv))
          (nv_tags nv) (nl ! type_idx (nv_type nv))])"

definition parse_node :: "boost_lib \<Rightarrow> rapidjson \<Rightarrow> json \<Rightarrow> node_vars" where
  "parse_node B J node = node_members B J (rj_members J node) node_vars_new"

definition parseServiceInfoRsp ::
  "boost_lib \<Rightarrow> rapidjson \<Rightarrow> string \<Rightarrow> node_map list \<Rightarrow> bool \<times> node_map list" where
  "parseServiceInfoRsp B J json_rsp node_list =
     (case doc_parse J json_rsp of
        Some (JArray nodes) \<Rightarrow>
          (True, fold (\<lambda>node. add_node (parse_node B J node)) nodes
                   (vec_resize (type_idx End_Service) [] node_list))
      | _ \<Rightarrow> (False, node_list))"

section \<open>The registry and its watchers\<close>

text \<open>The state of \<open>FibpServiceMgr\<close> that the operations share.\<close>

record service_mgr =
  reg_service_host_info :: "node_map list"
  reg_address_list :: "(string \<times> string) list"
  need_stop :: bool
  curClusterName :: string
  ports_used_by_agent :: "(string \<times> 16 word list) list"

text \<open>The constructor; the flag says that the watching thread was started.\<close>

definition addr_of_item :: "boost_lib \<Rightarrow> string \<Rightarrow> (string \<times> string) list" where
  "addr_of_item B item =
     (case b_split B '':'' item of [ip, port] \<Rightarrow> [(ip, port)] | _ \<Rightarrow> [])"

definition FibpServiceMgr_new :: "boost_lib \<Rightarrow> string \<Rightarrow> service_mgr \<times> bool" where
  "FibpServiceMgr_new B addrs =
     (let al = concat (map (addr_of_item B) (b_split_compress B '','' addrs)) in
      (\<lparr>reg_service_host_info = replicate (type_idx End_Service) [], reg_address_list = al,
        need_stop = False, curClusterName = dev_cluster_str, ports_used_by_agent = []\<rparr>,
       al \<noteq> []))"

definition service_mgr_stop :: "service_mgr \<Rightarrow> service_mgr" where
  "service_mgr_stop sm = sm\<lparr>need_stop := True\<rparr>"

definition changeCluster :: "string \<Rightarrow> service_mgr \<Rightarrow> service_mgr" where
  "changeCluster newName sm = (if newName = '''' then sm else sm\<lparr>curClusterName := newName\<rparr>)"

text \<open>What a blocking HTTP exchange of the watchers' client ends with: the request was not sent, the
  response was not read, or a response.\<close>

datatype http_outcome = Send_failed | Rsp_failed response_t | Rsp_ok response_t

text \<open>\<open>lexical_cast\<close> throws when the index header is missing or no number; the exception leaves the
  watcher.\<close>

datatype poll_result = Poll_failed | Poll_throw | Poll_ok "32 word" string

definition poll_query :: "boost_lib \<Rightarrow> string \<Rightarrow> 32 word \<Rightarrow> int \<Rightarrow> string" where
  "poll_query B query indexid timeout =
     query @ (if query \<noteq> '''' then ''&'' else '''') @
     (if 0 \<le> timeout
      then ''index='' @ b_of_int B (uint indexid) @ ''&wait='' @ b_of_int B timeout @ ''s''
      else '''')"

definition longPollingRequest ::
  "boost_lib \<Rightarrow> (request_t \<Rightarrow> http_outcome) \<Rightarrow> string \<Rightarrow> string \<Rightarrow> 32 word \<Rightarrow> int \<Rightarrow> poll_result" where
  "longPollingRequest B client path query indexid timeout =
     (case client (request_new\<lparr>rq_method := method_code GET, rq_path := path,
                     rq_query := poll_query B query indexid timeout, rq_keep_alive := True\<rparr>) of
        Send_failed \<Rightarrow> Poll_failed
      | Rsp_failed _ \<Rightarrow> Poll_failed
      | Rsp_ok rsp \<Rightarrow>
          (case b_cast_u32 B (find_header (rp_headers rsp) ''X-Consul-Index'') of
             None \<Rightarrow> Poll_throw
           | Some idx \<Rightarrow> Poll_ok idx (rp_body rsp)))"

text \<open>The loop of \<open>watchServiceNodeChangeFunc\<close> over the service types: erase every name this watcher
  wrote earlier, write the new entries, remember their names.\<close>

fun apply_node_list ::
  "nat \<Rightarrow> node_map list \<Rightarrow> node_map list \<Rightarrow> string list \<Rightarrow> node_map list \<times> string list" where
  "apply_node_list i [] reg names = (reg, names)"
| "apply_node_list i (m # ms) reg names =
     apply_node_list (Suc i) ms
       (reg[i := fold (\<lambda>(k, hs). smap_put k hs) m (fold smap_erase names (reg ! i))])
       (fold sset_insert (map fst m) names)"

record node_watch =
  nw_indexid :: "32 word"
  nw_balance :: "32 word"
  nw_last_names :: "string list"

definition node_watch_new :: node_watch where
  "node_watch_new = \<lparr>nw_indexid = 0, nw_balance = 0, nw_last_names = []\<rparr>"

text \<open>One turn of a watcher's loop.  \<open>net addr\<close> is the client connected to \<open>addr\<close>; the address
  in use is the one the balance index selects.  \<open>None\<close> is an exception that ends the watcher.\<close>

definition watch_addr :: "service_mgr \<Rightarrow> 32 word \<Rightarrow> string \<times> string" where
  "watch_addr sm bi = reg_address_list sm ! (unat bi mod length (reg_address_list sm))"

definition watchServiceNodeChange_turn ::
  "boost_lib \<Rightarrow> rapidjson \<Rightarrow> (string \<times> string \<Rightarrow> request_t \<Rightarrow> http_outcome) \<Rightarrow> string \<Rightarrow>
   service_mgr \<times> node_watch \<Rightarrow> (service_mgr \<times> node_watch) option" where
  "watchServiceNodeChange_turn B J net name = (\<lambda>(sm, nw).
     case longPollingRequest B (net (watch_addr sm (nw_balance nw)))
            (''/v1/health/service/'' @ name) '''' (nw_indexid nw) 120 of
       Poll_failed \<Rightarrow> Some (sm, nw\<lparr>nw_balance := nw_balance nw + 1\<rparr>)
     | Poll_throw \<Rightarrow> None
     | Poll_ok idx json_rsp \<Rightarrow>
         (let nw1 = nw\<lparr>nw_indexid := idx\<rparr> in
          case parseServiceInfoRsp B J json_rsp [] of
            (False, _) \<Rightarrow> Some (sm, nw1)
          | (True, node_list) \<Rightarrow>
              (case apply_node_list 0 node_list (reg_service_host_info sm) (nw_last_names nw1) of
                 (reg', last') \<Rightarrow>
                   Some (sm\<lparr>reg_service_host_info := reg'\<rparr>, nw1\<lparr>nw_last_names := last'\<rparr>))))"

record svc_watch =
  sw_watching :: "string list"
  sw_indexid :: "32 word"
  sw_balance :: "32 word"

text \<open>The catalogue watcher: the loop over the services of an answer gives the names for which a
  new watcher fiber is started, in order.\<close>

fun spawn_watchers :: "string list \<Rightarrow> string list \<Rightarrow> string list \<times> string list" where
  "spawn_watchers [] watching = (watching, [])"
| "spawn_watchers (s # ss) watching =
     (if s \<in> set watching then spawn_watchers ss watching
      else (case spawn_watchers ss (sset_insert s watching) of (w, started) \<Rightarrow> (w, s # started)))"

definition watchServiceChange_turn ::
  "boost_lib \<Rightarrow> rapidjson \<Rightarrow> (string \<times> string \<Rightarrow> request_t \<Rightarrow> http_outcome) \<Rightarrow>
   service_mgr \<Rightarrow> svc_watch \<Rightarrow> (svc_watch \<times> string list) option" where
  "watchServiceChange_turn B J net sm sw =
     (case longPollingRequest B (net (watch_addr sm (sw_balance sw)))
             ''/v1/catalog/services'' '''' (sw_indexid sw) 120 of
        Poll_failed \<Rightarrow> Some (sw\<lparr>sw_balance := sw_balance sw + 1\<rparr>, [])
      | Poll_throw \<Rightarrow> None
      | Poll_ok idx json_rsp \<Rightarrow>
          (case spawn_watchers (snd (parseQueryServicesRsp J json_rsp)) (sw_watching sw) of
             (w, started) \<Rightarrow> Some (sw\<lparr>sw_watching := w, sw_indexid := idx\<rparr>, started)))"

text \<open>The cluster watcher.  \<open>doc.GetString()\<close> is called on a document that was just found to be an
  object; its result is used only when no member is called \<open>Name\<close>.\<close>

fun find_name :: "rapidjson \<Rightarrow> (string \<times> json) list \<Rightarrow> string \<Rightarrow> string" where
  "find_name J [] d = d"
| "find_name J ((k, v) # ms) d = (if c_str k = ''Name'' then get_str J v else find_name J ms d)"

definition watchCurrentClusterName_turn ::
  "rapidjson \<Rightarrow> (request_t \<Rightarrow> http_outcome) \<Rightarrow> service_mgr \<times> string \<Rightarrow> (service_mgr \<times> string) \<times> bool" where
  "watchCurrentClusterName_turn J client = (\<lambda>(sm, indexid).
     case client (request_new\<lparr>rq_method := method_code GET, rq_path := ''/api/local/get-cluster'',
                    rq_keep_alive := True,
                    rq_query := ''index='' @ indexid @ ''&wait=600s''\<rparr>) of
       Send_failed \<Rightarrow> ((sm, indexid), False)
     | Rsp_failed _ \<Rightarrow> ((sm, indexid), False)
     | Rsp_ok rsp \<Rightarrow>
         (case doc_parse J (rp_body rsp) of
            None \<Rightarrow> ((sm, indexid), False)
          | Some doc \<Rightarrow>
              if \<not> is_object doc then ((sm, indexid), False)
              else
                (let newName = find_name J (rj_members J doc) (get_str J doc);
                     idx = find_header (rp_headers rsp) ''X-Consul-Index'';
                     indexid' = (if idx = '''' then ''0'' else idx)
                 in ((if newName \<noteq> curClusterName sm then changeCluster newName sm else sm, indexid'),
                     True))))"

text \<open>The lookup.  \<open>None\<close> is the result \<open>false\<close>.  The C++ comparison \<open>type >= size()\<close> is unsigned,
  so a negative type is refused as well.\<close>

definition get_service_address ::
  "service_mgr \<Rightarrow> 64 word \<Rightarrow> string \<Rightarrow> int \<Rightarrow> HostPairT option" where
  "get_service_address sm balance_index service_name type =
     (if type < 0 \<or> nat type \<ge> length (reg_service_host_info sm) then None
      else
        (case map_of (reg_service_host_info sm ! nat type)
                (service_name @ connector @ curClusterName sm) of
           None \<Rightarrow> None
         | Some hosts \<Rightarrow>
             if hosts = [] then None
             else Some (hosts ! (unat balance_index mod length hosts))))"

section \<open>What the parsers accept\<close>

definition status_ok :: "rapidjson \<Rightarrow> (string \<times> json) list \<Rightarrow> bool" where
  "status_ok J ms \<longleftrightarrow> (\<forall>(k, v) \<in> set ms. c_str k = ''Status'' \<longrightarrow> get_str J v = ''passing'')"

definition checks_passing :: "rapidjson \<Rightarrow> json list \<Rightarrow> bool" where
  "checks_passing J cs \<longleftrightarrow> (\<forall>c \<in> set cs. status_ok J (rj_members J c))"

lemma check_members_True: "check_members J ms True = (status_ok J ms, \<not> status_ok J ms)"
proof (induction ms)
  case (Cons m ms)
  then show ?case by (cases m) (auto simp: Let_def status_ok_def)
qed (simp add: status_ok_def)

lemma check_loop_True: "check_loop J cs True = checks_passing J cs"
  by (induction cs) (auto simp: checks_passing_def check_members_True split: bool.splits)

lemma parse_tag_type:
  "nv_type nv \<noteq> End_Service \<Longrightarrow> nv_type (parse_tag B J v nv) \<noteq> End_Service"
  by (simp add: parse_tag_def Let_def)

lemma fold_parse_tag_type:
  "nv_type nv \<noteq> End_Service \<Longrightarrow> nv_type (fold (parse_tag B J) ts nv) \<noteq> End_Service"
  by (induction ts arbitrary: nv) (auto simp: parse_tag_type)

lemma fold_service_member_type:
  "nv_type nv \<noteq> End_Service \<Longrightarrow> nv_type (fold (parse_service_member B J) ms nv) \<noteq> End_Service"
proof (induction ms arbitrary: nv)
  case (Cons m ms)
  have "nv_type (parse_service_member B J m nv) \<noteq> End_Service"
    using Cons.prems by (auto simp: parse_service_member_def Let_def fold_parse_tag_type split: json.split)
  then show ?case using Cons.IH by simp
qed simp

lemma parseServiceInfo_type:
  "nv_type nv \<noteq> End_Service \<Longrightarrow> nv_type (snd (parseServiceInfo B J v nv)) \<noteq> End_Service"
  by (simp add: parseServiceInfo_def Let_def fold_service_member_type)

definition checks_value_ok :: "rapidjson \<Rightarrow> json \<Rightarrow> bool" where
  "checks_value_ok J v = (case v of JArray cs \<Rightarrow> checks_passing J cs | _ \<Rightarrow> True)"

lemma parseServiceCheckInfo_iff: "parseServiceCheckInfo J v = (True, checks_value_ok J v)"
  by (simp add: parseServiceCheckInfo_def checks_value_ok_def check_loop_True split: json.split)

text \<open>Whatever the three parts of a node preserve holds of the variables at the end of its loop.\<close>

lemma node_members_inv:
  assumes "P nv"
    and "\<And>nv h r. P nv \<Longrightarrow> P (nv\<lparr>nv_host := h, nv_ret := r\<rparr>)"
    and "\<And>nv v r. P nv \<Longrightarrow> P ((snd (parseServiceInfo B J v nv))\<lparr>nv_ret := r\<rparr>)"
    and "\<forall>(k, v) \<in> set ms. c_str k = ''Checks'' \<longrightarrow>
      (\<forall>nv. P nv \<longrightarrow> P (nv\<lparr>nv_passing := checks_value_ok J v, nv_ret := True\<rparr>))"
  shows "P (node_members B J ms nv)"
  using assms(1,4)
proof (induction ms arbitrary: nv)
  case (Cons m ms)
  obtain k v where m: "m = (k, v)" by (cases m)
  have IH: "P nv' \<Longrightarrow> P (node_members B J ms nv')" for nv'
    using Cons.IH[of nv'] Cons.prems(2) by simp
  obtain r h where n: "parseServiceNodeInfo J v (nv_host nv) = (r, h)" by fastforce
  obtain r' nv1 where s: "parseServiceInfo B J v nv = (r', nv1)" by fastforce
  have N: "P (nv\<lparr>nv_host := h, nv_ret := r\<rparr>)" by (rule assms(2)) (rule Cons.prems(1))
  have S: "P (nv1\<lparr>nv_ret := r'\<rparr>)" using assms(3)[OF Cons.prems(1), where v = v and r = r'] s by simp
  show ?case
  proof (cases "c_str k = ''Checks''")
    case True
    then have "P (nv\<lparr>nv_passing := checks_value_ok J v, nv_ret := True\<rparr>)"
      using Cons.prems m by auto
    with True show ?thesis by (simp add: m IH parseServiceCheckInfo_iff)
  next
    case False
    with N S Cons.prems(1) show ?thesis
      by (cases r; cases r') (simp_all add: m n s Let_def IH)
  qed
qed simp

lemma node_members_type:
  "nv_type nv \<noteq> End_Service \<Longrightarrow> nv_type (node_members B J ms nv) \<noteq> End_Service"
  by (rule node_members_inv) (simp_all add: parseServiceInfo_type)

lemma type_idx_less: "t \<noteq> End_Service \<Longrightarrow> type_idx t < 4"
  by (cases t) (auto simp: type_idx_def)

lemma parse_node_idx: "type_idx (nv_type (parse_node B J node)) < 4"
  by (rule type_idx_less) (simp add: parse_node_def node_members_type node_vars_new_def)

text \<open>A node that is taken has a \<open>Checks\<close> member all of whose statuses are \<open>passing\<close>.\<close>

lemma fold_tag_passing: "nv_passing (fold (parse_tag B J) ts nv) = nv_passing nv"
  by (induction ts arbitrary: nv) (auto simp: parse_tag_def Let_def)

lemma fold_member_passing: "nv_passing (fold (parse_service_member B J) ms nv) = nv_passing nv"
  by (induction ms arbitrary: nv)
    (auto simp: parse_service_member_def Let_def fold_tag_passing split: json.split)

lemma parseServiceInfo_passing: "nv_passing (snd (parseServiceInfo B J v nv)) = nv_passing nv"
  by (simp add: parseServiceInfo_def Let_def fold_member_passing)

lemma node_members_passing:
  assumes "nv_passing (node_members B J ms nv)"
  shows "nv_passing nv \<or> (\<exists>(k, v) \<in> set ms. c_str k = ''Checks'' \<and> checks_value_ok J v)"
proof -
  have "nv_passing (node_members B J ms nv) \<longrightarrow>
    nv_passing nv \<or> (\<exists>(k, v) \<in> set ms. c_str k = ''Checks'' \<and> checks_value_ok J v)"
    by (rule node_members_inv) (auto simp: parseServiceInfo_passing)
  with assms show ?thesis by blast
qed

lemma parse_node_passing:
  "nv_passing (parse_node B J node) \<Longrightarrow>
     \<exists>(k, v) \<in> set (rj_members J node). c_str k = ''Checks'' \<and> checks_value_ok J v"
  using node_members_passing[of B J "rj_members J node" node_vars_new]
  by (auto simp: parse_node_def node_vars_new_def)

section \<open>The table a health answer gives\<close>

definition node_map_ok :: "node_map \<Rightarrow> bool" where
  "node_map_ok m \<longleftrightarrow> smap_ok m \<and> (\<forall>(k, hs) \<in> set m. sset_ok hs \<and> hs \<noteq> [])"

definition host_set :: "node_map \<Rightarrow> string \<Rightarrow> HostPairT set" where
  "host_set m k = (case map_of m k of Some hs \<Rightarrow> set hs | None \<Rightarrow> {})"

lemma node_map_ok_Nil [simp]: "node_map_ok []"
  by (simp add: node_map_ok_def)

lemma set_smap_put_subset: "set (smap_put k v m) \<subseteq> insert (k, v) (set m)"
  by (induction k v m rule: smap_put.induct) auto

lemma node_map_ok_put [inv_intros]:
  "node_map_ok m \<Longrightarrow> sset_ok hs \<Longrightarrow> hs \<noteq> [] \<Longrightarrow> node_map_ok (smap_put k hs m)"
  by (auto simp: node_map_ok_def smap_ok_put dest!: set_smap_put_subset[THEN subsetD])

lemma node_map_ok_hosts: "node_map_ok m \<Longrightarrow> map_of m k = Some hs \<Longrightarrow> sset_ok hs \<and> hs \<noteq> []"
  by (auto simp: node_map_ok_def dest: map_of_SomeD)

lemma node_map_ok_add_host [inv_intros]: "node_map_ok m \<Longrightarrow> node_map_ok (add_host key h m)"
  by (auto simp: add_host_def intro!: node_map_ok_put sset_ok_insert
      split: option.split dest: node_map_ok_hosts)

lemma host_set_add_host:
  "node_map_ok m \<Longrightarrow>
     host_set (add_host key h m) k = (if k = key then insert h (host_set m k) else host_set m k)"
  by (auto simp: node_map_ok_def host_set_def add_host_def map_of_smap_put set_sset_insert split: option.split)

lemma fold_add_host:
  "node_map_ok m \<Longrightarrow>
     node_map_ok (fold (\<lambda>tag. add_host (pre @ tag) h) tags m) \<and>
     (\<forall>k. host_set (fold (\<lambda>tag. add_host (pre @ tag) h) tags m) k =
        host_set m k \<union> {p. p = h \<and> (\<exists>tag \<in> set tags. k = pre @ tag)})"
proof (induction tags arbitrary: m)
  case (Cons tag tags)
  have ok: "node_map_ok (add_host (pre @ tag) h m)"
    using Cons.prems by (rule node_map_ok_add_host)
  from Cons.IH[OF ok] show ?case
    using host_set_add_host[OF Cons.prems] by auto
qed auto

definition node_offers :: "node_vars \<Rightarrow> nat \<Rightarrow> string \<Rightarrow> HostPairT \<Rightarrow> bool" where
  "node_offers nv t k p \<longleftrightarrow> nv_passing nv \<and> nv_ret nv \<and> type_idx (nv_type nv) = t \<and>
     p = (nv_host nv, nv_port nv) \<and> (\<exists>tag \<in> set (nv_tags nv). k = nv_service_name nv @ connector @ tag)"

definition node_list_ok :: "node_map list \<Rightarrow> bool" where
  "node_list_ok nl \<longleftrightarrow> length nl = 4 \<and> (\<forall>m \<in> set nl. node_map_ok m)"

lemma add_node_spec:
  assumes "node_list_ok nl" "type_idx (nv_type nv) < 4"
  shows "node_list_ok (add_node nv nl) \<and>
    (\<forall>t<4. \<forall>k. host_set (add_node nv nl ! t) k = host_set (nl ! t) k \<union> {p. node_offers nv t k p})"
proof (cases "nv_passing nv \<and> nv_ret nv")
  case False
  then show ?thesis using assms by (auto simp: add_node_def node_offers_def)
next
  case True
  let ?i = "type_idx (nv_type nv)" and ?pre = "nv_service_name nv @ connector"
  let ?m = "fold (\<lambda>tag. add_host (?pre @ tag) (nv_host nv, nv_port nv)) (nv_tags nv) (nl ! ?i)"
  have eq: "add_node nv nl = nl[?i := ?m]" using True by (simp add: add_node_def)
  have "node_map_ok (nl ! ?i)" using assms by (auto simp: node_list_ok_def)
  from fold_add_host[OF this, of ?pre] have
    m: "node_map_ok ?m"
    "\<And>k. host_set ?m k = host_set (nl ! ?i) k \<union>
       {p. p = (nv_host nv, nv_port nv) \<and> (\<exists>tag \<in> set (nv_tags nv). k = ?pre @ tag)}"
    by auto
  show ?thesis
    using assms m True unfolding eq
    by (auto simp: node_list_ok_def node_offers_def nth_list_update dest!: set_update_subset_insert[THEN subsetD])
qed

lemma fold_add_node_spec:
  "node_list_ok nl \<Longrightarrow> (\<forall>nv \<in> set nvs. type_idx (nv_type nv) < 4) \<Longrightarrow>
     node_list_ok (fold add_node nvs nl) \<and>
     (\<forall>t<4. \<forall>k. host_set (fold add_node nvs nl ! t) k =
        host_set (nl ! t) k \<union> {p. \<exists>nv \<in> set nvs. node_offers nv t k p})"
proof (induction nvs arbitrary: nl)
  case (Cons nv nvs)
  from add_node_spec[OF Cons.prems(1), of nv] Cons.prems(2)
  have step: "node_list_ok (add_node nv nl)"
    "\<forall>t<4. \<forall>k. host_set (add_node nv nl ! t) k = host_set (nl ! t) k \<union> {p. node_offers nv t k p}"
    by auto
  from Cons.IH[OF step(1)] Cons.prems(2) step(2) show ?case by auto
qed auto

lemma node_list_ok_empty [simp]: "node_list_ok (replicate 4 [])"
  by (auto simp: node_list_ok_def)

lemma parseServiceInfoRsp_spec:
  assumes "doc_parse J s = Some (JArray nodes)"
  obtains nl where "parseServiceInfoRsp B J s [] = (True, nl)" "node_list_ok nl"
    "\<forall>t<4. \<forall>k. host_set (nl ! t) k = {p. \<exists>node \<in> set nodes. node_offers (parse_node B J node) t k p}"
proof -
  let ?nl = "fold add_node (map (parse_node B J) nodes) (replicate 4 [])"
  have "parseServiceInfoRsp B J s [] = (True, ?nl)"
    using assms by (simp add: parseServiceInfoRsp_def vec_resize_def type_idx_def fold_map comp_def)
  moreover from fold_add_node_spec[of "replicate 4 []" "map (parse_node B J) nodes"] parse_node_idx[of B J]
  have "node_list_ok ?nl"
    "\<forall>t<4. \<forall>k. host_set (?nl ! t) k = {p. \<exists>node \<in> set nodes. node_offers (parse_node B J node) t k p}"
    by (auto simp: host_set_def)
  ultimately show thesis using that by blast
qed

lemma parseServiceInfoRsp_ok:
  "parseServiceInfoRsp B J s [] = (True, nl) \<Longrightarrow> node_list_ok nl"
proof -
  assume p: "parseServiceInfoRsp B J s [] = (True, nl)"
  then obtain nodes where "doc_parse J s = Some (JArray nodes)"
    by (auto simp: parseServiceInfoRsp_def split: option.splits json.splits)
  from parseServiceInfoRsp_spec[OF this, of B] p show ?thesis by auto
qed

section \<open>The table after a turn of a watcher\<close>

definition put_all :: "node_map \<Rightarrow> string list \<Rightarrow> node_map \<Rightarrow> node_map" where
  "put_all m names r = fold (\<lambda>(k, hs). smap_put k hs) m (fold smap_erase names r)"

lemma put_all_look:
  assumes "node_map_ok m" "node_map_ok r"
  shows "map_of (put_all m names r) k =
    (case map_of m k of Some hs \<Rightarrow> Some hs
     | None \<Rightarrow> if k \<in> set names then None else map_of r k)"
proof -
  have r: "smap_ok r" and d: "distinct (map fst m)"
    using assms by (auto simp: node_map_ok_def smap_ok_distinct)
  show ?thesis
    unfolding put_all_def
    using smap.look_fold_put[OF smap.fold_erase_ok[OF r] d, where f = "\<lambda>x. x"]
    by (simp add: smap.look_fold_erase[OF r] split: option.split)
qed

lemma node_map_ok_erase [inv_intros]: "node_map_ok r \<Longrightarrow> node_map_ok (smap_erase k r)"
  by (auto simp: node_map_ok_def smap_ok_erase) (auto simp: smap_erase_def)

lemma put_all_ok [inv_intros]:
  assumes "node_map_ok m" "node_map_ok r"
  shows "node_map_ok (put_all m names r)"
proof -
  have er: "node_map_ok (fold smap_erase names r)"
    using assms(2) by (induction names arbitrary: r) (auto intro: node_map_ok_erase)
  have "\<forall>(k, hs) \<in> set es. sset_ok hs \<and> hs \<noteq> [] \<Longrightarrow> node_map_ok q \<Longrightarrow>
    node_map_ok (fold (\<lambda>(k, hs). smap_put k hs) es q)" for es q
    by (induction es arbitrary: q) (auto intro: node_map_ok_put)
  from this[OF _ er] assms(1) show ?thesis
    unfolding put_all_def by (auto simp: node_map_ok_def)
qed

lemma apply_node_list_Cons:
  "apply_node_list i (m # ms) reg names =
     apply_node_list (Suc i) ms (reg[i := put_all m names (reg ! i)]) (fold sset_insert (map fst m) names)"
  by (simp add: put_all_def)

definition turned :: "node_map list \<Rightarrow> string list \<Rightarrow> nat \<Rightarrow> node_map \<Rightarrow> string \<Rightarrow> HostPairT list option" where
  "turned ms names t r k =
     (case map_of (ms ! t) k of Some hs \<Rightarrow> Some hs
      | None \<Rightarrow> if k \<in> set names \<or> (\<exists>j<t. k \<in> fst ` set (ms ! j)) then None else map_of r k)"

lemma apply_node_list_spec:
  assumes "i + length ms \<le> length reg" "\<forall>m \<in> set ms \<union> set reg. node_map_ok m"
    "apply_node_list i ms reg names = (reg', names')"
  shows "length reg' = length reg \<and> (\<forall>m \<in> set reg'. node_map_ok m) \<and>
    set names' = set names \<union> (\<Union>m \<in> set ms. fst ` set m) \<and>
    (\<forall>t<length reg. \<forall>k. map_of (reg' ! t) k =
       (if i \<le> t \<and> t < i + length ms then turned ms names (t - i) (reg ! t) k else map_of (reg ! t) k))"
  using assms
proof (induction ms arbitrary: i reg names)
  case (Cons m ms)
  let ?reg = "reg[i := put_all m names (reg ! i)]" and ?names = "fold sset_insert (map fst m) names"
  have i: "i < length reg" using Cons.prems(1) by simp
  have mr: "node_map_ok m" "node_map_ok (reg ! i)" using Cons.prems(2) nth_mem[OF i] by auto
  note pm = put_all_ok[OF mr, of names]
  have names: "set ?names = set names \<union> fst ` set m" by (auto simp: set_fold_sset_insert)
  have look: "map_of (put_all m names (reg ! i)) k = turned (m # ms) names 0 (reg ! i) k" for k
    by (simp add: put_all_look[OF mr] turned_def)
  have step: "turned ms ?names (t - Suc i) (reg ! t) k = turned (m # ms) names (t - i) (reg ! t) k"
    if "Suc i \<le> t" for t k
  proof -
    define d where "d = t - Suc i"
    have d: "t - i = Suc d" "t - Suc i = d" using that by (simp_all add: d_def)
    have "(\<exists>j<Suc d. k \<in> fst ` set ((m # ms) ! j)) \<longleftrightarrow>
          k \<in> fst ` set m \<or> (\<exists>j<d. k \<in> fst ` set (ms ! j))"
      by (simp add: Ex_less_Suc2)
    then show ?thesis unfolding d turned_def names by (auto split: option.split)
  qed
  have ok': "\<forall>x \<in> set ms \<union> set ?reg. node_map_ok x"
    using Cons.prems(2) pm by (auto dest!: set_update_subset_insert[THEN subsetD])
  have "Suc i + length ms \<le> length ?reg" using Cons.prems(1) by simp
  from Cons.IH[OF this ok' Cons.prems(3)[unfolded apply_node_list_Cons]]
  have IH: "length reg' = length reg" "\<forall>m \<in> set reg'. node_map_ok m"
    "set names' = set ?names \<union> (\<Union>m \<in> set ms. fst ` set m)"
    "\<And>t k. t < length reg \<Longrightarrow> map_of (reg' ! t) k =
       (if Suc i \<le> t \<and> t < Suc i + length ms then turned ms ?names (t - Suc i) (?reg ! t) k
        else map_of (?reg ! t) k)"
    by simp_all
  have "map_of (reg' ! t) k =
      (if i \<le> t \<and> t < i + length (m # ms) then turned (m # ms) names (t - i) (reg ! t) k
       else map_of (reg ! t) k)" if t: "t < length reg" for t k
  proof (cases "t = i")
    case True
    then show ?thesis using IH(4)[OF t] look i by simp
  next
    case False
    then show ?thesis using IH(4)[OF t] step[of t k] by simp
  qed
  with IH(1,2,3) names show ?case by auto
qed auto

lemma turned_owned: "k \<in> set names \<Longrightarrow> turned ms names t r k = map_of (ms ! t) k"
  by (simp add: turned_def split: option.split)

lemma turned_foreign:
  "k \<notin> set names \<Longrightarrow> \<forall>m \<in> set ms. k \<notin> fst ` set m \<Longrightarrow> t < length ms \<Longrightarrow>
     turned ms names t r k = map_of r k"
proof -
  assume a: "k \<notin> set names" "\<forall>m \<in> set ms. k \<notin> fst ` set m" "t < length ms"
  then have "map_of (ms ! t) k = None" by (simp add: map_of_eq_None_iff)
  moreover have "\<not> (\<exists>j<t. k \<in> fst ` set (ms ! j))"
    using a by (meson less_trans nth_mem)
  ultimately show ?thesis using a(1) unfolding turned_def by auto
qed

section \<open>Runs of all watchers\<close>

text \<open>The answer a turn takes into account; the previous one when the turn changed nothing.\<close>

definition turn_answer ::
  "boost_lib \<Rightarrow> rapidjson \<Rightarrow> (string \<times> string \<Rightarrow> request_t \<Rightarrow> http_outcome) \<Rightarrow> string \<Rightarrow>
   service_mgr \<times> node_watch \<Rightarrow> node_map list \<Rightarrow> node_map list" where
  "turn_answer B J net name = (\<lambda>(sm, nw) prev.
     case longPollingRequest B (net (watch_addr sm (nw_balance nw)))
            (''/v1/health/service/'' @ name) '''' (nw_indexid nw) 120 of
       Poll_ok idx json_rsp \<Rightarrow>
         (case parseServiceInfoRsp B J json_rsp [] of (True, nl) \<Rightarrow> nl | (False, _) \<Rightarrow> prev)
     | _ \<Rightarrow> prev)"

lemma watch_turn_cases:
  assumes "watchServiceNodeChange_turn B J net name (sm, nw) = Some (sm', nw')"
  obtains (same) "reg_service_host_info sm' = reg_service_host_info sm"
      "nw_last_names nw' = nw_last_names nw" "\<forall>prev. turn_answer B J net name (sm, nw) prev = prev"
  | (new) nl where "node_list_ok nl" "\<forall>prev. turn_answer B J net name (sm, nw) prev = nl"
      "apply_node_list 0 nl (reg_service_host_info sm) (nw_last_names nw) =
         (reg_service_host_info sm', nw_last_names nw')"
proof (cases "longPollingRequest B (net (watch_addr sm (nw_balance nw)))
            (''/v1/health/service/'' @ name) '''' (nw_indexid nw) 120")
  case Poll_failed
  then show thesis using assms same
    by (auto simp: watchServiceNodeChange_turn_def turn_answer_def)
next
  case Poll_throw
  then show thesis using assms by (simp add: watchServiceNodeChange_turn_def)
next
  case (Poll_ok idx js)
  obtain ok nl where p: "parseServiceInfoRsp B J js [] = (ok, nl)" by fastforce
  show thesis
  proof (cases ok)
    case True
    obtain r n where a: "apply_node_list 0 nl (reg_service_host_info sm) (nw_last_names nw) = (r, n)"
      by fastforce
    show thesis
      using assms a p True Poll_ok parseServiceInfoRsp_ok[of B J js nl]
      by (intro new[of nl]) (auto simp: watchServiceNodeChange_turn_def turn_answer_def)
  next
    case False
    then show thesis using assms Poll_ok p same
      by (auto simp: watchServiceNodeChange_turn_def turn_answer_def)
  qed
qed

text \<open>A run: any interleaving of turns of the watchers of any services, and of changes of the other
  fields.  \<open>K n\<close> are the table keys that answers about service \<open>n\<close> use; \<open>lat n\<close> is the latest
  answer about \<open>n\<close>.\<close>

inductive registry_run ::
  "boost_lib \<Rightarrow> rapidjson \<Rightarrow> (string \<Rightarrow> string set) \<Rightarrow>
   service_mgr \<Rightarrow> (string \<Rightarrow> node_watch) \<Rightarrow> (string \<Rightarrow> node_map list) \<Rightarrow> bool"
  for B J K where
  init: "reg_service_host_info sm = replicate 4 [] \<Longrightarrow>
    registry_run B J K sm (\<lambda>_. node_watch_new) (\<lambda>_. replicate 4 [])"
| turn: "registry_run B J K sm ws lat \<Longrightarrow>
    watchServiceNodeChange_turn B J net n (sm, ws n) = Some (sm', nw') \<Longrightarrow>
    (\<forall>m \<in> set (turn_answer B J net n (sm, ws n) (lat n)). fst ` set m \<subseteq> K n) \<Longrightarrow>
    registry_run B J K sm' (ws(n := nw'))
      (lat(n := turn_answer B J net n (sm, ws n) (lat n)))"
| other: "registry_run B J K sm ws lat \<Longrightarrow>
    reg_service_host_info sm' = reg_service_host_info sm \<Longrightarrow> registry_run B J K sm' ws lat"

definition registry_inv ::
  "(string \<Rightarrow> string set) \<Rightarrow> service_mgr \<Rightarrow> (string \<Rightarrow> node_watch) \<Rightarrow> (string \<Rightarrow> node_map list) \<Rightarrow> bool" where
  "registry_inv K sm ws lat \<longleftrightarrow>
     node_list_ok (reg_service_host_info sm) \<and>
     (\<forall>n. node_list_ok (lat n)) \<and>
     (\<forall>n. \<forall>m \<in> set (lat n). fst ` set m \<subseteq> set (nw_last_names (ws n))) \<and>
     (\<forall>n. set (nw_last_names (ws n)) \<subseteq> K n) \<and>
     (\<forall>t<4. \<forall>n. \<forall>k \<in> K n. map_of (reg_service_host_info sm ! t) k = map_of (lat n ! t) k) \<and>
     (\<forall>t<4. \<forall>k. (\<forall>n. k \<notin> K n) \<longrightarrow> map_of (reg_service_host_info sm ! t) k = None)"

lemma registry_inv_turn:
  assumes disj: "\<And>n n'. n \<noteq> n' \<Longrightarrow> K n \<inter> K n' = {}"
    and inv: "registry_inv K sm ws lat"
    and turn: "watchServiceNodeChange_turn B J net n (sm, ws n) = Some (sm', nw')"
    and keys: "\<forall>m \<in> set (turn_answer B J net n (sm, ws n) (lat n)). fst ` set m \<subseteq> K n"
  shows "registry_inv K sm' (ws(n := nw')) (lat(n := turn_answer B J net n (sm, ws n) (lat n)))"
  using turn
proof (cases rule: watch_turn_cases)
  case same
  then show ?thesis using inv by (simp add: registry_inv_def)
next
  case (new nl)
  let ?reg = "reg_service_host_info sm" and ?reg' = "reg_service_host_info sm'"
  let ?names = "nw_last_names (ws n)"
  have ok: "node_list_ok ?reg" "length ?reg = 4" "length nl = 4"
    using inv new(1) by (auto simp: registry_inv_def node_list_ok_def)
  have K: "\<forall>m \<in> set nl. fst ` set m \<subseteq> K n" using keys new(2) by simp
  have names: "set ?names \<subseteq> K n" using inv by (auto simp: registry_inv_def)
  have "\<forall>m \<in> set nl \<union> set ?reg. node_map_ok m"
    using ok(1) new(1) by (auto simp: node_list_ok_def)
  from apply_node_list_spec[OF _ this new(3)] ok(2,3)
  have r: "length ?reg' = 4" "\<forall>m \<in> set ?reg'. node_map_ok m"
    "set (nw_last_names nw') = set ?names \<union> (\<Union>m \<in> set nl. fst ` set m)"
    "\<And>t k. t < 4 \<Longrightarrow> map_of (?reg' ! t) k = turned nl ?names t (?reg ! t) k"
    by simp_all
  have own: "map_of (?reg' ! t) k = map_of (nl ! t) k" if "t < 4" "k \<in> K n" for t k
  proof (cases "map_of (nl ! t) k")
    case (Some hs)
    then show ?thesis using r(4)[OF that(1)] by (simp add: turned_def)
  next
    case None
    have old: "map_of (?reg ! t) k = map_of (lat n ! t) k"
      using inv that by (simp add: registry_inv_def)
    have "lat n ! t \<in> set (lat n)"
      using inv that(1) by (intro nth_mem) (simp add: registry_inv_def node_list_ok_def)
    then have "fst ` set (lat n ! t) \<subseteq> set ?names" using inv unfolding registry_inv_def by blast
    then have "map_of (lat n ! t) k = None" if "k \<notin> set ?names"
      using that by (auto simp: map_of_eq_None_iff)
    with None old r(4)[OF that(1), of k] show ?thesis by (auto simp: turned_def)
  qed
  have foreign: "map_of (?reg' ! t) k = map_of (?reg ! t) k" if "t < 4" "k \<notin> K n" for t k
  proof -
    have "k \<notin> set ?names" "\<forall>m \<in> set nl. k \<notin> fst ` set m" using that(2) K names by blast+
    then show ?thesis using turned_foreign r(4)[OF that(1), of k] that(1) ok(3) by simp
  qed
  have last': "set (nw_last_names nw') \<subseteq> K n" "\<forall>m \<in> set nl. fst ` set m \<subseteq> set (nw_last_names nw')"
    using r(3) K names by blast+
  have lat': "lat(n := turn_answer B J net n (sm, ws n) (lat n)) = lat(n := nl)" using new(2) by simp
  have disjD: "k \<in> K n' \<Longrightarrow> n' \<noteq> n \<Longrightarrow> k \<notin> K n" for k n' using disj[of n' n] by auto
  show ?thesis
    unfolding lat' registry_inv_def
    using inv r(1,2) last' own foreign disjD new(1)
    by (auto simp: registry_inv_def node_list_ok_def)
qed

lemma registry_run_inv:
  assumes "registry_run B J K sm ws lat" "\<And>n n'. n \<noteq> n' \<Longrightarrow> K n \<inter> K n' = {}"
  shows "registry_inv K sm ws lat"
  using assms(1)
proof induction
  case (init sm)
  then show ?case by (auto simp: registry_inv_def node_watch_new_def)
next
  case (turn sm ws lat net n sm' nw')
  show ?case by (rule registry_inv_turn[OF assms(2) turn.IH turn.hyps(2,3)])
next
  case (other sm ws lat sm')
  then show ?case by (simp add: registry_inv_def)
qed

section \<open>Properties of the registry\<close>

text \<open>A well-formed entry of a health answer.\<close>

definition consul_entry :: "string \<Rightarrow> int \<Rightarrow> string \<Rightarrow> string list \<Rightarrow> string list \<Rightarrow> json" where
  "consul_entry host port name tags sts = JObject
     [(''Node'', JObject [(''Node'', JString ''n''), (''Address'', JString host)]),
      (''Service'', JObject [(''Service'', JString name), (''Tags'', JArray (map JString tags)),
                             (''Port'', JNum port)]),
      (''Checks'', JArray (map (\<lambda>s. JObject [(''CheckID'', JString ''c''), (''Status'', JString s)]) sts))]"

definition protocol_of :: "string \<Rightarrow> ServiceType option" where
  "protocol_of tag =
     (if tag = ''http'' then Some HTTP_Service else if tag = ''raw'' then Some Raw_Service
      else if tag = ''rpc'' then Some RPC_Service else None)"

text \<open>The last tag that names a protocol decides the type; the other tags are the clusters.\<close>

definition entry_type :: "string list \<Rightarrow> ServiceType" where
  "entry_type tags =
     (case filter (\<lambda>t. protocol_of t \<noteq> None) tags of
        [] \<Rightarrow> Custom_Service | ps \<Rightarrow> the (protocol_of (last ps)))"

definition entry_clusters :: "string \<Rightarrow> string list \<Rightarrow> string list" where
  "entry_clusters name tags =
     (let cs = filter (\<lambda>t. protocol_of t = None) tags in
      if name \<noteq> '''' \<and> cs = [] then [''dev''] else cs)"

lemma fold_parse_tag_spec:
  assumes J: "rj_ok J" and low: "lows = map (\<lambda>t. b_to_lower B (c_str t)) tags"
  shows "fold (parse_tag B J) (map JString tags) nv =
    nv\<lparr>nv_type := (case filter (\<lambda>t. protocol_of t \<noteq> None) lows of
                     [] \<Rightarrow> nv_type nv | ps \<Rightarrow> the (protocol_of (last ps))),
       nv_tags := nv_tags nv @ filter (\<lambda>t. protocol_of t = None) lows\<rparr>"
  using low
proof (induction tags arbitrary: nv lows)
  case (Cons tag tags)
  let ?t = "b_to_lower B (c_str tag)" and ?ls = "map (\<lambda>t. b_to_lower B (c_str t)) tags"
  have step: "parse_tag B J (JString tag) nv =
    (case protocol_of ?t of Some ty \<Rightarrow> nv\<lparr>nv_type := ty\<rparr> | None \<Rightarrow> nv\<lparr>nv_tags := nv_tags nv @ [?t]\<rparr>)"
    using J by (simp add: parse_tag_def rj_ok_def protocol_of_def Let_def http_service_str_def
        raw_service_str_def rpc_service_str_def)
  show ?case
    using Cons.IH[OF refl, of "parse_tag B J (JString tag) nv"] Cons.prems
    by (cases "protocol_of ?t") (auto simp: step split: list.split)
qed simp

lemma parse_node_entry:
  assumes J: "rj_ok J" and B: "boost_ok B"
    and low: "lows = map (\<lambda>t. map ascii_lower (c_str t)) tags"
  shows "parse_node B J (consul_entry host port name tags sts) =
    \<lparr>nv_host = c_str host, nv_port = dec_of_int port, nv_service_name = c_str name,
     nv_type = entry_type lows, nv_tags = entry_clusters (c_str name) lows,
     nv_passing = list_all (\<lambda>s. c_str s = ''passing'') sts, nv_ret = True\<rparr>"
proof -
  have lits: "c_str ''Node'' = ''Node''" "c_str ''Address'' = ''Address''" "c_str ''Service'' = ''Service''"
    "c_str ''Tags'' = ''Tags''" "c_str ''Port'' = ''Port''" "c_str ''Checks'' = ''Checks''"
    "c_str ''Status'' = ''Status''" "c_str ''CheckID'' = ''CheckID''"
    by (simp_all add: c_str_id)
  have chk: "checks_passing J (map (\<lambda>s. JObject [(''CheckID'', JString ''c''), (''Status'', JString s)]) sts)
    = list_all (\<lambda>s. c_str s = ''passing'') sts"
    using J by (auto simp: checks_passing_def status_ok_def rj_ok_def lits list_all_iff)
  have low': "lows = map (\<lambda>t. b_to_lower B (c_str t)) tags"
    using low B by (simp add: boost_okD)
  have mem: "rj_members J (JObject ms) = ms" for ms using J by (simp add: rj_ok_def)
  have str: "rj_get_string J (JString s) = s" for s using J by (simp add: rj_ok_def)
  have num: "rj_get_int J (JNum i) = i" for i using J by (simp add: rj_ok_def)
  show ?thesis
    using B
    by (simp add: parse_node_def consul_entry_def mem str num lits parseServiceNodeInfo_def
        parseServiceCheckInfo_iff checks_value_ok_def chk parseServiceInfo_def Let_def
        parse_service_member_def fold_parse_tag_spec[OF J low'] boost_okD(5) node_vars_new_def
        entry_type_def entry_clusters_def dev_cluster_str_def split: list.split)
qed

text \<open>\<^bold>\<open>C7\<close>.  A health answer that parses to an array gives a table for the four service types in
  which a host is listed under a key exactly when some node of the answer offers it: the node's
  checks pass, its parts parse, it has that type, and the key is its service name and one of its
  cluster tags.  Such a node has a \<open>Checks\<close> member all of whose statuses are \<open>passing\<close>.\<close>

theorem health_answer_exact:
  assumes "doc_parse J s = Some (JArray nodes)"
  shows "\<exists>nl. parseServiceInfoRsp B J s [] = (True, nl) \<and> length nl = 4 \<and>
    (\<forall>t<4. \<forall>k p. p \<in> host_set (nl ! t) k \<longleftrightarrow>
       (\<exists>node \<in> set nodes. node_offers (parse_node B J node) t k p \<and>
          (\<exists>(m, v) \<in> set (rj_members J node). c_str m = ''Checks'' \<and> checks_value_ok J v)))"
proof -
  obtain nl where nl: "parseServiceInfoRsp B J s [] = (True, nl)" "node_list_ok nl"
    "\<forall>t<4. \<forall>k. host_set (nl ! t) k = {p. \<exists>node \<in> set nodes. node_offers (parse_node B J node) t k p}"
    using parseServiceInfoRsp_spec[OF assms] by blast
  have "node_offers (parse_node B J node) t k p \<Longrightarrow>
      \<exists>(m, v) \<in> set (rj_members J node). c_str m = ''Checks'' \<and> checks_value_ok J v" for node t k p
    by (rule parse_node_passing[of B]) (simp add: node_offers_def)
  with nl show ?thesis by (intro exI[of _ nl]) (auto simp: node_list_ok_def)
qed

definition wit_nodes :: "json list" where
  "wit_nodes = [consul_entry ''10.0.0.2'' 8080 ''svc'' [''HTTP'', ''prod''] [''passing'', ''passing''],
                consul_entry ''10.0.0.1'' 8080 ''svc'' [''prod'', ''http''] [''passing''],
                consul_entry ''10.0.0.3'' 8080 ''svc'' [''prod'', ''http''] [''passing'', ''critical'']]"

definition wit_json :: rapidjson where
  "wit_json = ref_json (\<lambda>s. if s = ''A'' then Some (JArray wit_nodes)
     else if s = ''B'' then Some (JObject [(''svc'', JArray []), (''web'', JArray [])]) else None)"

theorem health_answer_exact_witness:
  "\<exists>nl. parseServiceInfoRsp ref_boost wit_json ''A'' [] = (True, nl) \<and> length nl = 4 \<and>
    (\<forall>t<4. \<forall>k p. p \<in> host_set (nl ! t) k \<longleftrightarrow>
       (\<exists>node \<in> set wit_nodes. node_offers (parse_node ref_boost wit_json node) t k p \<and>
          (\<exists>(m, v) \<in> set (rj_members wit_json node). c_str m = ''Checks'' \<and> checks_value_ok wit_json v)))"
  by (rule health_answer_exact) (simp add: doc_parse_def wit_json_def ref_json_def c_str_id)

text \<open>\<^bold>\<open>C14\<close>.  What a node means that has the members Consul documents, in its order (\<open>consul_entry\<close>): host, port and name are taken over, tags are
  compared in lower case, the last protocol tag (\<open>http\<close>, \<open>raw\<close>, \<open>rpc\<close>) decides the type and
  \<open>Custom_Service\<close> is the default, the remaining tags are the clusters, a named service without any
  is in cluster \<open>dev\<close>, and the node counts as passing when all its statuses are.\<close>

theorem node_entry_meaning:
  assumes "rj_ok J" "boost_ok B"
  shows "parse_node B J (consul_entry host port name tags sts) =
    (let lows = map (\<lambda>t. map ascii_lower (c_str t)) tags in
     \<lparr>nv_host = c_str host, nv_port = dec_of_int port, nv_service_name = c_str name,
      nv_type = entry_type lows, nv_tags = entry_clusters (c_str name) lows,
      nv_passing = list_all (\<lambda>s. c_str s = ''passing'') sts, nv_ret = True\<rparr>)"
  using parse_node_entry[OF assms] by (simp add: Let_def)

theorem node_entry_meaning_witness:
  "rj_ok wit_json \<and> boost_ok ref_boost \<and>
   parse_node ref_boost wit_json (consul_entry ''10.0.0.2'' 8080 ''svc'' [''HTTP'', ''prod''] [''passing'']) =
     \<lparr>nv_host = ''10.0.0.2'', nv_port = ''8080'', nv_service_name = ''svc'', nv_type = HTTP_Service,
      nv_tags = [''prod''], nv_passing = True, nv_ret = True\<rparr>"
proof -
  have "rj_ok wit_json" by (simp add: wit_json_def)
  moreover have "(let lows = map (\<lambda>t. map ascii_lower (c_str t)) [''HTTP'', ''prod''] in
     \<lparr>nv_host = c_str ''10.0.0.2'', nv_port = dec_of_int 8080, nv_service_name = c_str ''svc'',
      nv_type = entry_type lows, nv_tags = entry_clusters (c_str ''svc'') lows,
      nv_passing = list_all (\<lambda>s. c_str s = ''passing'') [''passing''], nv_ret = True\<rparr>) =
     \<lparr>nv_host = ''10.0.0.2'', nv_port = ''8080'', nv_service_name = ''svc'', nv_type = HTTP_Service,
      nv_tags = [''prod''], nv_passing = True, nv_ret = True\<rparr>"
    by code_simp
  ultimately show ?thesis using node_entry_meaning[of wit_json ref_boost] by simp
qed

text \<open>\<^bold>\<open>C1\<close>.  In every run of the watchers, with turns interleaved in any order, a lookup answers from
  the latest health answer about the service that owns the key, round robin over its hosts: hosts
  that an answer no longer lists are never returned, and other services do not interfere.  The keys
  of different services are assumed not to coincide.\<close>

theorem lookup_serves_latest_answer:
  assumes "registry_run B J K sm ws lat" "\<And>n n'. n \<noteq> n' \<Longrightarrow> K n \<inter> K n' = {}"
    "name @ connector @ curClusterName sm \<in> K n" "0 \<le> type" "type < 4"
  shows "get_service_address sm i name type =
    (case map_of (lat n ! nat type) (name @ connector @ curClusterName sm) of
       None \<Rightarrow> None | Some hosts \<Rightarrow> Some (hosts ! (unat i mod length hosts)))"
proof -
  let ?t = "nat type" and ?k = "name @ connector @ curClusterName sm"
  have inv: "registry_inv K sm ws lat" using registry_run_inv assms(1,2) by blast
  have t: "?t < 4" "?t < length (reg_service_host_info sm)" "?t < length (lat n)"
    using inv assms(4,5) by (auto simp: registry_inv_def node_list_ok_def)
  have eq: "map_of (reg_service_host_info sm ! ?t) ?k = map_of (lat n ! ?t) ?k"
    using inv assms(3) t(1) by (simp add: registry_inv_def)
  have "node_map_ok (lat n ! ?t)"
    using inv nth_mem[OF t(3)] unfolding registry_inv_def node_list_ok_def by blast
  then have "map_of (lat n ! ?t) ?k = Some hs \<Longrightarrow> hs \<noteq> []" for hs
    using node_map_ok_hosts by blast
  with eq t(2) assms(4) show ?thesis
    by (auto simp: get_service_address_def split: option.split)
qed

definition wit_sm :: service_mgr where
  "wit_sm = (fst (FibpServiceMgr_new ref_boost ''127.0.0.1:8500''))\<lparr>curClusterName := ''prod''\<rparr>"

definition wit_net :: "string \<times> string \<Rightarrow> request_t \<Rightarrow> http_outcome" where
  "wit_net addr rq = Rsp_ok (response_new\<lparr>rp_headers := [(''X-Consul-Index'', ''7'')], rp_body := ''A''\<rparr>)"

definition wit_sm1 :: service_mgr where
  "wit_sm1 = wit_sm\<lparr>reg_service_host_info :=
     [[(''svc-prod'', [(''10.0.0.1'', ''8080''), (''10.0.0.2'', ''8080'')])], [], [], []]\<rparr>"

definition wit_nw1 :: node_watch where
  "wit_nw1 = \<lparr>nw_indexid = 7, nw_balance = 0, nw_last_names = [''svc-prod'']\<rparr>"

lemma wit_turn:
  "watchServiceNodeChange_turn ref_boost wit_json wit_net ''svc'' (wit_sm, node_watch_new) =
     Some (wit_sm1, wit_nw1)"
  by code_simp

lemma wit_answer:
  "turn_answer ref_boost wit_json wit_net ''svc'' (wit_sm, node_watch_new) (replicate 4 []) =
     [[(''svc-prod'', [(''10.0.0.1'', ''8080''), (''10.0.0.2'', ''8080'')])], [], [], []]"
  by code_simp

theorem lookup_serves_latest_answer_witness:
  "get_service_address wit_sm1 1 ''svc'' 0 = Some (''10.0.0.2'', ''8080'')"
proof -
  let ?K = "\<lambda>n. if n = ''svc'' then {''svc-prod''} else {}"
  have "registry_run ref_boost wit_json ?K wit_sm (\<lambda>_. node_watch_new) (\<lambda>_. replicate 4 [])"
    by (rule registry_run.init) code_simp
  from registry_run.turn[OF this wit_turn]
  have run: "registry_run ref_boost wit_json ?K wit_sm1 ((\<lambda>_. node_watch_new)(''svc'' := wit_nw1))
      ((\<lambda>_. replicate 4 [])(''svc'' :=
        [[(''svc-prod'', [(''10.0.0.1'', ''8080''), (''10.0.0.2'', ''8080'')])], [], [], []]))"
    by (simp add: wit_answer)
  have k: "connector @ curClusterName wit_sm1 = ''-prod''"
    by code_simp
  show ?thesis
    by (subst lookup_serves_latest_answer[OF run, where n = "''svc''"])
      (auto simp: k split: if_splits)
qed

text \<open>\<^bold>\<open>C15\<close>.  Load balancing is round robin: for a registered service, as many consecutive balance
  indices as it has hosts return each host of the list exactly once, starting where the index
  points, as long as the index does not wrap around.\<close>

theorem round_robin_fair:
  assumes "0 \<le> type" "nat type < length (reg_service_host_info sm)"
    "map_of (reg_service_host_info sm ! nat type) (name @ connector @ curClusterName sm) = Some hosts"
    "hosts \<noteq> []" "unat b + length hosts \<le> 2 ^ 64"
  shows "map (\<lambda>j. get_service_address sm (b + of_nat j) name type) [0..<length hosts] =
    map Some (rotate (unat b) hosts)"
proof (rule nth_equalityI)
  fix j assume "j < length (map (\<lambda>j. get_service_address sm (b + of_nat j) name type) [0..<length hosts])"
  then have j: "j < length hosts" by simp
  have "unat (of_nat j :: 64 word) = j" using j assms(5) by (simp add: unat_of_nat)
  moreover have "unat b + j < 2 ^ 64" using j assms(5) by linarith
  ultimately have "unat (b + of_nat j) = unat b + j" by (simp add: unat_word_ariths)
  then show "map (\<lambda>j. get_service_address sm (b + of_nat j) name type) [0..<length hosts] ! j =
      map Some (rotate (unat b) hosts) ! j"
    using j assms(1-4) by (simp add: get_service_address_def nth_rotate)
qed simp

theorem round_robin_fair_witness:
  "map (\<lambda>j. get_service_address wit_sm1 (3 + of_nat j) ''svc'' 0) [0..<2] =
     [Some (''10.0.0.2'', ''8080''), Some (''10.0.0.1'', ''8080'')]"
proof -
  have look: "map_of (reg_service_host_info wit_sm1 ! nat 0) (''svc'' @ connector @ curClusterName wit_sm1) =
      Some [(''10.0.0.1'', ''8080''), (''10.0.0.2'', ''8080'')]"
    by code_simp
  have "nat 0 < length (reg_service_host_info wit_sm1)" by code_simp
  then have "map (\<lambda>j. get_service_address wit_sm1 (3 + of_nat j) ''svc'' 0)
      [0..<length [(''10.0.0.1'', ''8080''), (''10.0.0.2'', ''8080'')]] =
    map Some (rotate (unat (3 :: 64 word)) [(''10.0.0.1'', ''8080''), (''10.0.0.2'', ''8080'')])"
    by (intro round_robin_fair[OF _ _ look]) simp_all
  also have "\<dots> = [Some (''10.0.0.2'', ''8080''), Some (''10.0.0.1'', ''8080'')]"
    by code_simp
  finally show ?thesis by (simp add: numeral_2_eq_2)
qed

text \<open>The loop of the catalogue watcher over a sequence of answers, and the watchers it starts.\<close>

fun catalog_turns ::
  "boost_lib \<Rightarrow> rapidjson \<Rightarrow> (string \<times> string \<Rightarrow> request_t \<Rightarrow> http_outcome) list \<Rightarrow>
   service_mgr \<Rightarrow> svc_watch \<Rightarrow> (svc_watch \<times> string list) option" where
  "catalog_turns B J [] sm sw = Some (sw, [])"
| "catalog_turns B J (net # nets) sm sw =
     (case watchServiceChange_turn B J net sm sw of
        None \<Rightarrow> None
      | Some (sw1, st) \<Rightarrow>
          (case catalog_turns B J nets sm sw1 of
             None \<Rightarrow> None | Some (sw2, st') \<Rightarrow> Some (sw2, st @ st')))"

lemma spawn_watchers_spec:
  "spawn_watchers ss w = (w', st) \<Longrightarrow>
     set w' = set w \<union> set ss \<and> distinct st \<and> set st = set ss - set w"
proof (induction ss arbitrary: w w' st)
  case (Cons s ss)
  show ?case
  proof (cases "s \<in> set w")
    case True
    then show ?thesis using Cons by auto
  next
    case False
    obtain w1 st1 where r: "spawn_watchers ss (sset_insert s w) = (w1, st1)" by fastforce
    from Cons.IH[OF r] Cons.prems r False show ?thesis
      by (auto simp: set_sset_insert)
  qed
qed simp

lemma watchServiceChange_turn_spec:
  "watchServiceChange_turn B J net sm sw = Some (sw', st) \<Longrightarrow>
     set (sw_watching sw') = set (sw_watching sw) \<union> set st \<and> distinct st \<and>
     set st \<inter> set (sw_watching sw) = {}"
  by (auto simp: watchServiceChange_turn_def split: poll_result.splits prod.splits
      dest: spawn_watchers_spec)

lemma catalog_turns_spec:
  "catalog_turns B J nets sm sw = Some (sw', st) \<Longrightarrow>
     distinct st \<and> set st \<inter> set (sw_watching sw) = {} \<and>
     set (sw_watching sw') = set (sw_watching sw) \<union> set st"
proof (induction nets arbitrary: sw st)
  case (Cons net nets)
  then obtain sw1 st1 st2 where t: "watchServiceChange_turn B J net sm sw = Some (sw1, st1)"
    "catalog_turns B J nets sm sw1 = Some (sw', st2)" "st = st1 @ st2"
    by (auto split: option.splits)
  from watchServiceChange_turn_spec[OF t(1)] Cons.IH[OF t(2)] t(3) show ?case by auto
qed simp

text \<open>\<^bold>\<open>C16\<close>.  However often the catalogue is polled and whatever the answers are, at most one watcher
  fiber is started per service name, and the watched names are exactly the ones started.\<close>

theorem one_watcher_per_service:
  assumes "catalog_turns B J nets sm \<lparr>sw_watching = [], sw_indexid = 0, sw_balance = 0\<rparr> = Some (sw', started)"
  shows "distinct started \<and> set (sw_watching sw') = set started"
  using catalog_turns_spec[OF assms] by simp

definition wit_cat_net :: "string \<times> string \<Rightarrow> request_t \<Rightarrow> http_outcome" where
  "wit_cat_net addr rq = Rsp_ok (response_new\<lparr>rp_headers := [(''X-Consul-Index'', ''8'')], rp_body := ''B''\<rparr>)"

theorem one_watcher_per_service_witness:
  "distinct [''svc'', ''web''] \<and>
   set (sw_watching \<lparr>sw_watching = [''svc'', ''web''], sw_indexid = 8, sw_balance = 0\<rparr>) = set [''svc'', ''web'']"
proof (rule one_watcher_per_service)
  show "catalog_turns ref_boost wit_json [wit_cat_net, wit_cat_net] wit_sm
      \<lparr>sw_watching = [], sw_indexid = 0, sw_balance = 0\<rparr> =
    Some (\<lparr>sw_watching = [''svc'', ''web''], sw_indexid = 8, sw_balance = 0\<rparr>, [''svc'', ''web''])"
    by code_simp
qed

text \<open> A cluster answer that has a \<open>Name\<close> member switches the registry to that cluster unless the
  name is empty, independently of what the parser returns for \<open>GetString\<close> on the enclosing
  object, and touches no other field.\<close>

theorem cluster_answer_switches:
  assumes "client (request_new\<lparr>rq_method := method_code GET, rq_path := ''/api/local/get-cluster'',
      rq_keep_alive := True, rq_query := ''index='' @ indexid @ ''&wait=600s''\<rparr>) = Rsp_ok rsp"
    "doc_parse J (rp_body rsp) = Some doc" "is_object doc"
    "(k, v) \<in> set (rj_members J doc)" "c_str k = ''Name''"
  shows "\<exists>v'. (\<exists>k'. (k', v') \<in> set (rj_members J doc) \<and> c_str k' = ''Name'') \<and>
    fst (watchCurrentClusterName_turn J client (sm, indexid)) =
      (sm\<lparr>curClusterName := (if get_str J v' = '''' then curClusterName sm else get_str J v')\<rparr>,
       if find_header (rp_headers rsp) ''X-Consul-Index'' = '''' then ''0''
       else find_header (rp_headers rsp) ''X-Consul-Index'')"
proof -
  have "(k, v) \<in> set ms \<Longrightarrow> \<exists>v'. (\<exists>k'. (k', v') \<in> set ms \<and> c_str k' = ''Name'') \<and>
      find_name J ms d = get_str J v'" for ms d
  proof (induction ms)
    case (Cons m ms)
    then show ?case using assms(5) by (cases m) auto
  qed simp
  from this[OF assms(4)] obtain v' where v':
    "\<exists>k'. (k', v') \<in> set (rj_members J doc) \<and> c_str k' = ''Name''"
    "find_name J (rj_members J doc) (get_str J doc) = get_str J v'" by blast
  show ?thesis
    by (rule exI[of _ v'], intro conjI)
      (use v' assms(1-3) in \<open>auto simp: watchCurrentClusterName_turn_def changeCluster_def Let_def\<close>)
qed

definition wit_cluster_json :: rapidjson where
  "wit_cluster_json = ref_json (\<lambda>s. Some (JObject [(''ID'', JNum 1), (''Name'', JString ''blue'')]))"

theorem cluster_answer_switches_witness:
  "\<exists>v'. (\<exists>k'. (k', v') \<in> set (rj_members wit_cluster_json (JObject [(''ID'', JNum 1), (''Name'', JString ''blue'')])) \<and>
      c_str k' = ''Name'') \<and>
    fst (watchCurrentClusterName_turn wit_cluster_json (\<lambda>_. Rsp_ok response_new) (wit_sm, ''5'')) =
      (wit_sm\<lparr>curClusterName := (if get_str wit_cluster_json v' = '''' then curClusterName wit_sm
                              else get_str wit_cluster_json v')\<rparr>,
       if find_header (rp_headers response_new) ''X-Consul-Index'' = '''' then ''0''
       else find_header (rp_headers response_new) ''X-Consul-Index'')"
  by (rule cluster_answer_switches[where k = "''Name''" and v = "JString ''blue''"])
    (simp_all add: doc_parse_def wit_cluster_json_def ref_json_def c_str_id)

end
