(* ===== verification/Http_Wire.thy ===== *)
theory Http_Wire
  imports Http_Types
begin

text \<open>
  How messages are written to the wire: the two stream operators of
  \<open>fiber-server/HttpProtocolHandler.cpp\<close>.  \<open>None\<close> stands for undefined behaviour: a method outside
  the table of names, and a body whose length does not fit the ten-byte buffer.
\<close>

definition CRLF :: string where "CRLF = [CHR 0x0D, CHR 0x0A]"

definition SERVER_NAME :: string where "SERVER_NAME = ''FibpServer 1.0''"

definition METHOD_STRING :: "string list" where
  "METHOD_STRING = [''DELETE'', ''GET'', ''HEAD'', ''POST'', ''PUT'']"

definition method_string :: "int \<Rightarrow> string option" where
  "method_string m = (if 0 \<le> m \<and> nat m < length METHOD_STRING then Some (METHOD_STRING ! nat m) else None)"

definition print_header :: "header_t \<Rightarrow> string" where
  "print_header h = fst h @ '': '' @ snd h @ CRLF"

text \<open>\<open>sprintf(buf, "%lu", n)\<close> into \<open>char buf[10]\<close>, the terminating NUL included.\<close>

definition sprintf_len :: "nat \<Rightarrow> string option" where
  "sprintf_len n = (if length (dec_of_nat n) + 1 \<le> 10 then Some (dec_of_nat n) else None)"

definition print_status_line :: "response_t \<Rightarrow> string" where
  "print_status_line rsp = ''HTTP/1.1 '' @ dec_of_int (rp_code rsp) @ '' '' @
     (if rp_status_message rsp \<noteq> '''' then rp_status_message rsp else '' '' @ CRLF)"

definition has_header :: "boost_lib \<Rightarrow> string \<Rightarrow> headers_t \<Rightarrow> bool" where
  "has_header B name hs = list_ex (\<lambda>h. b_iequals B (fst h) name) hs"

definition print_response :: "boost_lib \<Rightarrow> response_t \<Rightarrow> string option" where
  "print_response B rsp =
     (case sprintf_len (length (rp_body rsp)) of
        None \<Rightarrow> None
      | Some buf \<Rightarrow>
          Some (print_status_line rsp @
            concat (map print_header (rp_headers rsp)) @
            (if has_header B ''server'' (rp_headers rsp) then ''''
             else ''Server: '' @ SERVER_NAME @ CRLF) @
            (if list_ex (\<lambda>h. \<not> b_iequals B (fst h) ''server'' \<and> b_iequals B (fst h) ''content-length'')
                  (rp_headers rsp)
             then '''' else ''Content-Length: '' @ buf @ CRLF) @
            CRLF @ rp_body rsp))"

definition print_request_line :: "request_t \<Rightarrow> string \<Rightarrow> string" where
  "print_request_line req meth = meth @ '' '' @ rq_path req @
     (if rq_query req \<noteq> '''' then ''?'' @ rq_query req else '''') @
     '' HTTP/'' @ dec_of_int (rq_http_major req) @ ''.'' @ dec_of_int (rq_http_minor req) @ CRLF"

definition print_request :: "request_t \<Rightarrow> string option" where
  "print_request req =
     (case method_string (rq_method req) of
        None \<Rightarrow> None
      | Some meth \<Rightarrow>
          Some (print_request_line req meth @
            concat (map print_header (rq_headers req)) @
            ''Content-Length: '' @ dec_of_nat (length (rq_body req)) @ CRLF @
            (if rq_keep_alive req then ''Connection: Keep-Alive'' @ CRLF
             else ''Connection: close'' @ CRLF) @
            CRLF @ rq_body req))"

section \<open>Properties\<close>

lemma method_code_string:
  "method_string (method_code m) \<noteq> None"
  by (cases m) (simp_all add: method_string_def METHOD_STRING_def)

lemma dec_of_nat_length_iff: "0 < k \<Longrightarrow> length (dec_of_nat n) \<le> k \<longleftrightarrow> n < 10 ^ k"
proof
  assume k: "0 < k" and "length (dec_of_nat n) \<le> k"
  have "n < 10 ^ length (dec_of_nat n)"
  proof (induction n rule: dec_of_nat.induct)
    case (1 n)
    show ?case
    proof (cases "n < 10")
      case True
      then show ?thesis by (subst dec_of_nat.simps) simp
    next
      case False
      then have "n div 10 < 10 ^ length (dec_of_nat (n div 10))" using 1 by blast
      then have "n < 10 * 10 ^ length (dec_of_nat (n div 10))" by linarith
      with False show ?thesis by (subst dec_of_nat.simps) simp
    qed
  qed
  also have "\<dots> \<le> 10 ^ k" using \<open>length (dec_of_nat n) \<le> k\<close> by (simp add: power_increasing)
  finally show "n < 10 ^ k" .
qed (rule dec_of_nat_length)

text \<open>\<^bold>\<open>C27\<close>.  Writing a response is defined exactly for bodies shorter than \<open>10 ^ 9\<close> bytes: a longer
  one makes \<open>sprintf\<close> write past the ten-byte buffer of the length.\<close>

theorem response_buffer_bound:
  "print_response B rsp \<noteq> None \<longleftrightarrow> length (rp_body rsp) < 10 ^ 9"
  using dec_of_nat_length_iff[of 9 "length (rp_body rsp)"]
  by (auto simp: print_response_def sprintf_len_def split: option.split)

text \<open> A response with a non-empty status message is written without the line end after its
  status line, so whatever follows (here the \<open>Server\<close> line) becomes part of the reason phrase.\<close>

theorem status_message_swallows_line_end:
  assumes "rp_status_message rsp \<noteq> ''''" "rp_headers rsp = []" "length (rp_body rsp) < 10 ^ 9"
  shows "print_response B rsp =
    Some (''HTTP/1.1 '' @ dec_of_int (rp_code rsp) @ '' '' @ rp_status_message rsp @ ''Server: '' @ SERVER_NAME @ CRLF @
      ''Content-Length: '' @ dec_of_nat (length (rp_body rsp)) @ CRLF @ CRLF @ rp_body rsp)"
  using assms dec_of_nat_length_iff[of 9 "length (rp_body rsp)"]
  by (simp add: print_response_def sprintf_len_def print_status_line_def has_header_def)

theorem status_message_swallows_line_end_witness:
  "print_response ref_boost (response_new\<lparr>rp_code := 404, rp_status_message := ''Not Found''\<rparr>) =
    Some (''HTTP/1.1 404 Not FoundServer: FibpServer 1.0'' @ CRLF @ ''Content-Length: 0'' @ CRLF @ CRLF)"
  by (subst status_message_swallows_line_end)
    (simp_all add: response_new_def SERVER_NAME_def dec_of_int_def dec_of_nat.simps)

end
