(* ===== verification/Client_Session.thy ===== *)
theory Client_Session
  imports Http_Wire Common_Types
begin

text \<open>
  The outgoing connection of the proxy and the blocking HTTP client built on it
  (\<open>ClientSession\<close> and \<open>FibpHttpClient\<close> of \<open>forward-manager/FibpClient.cpp\<close>).

  The sockets and timers of Boost.Asio are outside the repository.  What they do is an argument of
  the operations: the outcome of resolving and connecting, of writing, and of reading a response.
  An error code is a value of \<open>ec\<close>; \<open>Ec_ok\<close> is the code that converts to \<open>false\<close>.
\<close>

datatype ec = Ec_ok | Ec_eof | Ec_aborted | Ec_other int

record client_session =
  se_host :: string
  se_port :: string
  se_open :: bool
  se_connecting :: bool
  se_conn_to :: int
  se_read_to :: int
  se_deadline :: "int option"

definition client_session_new :: "string \<Rightarrow> string \<Rightarrow> client_session" where
  "client_session_new host port = \<lparr>se_host = host, se_port = port, se_open = False,
     se_connecting = False, se_conn_to = 5000, se_read_to = 5000, se_deadline = None\<rparr>"

definition set_timeout :: "int \<Rightarrow> int \<Rightarrow> client_session \<Rightarrow> client_session" where
  "set_timeout conn_to read_to s = s\<lparr>se_conn_to := conn_to, se_read_to := read_to\<rparr>"

text \<open>A pending deadline is the number of milliseconds it was armed with; \<open>pos_infin\<close> is \<open>None\<close>.\<close>

definition prepare_timeout :: "int \<Rightarrow> client_session \<Rightarrow> client_session" where
  "prepare_timeout msec s = (if msec = 0 then s else s\<lparr>se_deadline := Some msec\<rparr>)"

definition clear_timeout :: "client_session \<Rightarrow> client_session" where
  "clear_timeout s = s\<lparr>se_deadline := None\<rparr>"

text \<open>\<open>socket_.shutdown\<close> throws on a socket that is not connected (\<open>throws\<close>), and then the socket is
  closed as well.\<close>

definition session_shutdown :: "bool \<Rightarrow> bool \<Rightarrow> client_session \<Rightarrow> client_session" where
  "session_shutdown throws need_close s =
     (let s1 = clear_timeout s in
      if throws \<or> need_close then s1\<lparr>se_open := False\<rparr> else s1)"

text \<open>The timer handler: \<open>expired\<close> says that the deadline is still in the past.\<close>

definition check_deadline :: "ec \<Rightarrow> bool \<Rightarrow> bool \<Rightarrow> client_session \<Rightarrow> client_session" where
  "check_deadline e expired throws s =
     (if e = Ec_aborted then clear_timeout s
      else if expired
      then clear_timeout (if se_open s then session_shutdown throws True s else s)
      else s)"

text \<open>What asio says when the connection attempt is over: the code, and whether the socket is open then.  Resolving is
  a blocking call that may throw.\<close>

datatype connect_outcome = Resolve_throws | Connect_result ec bool

text \<open>\<open>async_connect\<close> up to the point where it yields, and from there on.\<close>

definition connect_begin :: "client_session \<Rightarrow> client_session" where
  "connect_begin s = prepare_timeout (se_conn_to s) (s\<lparr>se_connecting := True\<rparr>)"

definition connect_end :: "bool \<Rightarrow> bool \<Rightarrow> client_session \<Rightarrow> client_session" where
  "connect_end ret throws s =
     (let s2 = clear_timeout s;
          s3 = (if \<not> ret then session_shutdown throws True s2 else s2)
      in s3\<lparr>se_connecting := False\<rparr>)"

definition async_connect :: "connect_outcome \<Rightarrow> bool \<Rightarrow> client_session \<Rightarrow> client_session \<times> ec" where
  "async_connect out throws s =
     (case out of
        Resolve_throws \<Rightarrow> (connect_end False throws (s\<lparr>se_connecting := True\<rparr>), Ec_ok)
      | Connect_result e opn \<Rightarrow> (connect_end (opn \<and> e = Ec_ok) throws ((connect_begin s)\<lparr>se_open := opn\<rparr>), e))"

text \<open>\<open>async_write\<close> yields too; \<open>s\<close> is the session when the write is over, so another fiber may be connecting then.\<close>

datatype write_outcome = Write_throws | Write_result ec

definition async_write :: "write_outcome \<Rightarrow> bool \<Rightarrow> client_session \<Rightarrow> client_session \<times> bool" where
  "async_write out throws s =
     (case out of
        Write_throws \<Rightarrow> (session_shutdown throws True s, False)
      | Write_result e \<Rightarrow>
          if e \<noteq> Ec_ok
          then ((if \<not> se_connecting s then session_shutdown throws True s else s), False)
          else (s, True))"

text \<open>\<open>send_data\<close> of a session that only one fiber uses, as that of an HTTP client.\<close>

definition send_data ::
  "connect_outcome \<Rightarrow> write_outcome \<Rightarrow> bool \<Rightarrow> client_session \<Rightarrow> client_session \<times> bool" where
  "send_data con wr throws s =
     (if \<not> se_open s
      then (case async_connect con throws s of (s1, e) \<Rightarrow>
              if e \<noteq> Ec_ok then (s1, False) else async_write wr throws s1)
      else async_write wr throws s)"

definition read_guard :: "nat \<Rightarrow> client_session \<Rightarrow> client_session" where
  "read_guard bufsize s =
     (if se_read_to s > 0 then prepare_timeout (se_read_to s + int (bufsize div 1024 div 1024)) s else s)"

text \<open>\<open>async_read_some\<close> and \<open>async_read\<close>; \<open>n\<close> is the number of bytes the socket delivered.\<close>

definition async_read_some :: "ec \<Rightarrow> nat \<Rightarrow> bool \<Rightarrow> nat \<Rightarrow> client_session \<Rightarrow> client_session \<times> ec \<times> nat" where
  "async_read_some e n throws bufsize s =
     (let s1 = read_guard bufsize s;
          failed = (e \<noteq> Ec_ok \<and> e \<noteq> Ec_aborted);
          s2 = (if failed then session_shutdown throws (e = Ec_eof) s1 else s1)
      in (clear_timeout s2, e, if failed then 0 else n))"

definition async_read :: "ec \<Rightarrow> bool \<Rightarrow> nat \<Rightarrow> client_session \<Rightarrow> client_session \<times> ec" where
  "async_read e throws bufsize s =
     (let s1 = read_guard bufsize s;
          s2 = (if e \<noteq> Ec_ok \<and> e \<noteq> Ec_aborted then session_shutdown throws (e = Ec_eof) s1 else s1)
      in (clear_timeout s2, e))"

section \<open>Fibers that share a session\<close>

text \<open>The raw and the RPC client send the requests of many fibers through one session.  \<open>ss_pc f\<close> is where fiber \<open>f\<close> stands
  in \<open>send_data\<close>: it waits for \<open>connecting_\<close> to be cleared, is suspended in \<open>async_connect\<close> or in \<open>async_write\<close>, or has
  returned.  Between these points a fiber does not yield.  \<open>ss_written\<close> are the fibers whose writes completed without
  error.  The timer and the reader may act on the session at any moment.\<close>

datatype send_pc = Send_idle | Send_entered | Send_connecting | Send_writing | Send_returned bool

record send_system =
  ss_session :: client_session
  ss_pc :: "nat \<Rightarrow> send_pc"
  ss_written :: "nat list"

definition send_start :: "string \<Rightarrow> string \<Rightarrow> send_system" where
  "send_start host port = \<lparr>ss_session = client_session_new host port, ss_pc = (\<lambda>_. Send_idle), ss_written = []\<rparr>"

definition send_to :: "nat \<Rightarrow> send_pc \<Rightarrow> client_session \<Rightarrow> send_system \<Rightarrow> send_system" where
  "send_to f p s S = S\<lparr>ss_session := s, ss_pc := (ss_pc S)(f := p)\<rparr>"

inductive send_step :: "send_system \<Rightarrow> send_system \<Rightarrow> bool" where
  enter: "ss_pc S f = Send_idle \<or> ss_pc S f = Send_returned b \<Longrightarrow> send_step S (send_to f Send_entered (ss_session S) S)"
| reuse: "ss_pc S f = Send_entered \<Longrightarrow> \<not> se_connecting (ss_session S) \<Longrightarrow> se_open (ss_session S) \<Longrightarrow>
     send_step S (send_to f Send_writing (ss_session S) S)"
| unresolved: "ss_pc S f = Send_entered \<Longrightarrow> \<not> se_connecting (ss_session S) \<Longrightarrow> \<not> se_open (ss_session S) \<Longrightarrow>
     async_connect Resolve_throws th (ss_session S) = (s, e) \<Longrightarrow>
     send_step S (send_to f (if e \<noteq> Ec_ok then Send_returned False else Send_writing) s S)"
| connect: "ss_pc S f = Send_entered \<Longrightarrow> \<not> se_connecting (ss_session S) \<Longrightarrow> \<not> se_open (ss_session S) \<Longrightarrow>
     send_step S (send_to f Send_connecting (connect_begin (ss_session S)) S)"
| connected: "ss_pc S f = Send_connecting \<Longrightarrow>
     send_step S (send_to f (if e \<noteq> Ec_ok then Send_returned False else Send_writing)
       (connect_end (opn \<and> e = Ec_ok) th ((ss_session S)\<lparr>se_open := opn\<rparr>)) S)"
| written: "ss_pc S f = Send_writing \<Longrightarrow> async_write out th (ss_session S) = (s, ok) \<Longrightarrow>
     send_step S ((send_to f (Send_returned ok) s S)
       \<lparr>ss_written := (if out = Write_result Ec_ok then ss_written S @ [f] else ss_written S)\<rparr>)"
| timer: "send_step S (S\<lparr>ss_session := check_deadline e expired th (ss_session S)\<rparr>)"
| reader: "send_step S (S\<lparr>ss_session := session_shutdown th close (ss_session S)\<rparr>)"

abbreviation send_run :: "send_system \<Rightarrow> send_system \<Rightarrow> bool" where
  "send_run \<equiv> send_step\<^sup>*\<^sup>*"

section \<open>The HTTP client\<close>

definition TIMEOUT_ERR :: string where "TIMEOUT_ERR = ''Server Timed Out.''"

record http_client =
  hc_session :: client_session
  hc_next_rsp :: response_t
  hc_can_retry :: bool

definition http_client_new :: "string \<Rightarrow> string \<Rightarrow> http_client" where
  "http_client_new host port = \<lparr>hc_session = client_session_new host port,
     hc_next_rsp = response_new, hc_can_retry = True\<rparr>"

text \<open>What the network does during one exchange: connecting, writing, and the end of reading a
  response, namely the result of \<open>parse_response\<close>, its error code and the message read so far.\<close>

record exchange =
  ex_connect :: connect_outcome
  ex_write :: write_outcome
  ex_throws :: bool
  ex_parse :: bool
  ex_ec :: ec
  ex_rsp :: response_t

text \<open>The bytes that go to the socket; \<open>None\<close> when printing the request is undefined.\<close>

definition request_bytes :: "http_client \<Rightarrow> request_t \<Rightarrow> string option" where
  "request_bytes c req = print_request (req\<lparr>rq_headers := rq_headers req @
     [(''Host'', se_host (hc_session c) @ '':'' @ se_port (hc_session c))]\<rparr>)"

definition send_http_request :: "exchange \<Rightarrow> request_t \<Rightarrow> int \<Rightarrow> http_client \<Rightarrow> http_client \<times> bool" where
  "send_http_request x req timeout_ms c =
     (let s = set_timeout (timeout_ms * 2) timeout_ms (hc_session c) in
      case send_data (ex_connect x) (ex_write x) (ex_throws x) s of
        (s', ret) \<Rightarrow> (c\<lparr>hc_can_retry := True, hc_session := s'\<rparr>, ret))"

definition split_path :: "string \<Rightarrow> string \<times> string" where
  "split_path path =
     (case find_from ''?'' path 0 of
        None \<Rightarrow> (path, '''')
      | Some pos \<Rightarrow> (take pos path, drop (pos + 1) path))"

definition call_request :: "string \<Rightarrow> int \<Rightarrow> string \<Rightarrow> request_t" where
  "call_request path meth reqdata =
     request_new\<lparr>rq_method := meth, rq_path := fst (split_path path), rq_query := snd (split_path path),
       rq_keep_alive := True, rq_body := reqdata\<rparr>"

definition http_send_request :: "exchange \<Rightarrow> string \<Rightarrow> int \<Rightarrow> string \<Rightarrow> int \<Rightarrow> http_client \<Rightarrow> http_client \<times> bool" where
  "http_send_request x path meth reqdata timeout_ms c =
     send_http_request x (call_request path meth reqdata) timeout_ms c"

text \<open>Reading the response: the session after it, and whether it must be closed.\<close>

definition read_response :: "exchange \<Rightarrow> http_client \<Rightarrow> http_client" where
  "read_response x c =
     (let s1 = clear_timeout (prepare_timeout (se_read_to (hc_session c)) (hc_session c));
          closes = (\<not> rp_keep_alive (ex_rsp x) \<or> ex_ec x = Ec_eof \<or> ex_ec x = Ec_aborted);
          s2 = (if closes then session_shutdown (ex_throws x) True s1 else s1)
      in c\<lparr>hc_session := s2, hc_next_rsp := ex_rsp x, hc_can_retry := True\<rparr>)"

definition permanent_code :: "int \<Rightarrow> bool" where
  "permanent_code code \<longleftrightarrow> code = status_val BAD_REQUEST \<or> code = status_val NOT_FOUND"

definition http_get_response :: "exchange \<Rightarrow> http_client \<Rightarrow> http_client \<times> bool \<times> string" where
  "http_get_response x c =
     (let c1 = read_response x c; rsp = ex_rsp x in
      if ex_parse x \<and> rp_code rsp = status_val OK then (c1, True, rp_body rsp)
      else
        (let c2 = (if permanent_code (rp_code rsp) then c1\<lparr>hc_can_retry := False\<rparr> else c1)
         in (c2, False, if ex_ec x = Ec_aborted then TIMEOUT_ERR else rp_status_message rsp)))"

definition get_http_response :: "exchange \<Rightarrow> http_client \<Rightarrow> http_client \<times> bool \<times> response_t" where
  "get_http_response x c =
     (let c1 = read_response x c; rsp = ex_rsp x in
      if ex_parse x \<and> rp_code rsp = status_val OK then (c1, True, rsp)
      else
        (let c2 = (if permanent_code (rp_code rsp) then c1\<lparr>hc_can_retry := False\<rparr> else c1)
         in (c2, False, if ex_ec x = Ec_aborted then rsp\<lparr>rp_status_message := TIMEOUT_ERR\<rparr> else rsp)))"

section \<open>Lemmas\<close>

lemma session_shutdown_True [simp]: "\<not> se_open (session_shutdown th True s)"
  by (simp add: session_shutdown_def Let_def)

lemma clear_timeout_sel [simp]:
  "se_open (clear_timeout s) = se_open s" "se_connecting (clear_timeout s) = se_connecting s"
  "se_host (clear_timeout s) = se_host s" "se_port (clear_timeout s) = se_port s"
  "se_deadline (clear_timeout s) = None"
  by (simp_all add: clear_timeout_def)

lemma session_shutdown_sel [simp]:
  "se_connecting (session_shutdown th nc s) = se_connecting s"
  "se_host (session_shutdown th nc s) = se_host s" "se_port (session_shutdown th nc s) = se_port s"
  "se_deadline (session_shutdown th nc s) = None"
  by (simp_all add: session_shutdown_def Let_def)

lemma prepare_timeout_sel [simp]:
  "se_open (prepare_timeout n s) = se_open s" "se_connecting (prepare_timeout n s) = se_connecting s"
  "se_host (prepare_timeout n s) = se_host s" "se_port (prepare_timeout n s) = se_port s"
  by (simp_all add: prepare_timeout_def)

lemma connect_end_sel [simp]:
  "\<not> se_connecting (connect_end r th s)" "se_open (connect_end r th s) \<longleftrightarrow> r \<and> se_open s"
  "se_host (connect_end r th s) = se_host s" "se_port (connect_end r th s) = se_port s"
  by (simp_all add: connect_end_def Let_def session_shutdown_def)

lemma connect_begin_sel [simp]:
  "se_connecting (connect_begin s)" "se_host (connect_begin s) = se_host s" "se_port (connect_begin s) = se_port s"
  by (simp_all add: connect_begin_def)

lemma check_deadline_sel [simp]: "se_connecting (check_deadline e x th s) = se_connecting s"
  by (simp add: check_deadline_def)

lemma async_write_sel:
  assumes "async_write out th s = (s', ok)"
  shows "se_connecting s' = se_connecting s" "ok \<longleftrightarrow> out = Write_result Ec_ok"
    "\<not> ok \<Longrightarrow> \<not> se_connecting s \<Longrightarrow> \<not> se_open s'" "se_host s' = se_host s" "se_port s' = se_port s"
  using assms by (auto simp: async_write_def split: write_outcome.splits if_splits)

lemma send_to_sel [simp]:
  "ss_session (send_to f p s S) = s" "ss_pc (send_to f p s S) = (ss_pc S)(f := p)" "ss_written (send_to f p s S) = ss_written S"
  by (simp_all add: send_to_def)

text \<open>\<open>connecting_\<close> is a lock: it is set while one fiber is in \<open>async_connect\<close>.\<close>

definition send_ok :: "send_system \<Rightarrow> bool" where
  "send_ok S \<longleftrightarrow> (se_connecting (ss_session S) \<longleftrightarrow> (\<exists>f. ss_pc S f = Send_connecting)) \<and>
     (\<forall>f g. ss_pc S f = Send_connecting \<longrightarrow> ss_pc S g = Send_connecting \<longrightarrow> f = g) \<and>
     (\<forall>f. ss_pc S f = Send_returned True \<longrightarrow> f \<in> set (ss_written S))"

lemma send_okI:
  assumes "send_ok S" "se_connecting (ss_session S') = se_connecting (ss_session S)" "ss_pc S' = (ss_pc S)(f := p)"
    "p \<noteq> Send_connecting" "ss_pc S f \<noteq> Send_connecting" "set (ss_written S) \<subseteq> set (ss_written S')"
    "p = Send_returned True \<Longrightarrow> f \<in> set (ss_written S')"
  shows "send_ok S'"
proof -
  have "ss_pc S' g = Send_connecting \<longleftrightarrow> ss_pc S g = Send_connecting" for g using assms(3-5) by simp
  then show ?thesis using assms(1,2,3,6,7) unfolding send_ok_def by (auto split: if_splits)
qed

lemma send_ok_step: "send_step S S' \<Longrightarrow> send_ok S \<Longrightarrow> send_ok S'"
proof (induction rule: send_step.induct)
  case (written S f out th s ok)
  then show ?case using async_write_sel(1,2)[OF written(2)] by (intro send_okI[OF written(3), of _ f "Send_returned ok"]) auto
next
  case (enter S f b)
  then show ?case by (intro send_okI[OF enter(2), of _ f Send_entered]) auto
next
  case (reuse S f)
  then show ?case by (intro send_okI[OF reuse(4), of _ f Send_writing]) auto
next
  case (connected S f e opn th)
  then have "\<forall>g. ss_pc S g = Send_connecting \<longrightarrow> g = f" by (auto simp: send_ok_def)
  with connected show ?case by (auto simp: send_ok_def)
next
  case (unresolved S f th s e)
  then show ?case
    by (intro send_okI[OF unresolved(5), of _ f Send_writing]) (auto simp: async_connect_def)
qed (auto simp: send_ok_def)

lemma send_ok_run: "send_run (send_start h p) S \<Longrightarrow> send_ok S"
proof (induction rule: rtranclp_induct)
  case base
  show ?case by (simp add: send_ok_def send_start_def client_session_new_def)
qed (rule send_ok_step)

lemma failed_send_closed:
  assumes "send_step S S'" "send_ok S" "ss_pc S f \<noteq> Send_returned False" "ss_pc S' f = Send_returned False"
    "\<not> se_connecting (ss_session S')"
  shows "\<not> se_open (ss_session S')"
  using assms
proof (induction rule: send_step.induct)
  case (written S g out th s ok)
  then show ?case using async_write_sel(1,3)[OF written(2)] by (auto split: if_splits)
next
  case (connected S g e opn th)
  then show ?case by (auto split: if_splits)
next
  case (unresolved S g th s e)
  then show ?case by (auto simp: async_connect_def split: if_splits)
qed (auto split: if_splits)

section \<open>Properties\<close>

text \<open>\<^bold>\<open>C20\<close>.  However the fibers that share a session interleave, with its timer and its reader acting at any moment, at most
  one fiber is connecting the socket, and \<open>connecting_\<close> is set exactly then, so that nobody waits for it in vain; a sender
  is told success only if its own write completed without error; and one that fails leaves the socket closed, so that the
  next call connects again, unless another fiber is connecting it anew at that moment.\<close>

theorem send_data_outcome:
  assumes "send_run (send_start host port) S"
  shows "(se_connecting (ss_session S) \<longleftrightarrow> (\<exists>f. ss_pc S f = Send_connecting)) \<and>
    (\<forall>f g. ss_pc S f = Send_connecting \<longrightarrow> ss_pc S g = Send_connecting \<longrightarrow> f = g) \<and>
    (\<forall>f. ss_pc S f = Send_returned True \<longrightarrow> f \<in> set (ss_written S)) \<and>
    (\<forall>S' f. send_step S S' \<longrightarrow> ss_pc S f \<noteq> Send_returned False \<longrightarrow> ss_pc S' f = Send_returned False \<longrightarrow>
       \<not> se_open (ss_session S') \<or> (\<exists>g. g \<noteq> f \<and> ss_pc S' g = Send_connecting))"
proof -
  have ok: "send_ok S" using send_ok_run[OF assms] .
  have "\<not> se_open (ss_session S') \<or> (\<exists>g. g \<noteq> f \<and> ss_pc S' g = Send_connecting)"
    if "send_step S S'" "ss_pc S f \<noteq> Send_returned False" "ss_pc S' f = Send_returned False" for S' f
  proof (cases "se_connecting (ss_session S')")
    case True
    have "send_ok S'" by (rule send_ok_step[OF that(1) ok])
    then obtain g where "ss_pc S' g = Send_connecting" using True by (auto simp: send_ok_def)
    moreover from this have "g \<noteq> f" using that(3) by auto
    ultimately show ?thesis by blast
  qed (use failed_send_closed[OF that(1) ok that(2,3)] in blast)
  then show ?thesis using ok unfolding send_ok_def by blast
qed

text \<open>Two fibers write through the socket that the first of them connected.\<close>

lemma steps_from: "send_run S T \<Longrightarrow> send_step T U \<Longrightarrow> send_run S U"
  by (rule rtranclp.rtrancl_into_rtrancl)

definition wit_send :: "send_system \<Rightarrow> bool" where
  "wit_send S \<longleftrightarrow> send_run (send_start ''h'' ''80'') S \<and> ss_pc S 0 = Send_writing \<and> ss_pc S 1 = Send_writing \<and> ss_pc S 2 = Send_idle \<and>
     \<not> se_connecting (ss_session S) \<and> se_open (ss_session S)"

lemma two_writers: "\<exists>S. wit_send S"
proof -
  let ?s = "connect_end True False ((connect_begin (client_session_new ''h'' ''80''))\<lparr>se_open := True\<rparr>)"
  let ?S0 = "send_start ''h'' ''80''"
  let ?S1 = "send_to 0 Send_entered (ss_session ?S0) ?S0"
  let ?S2 = "send_to 0 Send_connecting (connect_begin (ss_session ?S1)) ?S1"
  let ?S3 = "send_to 0 Send_writing (connect_end True False ((ss_session ?S2)\<lparr>se_open := True\<rparr>)) ?S2"
  let ?S4 = "send_to 1 Send_entered (ss_session ?S3) ?S3"
  let ?S5 = "send_to 1 Send_writing (ss_session ?S4) ?S4"
  have "send_run ?S0 ?S1" by (rule steps_from[OF rtranclp.rtrancl_refl]) (rule send_step.enter, simp add: send_start_def)
  then have "send_run ?S0 ?S2" by (rule steps_from) (rule send_step.connect; simp add: send_start_def client_session_new_def)
  then have "send_run ?S0 ?S3" by (rule steps_from) (use send_step.connected[of ?S2 0 Ec_ok True False] in simp)
  then have "send_run ?S0 ?S4" by (rule steps_from) (rule send_step.enter, simp add: send_start_def)
  then have "send_run ?S0 ?S5" by (rule steps_from) (rule send_step.reuse; simp)
  then show ?thesis unfolding wit_send_def by (intro exI[of _ ?S5]) (simp add: send_start_def)
qed

theorem send_data_outcome_witness:
  "\<exists>S S'. wit_send S \<and> send_step S S' \<and> ss_pc S' 0 = Send_returned False \<and> \<not> se_open (ss_session S')"
proof -
  obtain S where S: "wit_send S" using two_writers by blast
  obtain s ok where w: "async_write (Write_result (Ec_other 32)) False (ss_session S) = (s, ok)" by fastforce
  let ?S' = "(send_to 0 (Send_returned False) s S)\<lparr>ss_written := ss_written S\<rparr>"
  have "\<not> ok" using async_write_sel(2)[OF w] by simp
  then have st: "send_step S ?S'" using send_step.written[OF _ w, of 0] S by (simp add: wit_send_def)
  have run: "send_run (send_start ''h'' ''80'') S" using S by (simp add: wit_send_def)
  have "ss_pc S g \<noteq> Send_connecting" for g using send_data_outcome[OF run] S by (auto simp: wit_send_def)
  then have "\<not> (\<exists>g. g \<noteq> 0 \<and> ss_pc ?S' g = Send_connecting)" by simp
  moreover have "ss_pc S 0 \<noteq> Send_returned False" "ss_pc ?S' 0 = Send_returned False" using S by (simp_all add: wit_send_def)
  ultimately have "\<not> se_open (ss_session ?S')" using send_data_outcome[OF run] st by blast
  then show ?thesis using S st by (intro exI[of _ S] exI[of _ ?S']) simp
qed

text \<open>Nothing keeps two fibers from writing to the socket at the same time, although the pieces that the composed write of
  asio sends may then mix on the wire.\<close>

theorem concurrent_writes_possible:
  "\<exists>S. send_run (send_start ''h'' ''80'') S \<and> ss_pc S 0 = Send_writing \<and> ss_pc S 1 = Send_writing"
  using two_writers unfolding wit_send_def by blast

text \<open> When the host name cannot be resolved, \<open>async_connect\<close> returns the code of success with
  the socket closed: the exception is caught and the error code was never set.\<close>

theorem unresolved_host_reports_success:
  "snd (async_connect Resolve_throws th s) = Ec_ok \<and> \<not> se_open (fst (async_connect Resolve_throws th s))"
  by (simp add: async_connect_def)

lemma find_sub_char: "find_sub [c] s = None \<longleftrightarrow> c \<notin> set s"
  by (induction s) auto

lemma find_sub_char_Some:
  "find_sub [c] s = Some i \<Longrightarrow> s = take i s @ c # drop (Suc i) s \<and> c \<notin> set (take i s)"
proof (induction s arbitrary: i)
  case (Cons d s)
  show ?case
  proof (cases "d = c")
    case True
    then show ?thesis using Cons.prems by auto
  next
    case False
    then obtain j where "find_sub [c] s = Some j" "i = Suc j"
      using Cons.prems by auto
    with Cons.IH[of j] False show ?thesis by simp
  qed
qed simp

text \<open> The target of the request line that a call sends is the path it was asked to call: what
  \<open>send_request\<close> splits off as the query is put back behind the path, except that a path whose
  first question mark is its last character loses it.\<close>

theorem request_target_is_path:
  "(let req = call_request path meth body in
      rq_path req @ (if rq_query req \<noteq> '''' then ''?'' @ rq_query req else '''')) =
    (if path \<noteq> [] \<and> last path = CHR ''?'' \<and> CHR ''?'' \<notin> set (butlast path) then butlast path else path)"
proof (cases "find_sub ''?'' path")
  case None
  then have "\<not> (path \<noteq> [] \<and> last path = CHR ''?'')"
    by (metis find_sub_char last_in_set)
  then show ?thesis
    using None by (auto simp: call_request_def split_path_def find_from_def)
next
  case (Some i)
  define a b where ab: "a = take i path" "b = drop (Suc i) path"
  have p: "path = a @ CHR ''?'' # b" "CHR ''?'' \<notin> set a"
    using find_sub_char_Some[OF Some] unfolding ab by blast+
  have r: "rq_path (call_request path meth body) = a" "rq_query (call_request path meth body) = b"
    using Some ab by (simp_all add: call_request_def split_path_def find_from_def)
  show ?thesis
    unfolding Let_def r using p by (cases b rule: rev_cases) (auto simp: butlast_append)
qed

end
