(* ===== verification/Future_Client.thy ===== *)
theory Future_Client
  imports Client_Session
begin

text \<open>
  Multiplexed clients: \<open>FibpRawClient\<close> and \<open>FibpRpcClient\<close> of \<open>forward-manager/FibpClient.cpp\<close> and
  the future of \<open>FibpClientFuture.cpp\<close>.  Many calls share one connection; every request carries a
  number, a reader fiber takes the answers off the socket and completes the future that is filed
  under the number.

  A future is shared between the caller and the table of pending calls, so futures live in a store
  (\<open>fc_heap\<close>) and the table maps a number to an address.  The raw protocol prefixes a body with its
  number and length in network byte order; its framing is modelled on the byte stream.  MessagePack
  is outside the repository: what the reader asks of it is a record of functions.  The socket that
  the calls share is the session of \<open>Client_Session\<close>; here only the outcome of a write is seen.
\<close>

section \<open>Futures\<close>

text \<open>\<open>fut_waiting\<close>: a fiber is suspended in a wait for the timer \<open>deadline_\<close>.\<close>

record client_future =
  fut_id :: "32 word"
  fut_timeout :: int
  fut_rsp :: string
  fut_success :: bool
  fut_can_retry :: bool
  fut_done :: bool
  fut_waiting :: bool

definition future_new :: "32 word \<Rightarrow> int \<Rightarrow> client_future" where
  "future_new fid timeout = \<lparr>fut_id = fid, fut_timeout = timeout, fut_rsp = '''',
     fut_success = False, fut_can_retry = True, fut_done = False, fut_waiting = False\<rparr>"

text \<open>Cancelling the timer ends a wait for it at once, as its expiry does.\<close>

definition deadline_ends :: "client_future \<Rightarrow> client_future" where
  "deadline_ends f = f\<lparr>fut_waiting := False\<rparr>"

definition set_result :: "string \<Rightarrow> bool \<Rightarrow> bool \<Rightarrow> client_future \<Rightarrow> client_future" where
  "set_result rsp is_success can_retry f =
     deadline_ends (f\<lparr>fut_rsp := rsp, fut_success := is_success, fut_can_retry := can_retry, fut_done := True\<rparr>)"

text \<open>\<open>getRsp\<close> waits for the timer unless the future is done, and goes on when the wait is over: the returned flag, the
  response and \<open>can_retry\<close>.\<close>

definition getRsp_begin :: "client_future \<Rightarrow> client_future" where
  "getRsp_begin f = (if \<not> fut_done f then f\<lparr>fut_waiting := True\<rparr> else f)"

definition getRsp_end :: "client_future \<Rightarrow> bool \<times> string \<times> bool" where
  "getRsp_end f =
     (if \<not> fut_done f then (fut_success f, TIMEOUT_ERR, True)
      else (fut_success f, fut_rsp f, fut_can_retry f))"

section \<open>The table of pending calls\<close>

record future_client =
  fc_fid :: "32 word"
  fc_futures :: "(32 word \<times> nat) list"
  fc_heap :: "client_future list"
  fc_reading :: bool

definition future_client_new :: future_client where
  "future_client_new = \<lparr>fc_fid = 0, fc_futures = [], fc_heap = [], fc_reading = False\<rparr>"

text \<open>\<open>send_request\<close> up to the write, which yields: a new number, a new future, filed in the table.\<close>

definition send_begin :: "int \<Rightarrow> future_client \<Rightarrow> future_client \<times> 32 word \<times> nat" where
  "send_begin timeout c =
     (let fid = fc_fid c + 1; a = length (fc_heap c) in
      (c\<lparr>fc_fid := fid, fc_heap := fc_heap c @ [future_new fid timeout],
         fc_futures := smap_put fid a (fc_futures c)\<rparr>, fid, a))"

text \<open>And after it: the future is given up when the write failed, and the reader is started when
  there is none.\<close>

definition send_end :: "bool \<Rightarrow> 32 word \<Rightarrow> nat \<Rightarrow> future_client \<Rightarrow> future_client \<times> nat option" where
  "send_end sent fid a c =
     (if \<not> sent then (c\<lparr>fc_futures := smap_erase fid (fc_futures c)\<rparr>, None)
      else (c\<lparr>fc_reading := True\<rparr>, Some a))"

definition raw_set_response :: "32 word \<Rightarrow> string \<Rightarrow> bool \<Rightarrow> bool \<Rightarrow> future_client \<Rightarrow> future_client" where
  "raw_set_response msgid rsp is_success can_retry c =
     (let heap' = (case map_of (fc_futures c) msgid of
             Some a \<Rightarrow> (fc_heap c)[a := set_result rsp is_success can_retry (fc_heap c ! a)]
           | None \<Rightarrow> fc_heap c)
      in c\<lparr>fc_heap := heap', fc_futures := smap_erase msgid (fc_futures c)\<rparr>)"

definition raw_set_all_error :: "string \<Rightarrow> future_client \<Rightarrow> future_client" where
  "raw_set_all_error errinfo c =
     c\<lparr>fc_heap := fold (\<lambda>(_, a) h. h[a := set_result errinfo False True (h ! a)]) (fc_futures c) (fc_heap c),
       fc_futures := []\<rparr>"

definition rpc_set_response :: "32 word \<Rightarrow> string \<Rightarrow> bool \<Rightarrow> bool \<Rightarrow> future_client \<Rightarrow> future_client" where
  "rpc_set_response msgid rsp is_success can_retry c =
     (case map_of (fc_futures c) msgid of
        Some a \<Rightarrow>
          c\<lparr>fc_heap := (fc_heap c)[a := set_result rsp is_success can_retry (fc_heap c ! a)],
            fc_futures := smap_erase msgid (fc_futures c)\<rparr>
      | None \<Rightarrow> c\<lparr>fc_futures := smap_erase msgid (fc_futures c)\<rparr>)"

definition rpc_set_all_error :: "string \<Rightarrow> future_client \<Rightarrow> future_client" where
  "rpc_set_all_error errinfo c =
     c\<lparr>fc_heap := fold (\<lambda>(_, a) h. h[a := set_result errinfo False True (h ! a)]) (fc_futures c) (fc_heap c),
       fc_futures := []\<rparr>"

section \<open>Readers\<close>

text \<open>The raw reader: a frame, or the end of the stream with a message.\<close>

definition raw_on_frame :: "32 word \<Rightarrow> string \<Rightarrow> future_client \<Rightarrow> future_client" where
  "raw_on_frame seq body c = raw_set_response seq body True False c"

definition raw_on_error :: "string \<Rightarrow> future_client \<Rightarrow> future_client" where
  "raw_on_error msg c = (raw_set_all_error msg c)\<lparr>fc_reading := False\<rparr>"

text \<open>What the RPC reader asks of MessagePack about an object: its fields as a \<open>msg_response\<close> (\<open>Inl\<close> is what the exception
  says), whether it is nil, the object as a string, and its packed bytes.\<close>

record 'o rpc_unpack =
  up_response :: "'o \<Rightarrow> string + (32 word \<times> 'o \<times> 'o)"
  up_is_nil :: "'o \<Rightarrow> bool"
  up_string :: "'o \<Rightarrow> string + string"
  up_pack :: "'o \<Rightarrow> string"

definition SERVER_RSP_TOO_LARGE_ERR :: string where
  "SERVER_RSP_TOO_LARGE_ERR = ''Server Response Too Large.''"

definition rpc_fail :: "string \<Rightarrow> future_client \<Rightarrow> future_client" where
  "rpc_fail msg c = (rpc_set_all_error msg c)\<lparr>fc_reading := False\<rparr>"

definition rpc_on_message :: "'o rpc_unpack \<Rightarrow> 'o \<Rightarrow> future_client \<Rightarrow> future_client" where
  "rpc_on_message P msg c =
     (case up_response P msg of
        Inl what \<Rightarrow> rpc_fail what c
      | Inr (msgid, err, result) \<Rightarrow>
          if \<not> up_is_nil P err
          then (case up_string P err of
                  Inl what \<Rightarrow> rpc_fail what c
                | Inr rsp \<Rightarrow> rpc_set_response msgid rsp False False c)
          else rpc_set_response msgid (up_pack P result) True False c)"

text \<open>A read that fails, or that makes the message under way larger than 10 MB, ends the reader.\<close>

definition rpc_after_read :: "string + nat \<Rightarrow> future_client \<Rightarrow> future_client" where
  "rpc_after_read r c =
     (case r of
        Inl message \<Rightarrow> rpc_fail message c
      | Inr message_size \<Rightarrow> if message_size > 10 * 1024 * 1024 then rpc_fail SERVER_RSP_TOO_LARGE_ERR c else c)"

section \<open>Framing of the raw protocol\<close>

text \<open>\<open>htonl\<close> followed by \<open>memcpy\<close>: the most significant byte first.\<close>

definition be32 :: "32 word \<Rightarrow> string" where
  "be32 w = map (\<lambda>k. char_of ((unat w div 256 ^ k) mod 256)) [3, 2, 1, 0]"

definition of_be32 :: "string \<Rightarrow> 32 word" where
  "of_be32 s = of_nat (foldl (\<lambda>n c. n * 256 + (of_char c :: nat)) 0 s)"

definition raw_frame :: "32 word \<Rightarrow> string \<Rightarrow> string" where
  "raw_frame fid reqdata = be32 fid @ be32 (of_nat (length reqdata)) @ reqdata"

definition HEAD_SIZE :: nat where "HEAD_SIZE = 8"

text \<open>The frames the reader takes off a stream until it has to wait for more bytes, and the bytes left over, which
  stay with the two calls of \<open>async_read\<close> that are not complete.\<close>

function raw_read :: "string \<Rightarrow> (32 word \<times> string) list \<times> string" where
  "raw_read s =
     (if length s < HEAD_SIZE then ([], s)
      else
        (let seq = of_be32 (take 4 s); len = unat (of_be32 (take 4 (drop 4 s))) in
         if length (drop HEAD_SIZE s) < len then ([], s)
         else (case raw_read (drop len (drop HEAD_SIZE s)) of
                 (fs, rest) \<Rightarrow> ((seq, take len (drop HEAD_SIZE s)) # fs, rest))))"
  by pat_completeness auto
termination
  by (relation "measure length") (auto simp: HEAD_SIZE_def)

declare raw_read.simps [simp del]

section \<open>What both clients keep\<close>

text \<open>A number in the table leads to a future of that number that is not done.\<close>

definition calls_ok :: "future_client \<Rightarrow> bool" where
  "calls_ok c \<longleftrightarrow> smap_ok (fc_futures c) \<and>
     (\<forall>i a. map_of (fc_futures c) i = Some a \<longrightarrow>
        a < length (fc_heap c) \<and> \<not> fut_done (fc_heap c ! a) \<and> fut_id (fc_heap c ! a) = i)"

lemma calls_ok_new: "calls_ok future_client_new"
  by (simp add: calls_ok_def future_client_new_def)

lemma calls_okD:
  "calls_ok c \<Longrightarrow> map_of (fc_futures c) i = Some a \<Longrightarrow>
     a < length (fc_heap c) \<and> \<not> fut_done (fc_heap c ! a) \<and> fut_id (fc_heap c ! a) = i"
  by (simp add: calls_ok_def)

lemma calls_ok_begin: "calls_ok c \<Longrightarrow> calls_ok (fst (send_begin t c))"
  by (auto simp: calls_ok_def send_begin_def Let_def smap_simps nth_append future_new_def less_SucI
      split: if_splits)

lemma calls_ok_end: "calls_ok c \<Longrightarrow> calls_ok (fst (send_end sent fid a c))"
  by (auto simp: calls_ok_def send_end_def smap_simps split: if_splits)

lemma fold_update_idem:
  assumes "\<And>x. g (g x) = g x" "\<forall>(i, a) \<in> set es. a < length h"
  shows "length (fold (\<lambda>(_, a) h. h[a := g (h ! a)]) es h) = length h \<and>
    (\<forall>b < length h. fold (\<lambda>(_, a) h. h[a := g (h ! a)]) es h ! b =
       (if b \<in> snd ` set es then g (h ! b) else h ! b))"
  using assms(2)
proof (induction es arbitrary: h)
  case (Cons e es)
  obtain i a where e: "e = (i, a)" by (cases e)
  have "\<forall>(i, b) \<in> set es. b < length (h[a := g (h ! a)])" using Cons.prems by auto
  from Cons.IH[OF this] show ?case
    using Cons.prems e assms(1) by (auto simp: nth_list_update)
qed simp

lemma set_result_idem: "set_result r s t (set_result r s t f) = set_result r s t f"
  by (simp add: set_result_def deadline_ends_def)

locale pending_table =
  fixes respond :: "32 word \<Rightarrow> string \<Rightarrow> bool \<Rightarrow> bool \<Rightarrow> future_client \<Rightarrow> future_client"
    and fail_all broken :: "string \<Rightarrow> future_client \<Rightarrow> future_client"
  assumes respond_futures: "fc_futures (respond i r s t c) = smap_erase i (fc_futures c)"
    and respond_heap: "fc_heap (respond i r s t c) =
      (case map_of (fc_futures c) i of
         Some a \<Rightarrow> (fc_heap c)[a := set_result r s t (fc_heap c ! a)] | None \<Rightarrow> fc_heap c)"
    and fail_futures: "fc_futures (fail_all m c) = []"
    and fail_heap: "fc_heap (fail_all m c) =
      fold (\<lambda>(_, a) h. h[a := set_result m False True (h ! a)]) (fc_futures c) (fc_heap c)"
    and broken_eq: "broken m c = (fail_all m c)\<lparr>fc_reading := False\<rparr>"
    and fid_kept: "fc_fid (respond i r s t c) = fc_fid c" "fc_fid (fail_all m c) = fc_fid c"
begin

lemma respond_nth:
  assumes "calls_ok c" "b < length (fc_heap c)"
  shows "fc_heap (respond i r s t c) ! b =
    (if map_of (fc_futures c) i = Some b then set_result r s t (fc_heap c ! b) else fc_heap c ! b)"
  using assms by (auto simp: respond_heap nth_list_update split: option.split)

lemma respond_length: "length (fc_heap (respond i r s t c)) = length (fc_heap c)"
  by (simp add: respond_heap split: option.split)

lemma fail_nth:
  assumes "calls_ok c" "b < length (fc_heap c)"
  shows "fc_heap (fail_all m c) ! b =
    (if b \<in> ran (map_of (fc_futures c)) then set_result m False True (fc_heap c ! b) else fc_heap c ! b)"
proof -
  have ok: "smap_ok (fc_futures c)" using assms(1) by (simp add: calls_ok_def)
  have b: "b \<in> snd ` set (fc_futures c) \<longleftrightarrow> b \<in> ran (map_of (fc_futures c))"
    unfolding ran_def using smap_in_set[OF ok] by force
  have "\<forall>(i, a) \<in> set (fc_futures c). a < length (fc_heap c)"
    using assms(1) by (auto simp: calls_ok_def smap_in_set[OF ok])
  from fold_update_idem[of "set_result m False True", OF set_result_idem this] assms(2) b
  show ?thesis by (simp add: fail_heap)
qed

lemma fail_length:
  assumes "calls_ok c"
  shows "length (fc_heap (fail_all m c)) = length (fc_heap c)"
proof -
  have ok: "smap_ok (fc_futures c)" using assms by (simp add: calls_ok_def)
  have "\<forall>(i, a) \<in> set (fc_futures c). a < length (fc_heap c)"
    using assms by (auto simp: calls_ok_def smap_in_set[OF ok])
  from fold_update_idem[of "set_result m False True", OF set_result_idem this]
  show ?thesis by (simp add: fail_heap)
qed

lemma calls_ok_respond: "calls_ok c \<Longrightarrow> calls_ok (respond i r s t c)"
  unfolding calls_ok_def respond_futures respond_length
proof (intro conjI allI impI)
  assume ok: "smap_ok (fc_futures c) \<and>
     (\<forall>i a. map_of (fc_futures c) i = Some a \<longrightarrow>
        a < length (fc_heap c) \<and> \<not> fut_done (fc_heap c ! a) \<and> fut_id (fc_heap c ! a) = i)"
  then show "smap_ok (smap_erase i (fc_futures c))" by (simp add: smap_ok_erase)
  fix j a assume "map_of (smap_erase i (fc_futures c)) j = Some a"
  then have j: "j \<noteq> i" "map_of (fc_futures c) j = Some a" by (auto simp: map_of_smap_erase split: if_splits)
  with ok show "a < length (fc_heap c)" by blast
  have ja: "a < length (fc_heap c)" "\<not> fut_done (fc_heap c ! a)" "fut_id (fc_heap c ! a) = j"
    using ok j(2) by blast+
  then have "map_of (fc_futures c) i \<noteq> Some a" using ok j(1) by metis
  moreover have "calls_ok c" using ok by (simp add: calls_ok_def)
  ultimately show "\<not> fut_done (fc_heap (respond i r s t c) ! a)" "fut_id (fc_heap (respond i r s t c) ! a) = j"
    using ja respond_nth[of c a i r s t] by simp_all
qed

lemma calls_ok_fail: "calls_ok c \<Longrightarrow> calls_ok (fail_all m c)"
  by (simp add: calls_ok_def fail_futures)

text \<open>A done future does not change any more.\<close>

lemma done_stable:
  assumes "calls_ok c" "a < length (fc_heap c)" "fut_done (fc_heap c ! a)"
  shows "fc_heap (respond i r s t c) ! a = fc_heap c ! a" "fc_heap (fail_all m c) ! a = fc_heap c ! a"
proof -
  have no: "map_of (fc_futures c) j \<noteq> Some a" for j
    using assms(3) calls_okD[OF assms(1), of j a] by auto
  show "fc_heap (respond i r s t c) ! a = fc_heap c ! a"
    using respond_nth[OF assms(1,2)] no by simp
  show "fc_heap (fail_all m c) ! a = fc_heap c ! a"
    using fail_nth[OF assms(1,2)] no by (auto simp: ran_def)
qed

end

interpretation raw_calls: pending_table raw_set_response raw_set_all_error raw_on_error
  by unfold_locales (simp_all add: raw_on_error_def raw_set_response_def raw_set_all_error_def Let_def)

interpretation rpc_calls: pending_table rpc_set_response rpc_set_all_error rpc_fail
  by unfold_locales (simp_all add: rpc_fail_def rpc_set_response_def rpc_set_all_error_def split: option.split)

section \<open>Runs\<close>

text \<open>What can happen to a client, in any order: a call begins, its write ends, its caller begins to wait, the timer of a
  future expires, an answer arrives, the reader breaks.\<close>

datatype call_event = Ev_begin int | Ev_end bool "32 word" nat | Ev_wait nat | Ev_expire nat |
  Ev_answer "32 word" string bool bool | Ev_broken string

definition at_future :: "nat \<Rightarrow> (client_future \<Rightarrow> client_future) \<Rightarrow> future_client \<Rightarrow> future_client" where
  "at_future a g c = (if a < length (fc_heap c) then c\<lparr>fc_heap := (fc_heap c)[a := g (fc_heap c ! a)]\<rparr> else c)"

definition call_exec ::
  "(32 word \<Rightarrow> string \<Rightarrow> bool \<Rightarrow> bool \<Rightarrow> future_client \<Rightarrow> future_client) \<Rightarrow>
   (string \<Rightarrow> future_client \<Rightarrow> future_client) \<Rightarrow> call_event \<Rightarrow> future_client \<Rightarrow> future_client" where
  "call_exec respond broken ev c =
     (case ev of
        Ev_begin t \<Rightarrow> fst (send_begin t c)
      | Ev_end sent fid a \<Rightarrow> fst (send_end sent fid a c)
      | Ev_wait a \<Rightarrow> at_future a getRsp_begin c
      | Ev_expire a \<Rightarrow> at_future a deadline_ends c
      | Ev_answer i r s t \<Rightarrow> respond i r s t c
      | Ev_broken m \<Rightarrow> broken m c)"

definition raw_run :: "call_event list \<Rightarrow> future_client" where
  "raw_run evs = fold (call_exec raw_set_response raw_on_error) evs future_client_new"

text \<open>The RPC client, whose answers come as messages.\<close>

datatype 'o rpc_event = Rpc_begin int | Rpc_end bool "32 word" nat | Rpc_wait nat | Rpc_expire nat |
  Rpc_message 'o | Rpc_read "string + nat"

definition rpc_exec :: "'o rpc_unpack \<Rightarrow> 'o rpc_event \<Rightarrow> future_client \<Rightarrow> future_client" where
  "rpc_exec P ev c =
     (case ev of
        Rpc_begin t \<Rightarrow> fst (send_begin t c)
      | Rpc_end sent fid a \<Rightarrow> fst (send_end sent fid a c)
      | Rpc_wait a \<Rightarrow> at_future a getRsp_begin c
      | Rpc_expire a \<Rightarrow> at_future a deadline_ends c
      | Rpc_message msg \<Rightarrow> rpc_on_message P msg c
      | Rpc_read r \<Rightarrow> rpc_after_read r c)"

definition rpc_run :: "'o rpc_unpack \<Rightarrow> 'o rpc_event list \<Rightarrow> future_client" where
  "rpc_run P evs = fold (rpc_exec P) evs future_client_new"

text \<open>Futures are numbered in the order of their calls, and a done future has the outcome of an event
  of its own number, or of a breakdown.\<close>

definition answered :: "call_event list \<Rightarrow> client_future \<Rightarrow> bool" where
  "answered evs f \<longleftrightarrow>
     Ev_answer (fut_id f) (fut_rsp f) (fut_success f) (fut_can_retry f) \<in> set evs \<or>
     Ev_broken (fut_rsp f) \<in> set evs \<and> \<not> fut_success f \<and> fut_can_retry f"

definition run_ok :: "call_event list \<Rightarrow> future_client \<Rightarrow> bool" where
  "run_ok evs c \<longleftrightarrow> calls_ok c \<and> fc_fid c = of_nat (length (fc_heap c)) \<and>
     (\<forall>a < length (fc_heap c). fut_id (fc_heap c ! a) = of_nat (Suc a) \<and>
        (fut_done (fc_heap c ! a) \<longrightarrow> \<not> fut_waiting (fc_heap c ! a) \<and> answered evs (fc_heap c ! a)))"

lemma answered_mono: "answered evs f \<Longrightarrow> answered (evs @ [ev]) f"
  by (auto simp: answered_def)

lemma at_future_sel [simp]:
  "fc_fid (at_future a g c) = fc_fid c" "fc_futures (at_future a g c) = fc_futures c"
  "length (fc_heap (at_future a g c)) = length (fc_heap c)"
  "b < length (fc_heap c) \<Longrightarrow> fc_heap (at_future a g c) ! b = (if b = a then g (fc_heap c ! b) else fc_heap c ! b)"
  by (auto simp: at_future_def)

text \<open>The waits change nothing else.\<close>

lemma waits_sel [simp]:
  "fut_id (getRsp_begin f) = fut_id f" "fut_done (getRsp_begin f) = fut_done f" "fut_done f \<Longrightarrow> getRsp_begin f = f"
  "fut_id (deadline_ends f) = fut_id f" "fut_done (deadline_ends f) = fut_done f" "\<not> fut_waiting (deadline_ends f)"
  "\<not> fut_waiting f \<Longrightarrow> deadline_ends f = f"
  by (simp_all add: getRsp_begin_def deadline_ends_def)

lemma set_result_sel [simp]:
  "fut_id (set_result r s t f) = fut_id f" "fut_done (set_result r s t f)" "\<not> fut_waiting (set_result r s t f)"
  "fut_rsp (set_result r s t f) = r" "fut_success (set_result r s t f) = s" "fut_can_retry (set_result r s t f) = t"
  by (simp_all add: set_result_def deadline_ends_def)

lemma calls_ok_at_future:
  assumes "\<And>f. fut_id (g f) = fut_id f" "\<And>f. fut_done (g f) = fut_done f"
  shows "calls_ok c \<Longrightarrow> calls_ok (at_future a g c)"
  by (simp add: calls_ok_def assms)

lemma run_okD:
  assumes "run_ok evs c"
  shows "calls_ok c" "fc_fid c = of_nat (length (fc_heap c))"
    "a < length (fc_heap c) \<Longrightarrow> fut_id (fc_heap c ! a) = of_nat (Suc a)"
    "a < length (fc_heap c) \<Longrightarrow> fut_done (fc_heap c ! a) \<Longrightarrow> \<not> fut_waiting (fc_heap c ! a) \<and> answered evs (fc_heap c ! a)"
  using assms by (simp_all add: run_ok_def)

lemma run_ok_waits:
  assumes "run_ok evs c" "\<And>f. fut_id (g f) = fut_id f" "\<And>f. fut_done (g f) = fut_done f"
    "\<And>f. fut_done f \<Longrightarrow> \<not> fut_waiting f \<Longrightarrow> g f = f"
  shows "run_ok (evs @ [ev]) (at_future a g c)"
  using assms calls_ok_at_future[of g c a] answered_mono[of evs _ ev] by (simp add: run_ok_def)

context pending_table
begin

lemma exec_run_ok:
  assumes "run_ok evs c"
  shows "run_ok (evs @ [ev]) (call_exec respond broken ev c)"
proof -
  have ok: "calls_ok c" using assms by (simp add: run_ok_def)
  show ?thesis
  proof (cases ev)
    case (Ev_begin t)
    show ?thesis
      using assms calls_ok_begin[OF ok, of t] answered_mono
      by (auto simp: run_ok_def call_exec_def Ev_begin send_begin_def Let_def nth_append future_new_def
          less_Suc_eq add.commute)
  next
    case (Ev_end sent fid a)
    show ?thesis
      using assms calls_ok_end[OF ok, of sent fid a] answered_mono
      by (auto simp: run_ok_def call_exec_def Ev_end send_end_def split: if_splits)
  next
    case (Ev_answer i r s t)
    have "fut_id (fc_heap (respond i r s t c) ! a) = of_nat (Suc a) \<and>
        (fut_done (fc_heap (respond i r s t c) ! a) \<longrightarrow>
           \<not> fut_waiting (fc_heap (respond i r s t c) ! a) \<and> answered (evs @ [ev]) (fc_heap (respond i r s t c) ! a))"
      if a: "a < length (fc_heap c)" for a
      using assms a respond_nth[OF ok a, of i r s t] calls_okD[OF ok, of i a] answered_mono[of evs _ ev]
      by (auto simp: run_ok_def Ev_answer answered_def)
    then show ?thesis
      using assms calls_ok_respond[OF ok]
      by (simp add: run_ok_def call_exec_def Ev_answer respond_length fid_kept)
  next
    case (Ev_broken m)
    have "fut_id (fc_heap (fail_all m c) ! a) = of_nat (Suc a) \<and>
        (fut_done (fc_heap (fail_all m c) ! a) \<longrightarrow>
           \<not> fut_waiting (fc_heap (fail_all m c) ! a) \<and> answered (evs @ [ev]) (fc_heap (fail_all m c) ! a))"
      if a: "a < length (fc_heap c)" for a
      using assms a fail_nth[OF ok a, of m] answered_mono[of evs _ ev]
      by (auto simp: run_ok_def Ev_broken answered_def)
    then show ?thesis
      using assms calls_ok_fail[OF ok]
      by (simp add: run_ok_def call_exec_def Ev_broken broken_eq fail_length[OF ok] fid_kept calls_ok_def fail_futures)
  qed (use run_ok_waits[OF assms] in \<open>simp_all add: call_exec_def\<close>)
qed

lemma run_run_ok: "run_ok evs (fold (call_exec respond broken) evs future_client_new)"
proof (induction evs rule: rev_induct)
  case Nil
  show ?case by (simp add: run_ok_def calls_ok_new future_client_new_def) (simp add: calls_ok_def)
next
  case (snoc ev evs)
  then show ?case using exec_run_ok by simp
qed

lemma exec_done_stable:
  assumes "run_ok evs c" "a < length (fc_heap c)" "fut_done (fc_heap c ! a)"
  shows "a < length (fc_heap (call_exec respond broken ev c)) \<and>
    fc_heap (call_exec respond broken ev c) ! a = fc_heap c ! a"
proof (cases ev)
  case (Ev_begin t)
  then show ?thesis using assms(2) by (simp add: call_exec_def send_begin_def Let_def nth_append)
next
  case (Ev_end sent fid b)
  then show ?thesis using assms(2) by (simp add: call_exec_def send_end_def)
next
  case (Ev_answer i r s t)
  then show ?thesis using assms(2,3) done_stable(1)[OF run_okD(1)[OF assms(1)]] by (simp add: call_exec_def respond_length)
next
  case (Ev_broken m)
  note ok = run_okD(1)[OF assms(1)]
  show ?thesis using assms(2,3) done_stable(2)[OF ok] fail_length[OF ok] by (simp add: Ev_broken call_exec_def broken_eq)
qed (use assms run_okD(4)[OF assms] in \<open>auto simp: call_exec_def\<close>)

lemma run_done_stable:
  assumes "run_ok evs c" "a < length (fc_heap c)" "fut_done (fc_heap c ! a)"
  shows "fc_heap (fold (call_exec respond broken) evs2 c) ! a = fc_heap c ! a"
  using assms
proof (induction evs2 arbitrary: evs c)
  case (Cons ev evs2)
  note s = exec_done_stable[OF Cons.prems, of ev]
  from Cons.IH[OF exec_run_ok[OF Cons.prems(1)]] s Cons.prems(3) show ?case by simp
qed simp

lemma broken_completes_all:
  assumes "calls_ok c" "map_of (fc_futures c) i = Some a"
  shows "fc_heap (broken m c) ! a = set_result m False True (fc_heap c ! a)"
proof -
  have "a < length (fc_heap c)" "a \<in> ran (map_of (fc_futures c))"
    using calls_okD[OF assms] assms(2) by (auto simp: ran_def)
  then show ?thesis using fail_nth[OF assms(1), of a m] by (simp add: broken_eq)
qed

lemma broken_leaves_others:
  assumes "calls_ok c" "a < length (fc_heap c)" "a \<notin> ran (map_of (fc_futures c))"
  shows "fc_heap (broken m c) ! a = fc_heap c ! a"
  using fail_nth[OF assms(1,2), of m] assms(3) by (simp add: broken_eq)

end

text \<open>An event of the RPC client as one of the table: none for a read that does not end the reader.\<close>

definition rpc_call_event :: "'o rpc_unpack \<Rightarrow> 'o rpc_event \<Rightarrow> call_event list" where
  "rpc_call_event P ev =
     (case ev of
        Rpc_begin t \<Rightarrow> [Ev_begin t]
      | Rpc_end sent fid a \<Rightarrow> [Ev_end sent fid a]
      | Rpc_wait a \<Rightarrow> [Ev_wait a]
      | Rpc_expire a \<Rightarrow> [Ev_expire a]
      | Rpc_message msg \<Rightarrow>
          (case up_response P msg of
             Inl what \<Rightarrow> [Ev_broken what]
           | Inr (msgid, err, result) \<Rightarrow>
               if up_is_nil P err then [Ev_answer msgid (up_pack P result) True False]
               else (case up_string P err of Inl what \<Rightarrow> [Ev_broken what] | Inr rsp \<Rightarrow> [Ev_answer msgid rsp False False]))
      | Rpc_read (Inl message) \<Rightarrow> [Ev_broken message]
      | Rpc_read (Inr n) \<Rightarrow> if n > 10 * 1024 * 1024 then [Ev_broken SERVER_RSP_TOO_LARGE_ERR] else [])"

lemma rpc_exec_call: "rpc_exec P ev c = fold (call_exec rpc_set_response rpc_fail) (rpc_call_event P ev) c"
  by (simp add: rpc_exec_def rpc_call_event_def call_exec_def rpc_on_message_def rpc_after_read_def
      split: rpc_event.split sum.split prod.split)

lemma rpc_run_call: "rpc_run P evs = fold (call_exec rpc_set_response rpc_fail) (concat (map (rpc_call_event P) evs)) future_client_new"
proof -
  have "fold (rpc_exec P) evs c = fold (call_exec rpc_set_response rpc_fail) (concat (map (rpc_call_event P) evs)) c" for c
    by (induction evs arbitrary: c) (simp_all add: rpc_exec_call)
  then show ?thesis by (simp add: rpc_run_def)
qed

lemma rpc_run_ok: "run_ok (concat (map (rpc_call_event P) evs)) (rpc_run P evs)"
  using rpc_calls.run_run_ok by (simp add: rpc_run_call)

section \<open>Properties of the framing\<close>

lemma length_be32 [simp]: "length (be32 w) = 4"
  by (simp add: be32_def)

lemma bytes_sum:
  fixes n :: nat
  assumes "n < 2 ^ 32"
  shows "((n div 256 ^ 3 mod 256 * 256 + n div 256 ^ 2 mod 256) * 256 + n div 256 mod 256) * 256 + n mod 256 = n"
proof -
  have 3: "n div 256 ^ 3 mod 256 = n div 256 div 256 div 256"
    using assms by (simp add: div_mult2_eq[symmetric])
  have 2: "n div 256 ^ 2 = n div 256 div 256" by (simp add: div_mult2_eq[symmetric] power2_eq_square)
  have s: "(m div 256) * 256 + m mod 256 = m" for m :: nat by simp
  show ?thesis unfolding 3 2 s ..
qed

lemma of_be32_be32 [simp]: "of_be32 (be32 w) = w"
proof -
  have "unat w < 2 ^ LENGTH(32)" by (rule unsigned_less)
  then have w: "unat w < 2 ^ 32" by simp
  then have "unat w div 16777216 mod 256 = unat w div 16777216" by simp
  with bytes_sum[OF w] have
    "foldl (\<lambda>n c. n * 256 + (of_char c :: nat)) 0 (be32 w) = unat w"
    by (simp add: be32_def)
  then show ?thesis by (simp add: of_be32_def)
qed

lemma raw_read_short: "length s < HEAD_SIZE \<Longrightarrow> raw_read s = ([], s)"
  by (subst raw_read.simps) simp

lemma raw_read_frame:
  assumes "length body < 2 ^ 32"
  shows "raw_read (raw_frame seq body @ rest) =
    (case raw_read rest of (fs, r) \<Rightarrow> ((seq, body) # fs, r))"
proof -
  have "unat (of_nat (length body) :: 32 word) = length body"
    using assms by (simp only: unat_of_nat) simp
  then show ?thesis
    by (subst raw_read.simps) (simp add: raw_frame_def HEAD_SIZE_def Let_def)
qed

lemma raw_read_frames:
  assumes "\<forall>(seq, body) \<in> set fs. length body < 2 ^ 32"
  shows "raw_read (concat (map (\<lambda>(seq, body). raw_frame seq body) fs) @ rest) =
    (case raw_read rest of (gs, r) \<Rightarrow> (fs @ gs, r))"
  using assms
proof (induction fs)
  case Nil
  show ?case by (cases "raw_read rest") simp
next
  case (Cons f fs)
  obtain seq body where f: "f = (seq, body)" by (cases f)
  then have "length body < 2 ^ 32" using Cons.prems by simp
  from raw_read_frame[OF this] Cons f show ?case by (auto split: prod.splits)
qed

text \<open>\<^bold>\<open>C6\<close>.  The raw protocol is a faithful framing: a reader that is given the frames of any sequence
  of messages, each shorter than \<open>2 ^ 32\<close> bytes, followed by an incomplete header, delivers exactly
  these messages with their numbers, in order, and keeps the rest.\<close>

theorem raw_stream_roundtrip:
  assumes "\<forall>(seq, body) \<in> set fs. length body < 2 ^ 32" "length rest < HEAD_SIZE"
  shows "raw_read (concat (map (\<lambda>(seq, body). raw_frame seq body) fs) @ rest) = (fs, rest)"
  using raw_read_frames[OF assms(1)] raw_read_short[OF assms(2)] by simp

theorem raw_stream_roundtrip_witness:
  "raw_read (raw_frame 1 ''ab'' @ raw_frame 2 '''' @ ''xyz'') = ([(1, ''ab''), (2, '''')], ''xyz'')"
  using raw_stream_roundtrip[of "[(1, ''ab''), (2, '''')]" "''xyz''"] by (simp add: HEAD_SIZE_def)

section \<open>Properties of the pending calls\<close>

text \<open>\<^bold>\<open>C3\<close>.  In every run of a raw client, however calls, answers and breakdowns interleave, a call that
  completed was completed by an answer that carries the number of the call and by nobody else's,
  with exactly the content of that answer, or by a breakdown of the connection, which is reported
  as a failure that may be retried.  The calls are numbered 1, 2, ... in the order they were made.\<close>

theorem raw_answers_match_calls:
  assumes "a < length (fc_heap (raw_run evs))" "fut_done (fc_heap (raw_run evs) ! a)"
  shows "fut_id (fc_heap (raw_run evs) ! a) = of_nat (Suc a) \<and> answered evs (fc_heap (raw_run evs) ! a)"
  using assms run_okD(3,4)[OF raw_calls.run_run_ok[of evs]] unfolding raw_run_def by blast

theorem raw_answers_match_calls_witness:
  "answered [Ev_begin 5000, Ev_begin 5000, Ev_end True 1 0, Ev_end True 2 1, Ev_answer 2 ''b'' True False, Ev_broken ''eof'']
     (fc_heap (raw_run [Ev_begin 5000, Ev_begin 5000, Ev_end True 1 0, Ev_end True 2 1, Ev_answer 2 ''b'' True False, Ev_broken ''eof'']) ! 1)"
proof -
  let ?e = "[Ev_begin 5000, Ev_begin 5000, Ev_end True 1 0, Ev_end True 2 1, Ev_answer 2 ''b'' True False, Ev_broken ''eof'']"
  have "1 < length (fc_heap (raw_run ?e))" "fut_done (fc_heap (raw_run ?e) ! 1)" by code_simp+
  then show ?thesis using raw_answers_match_calls by blast
qed

lemma rpc_answer_event:
  assumes "Ev_answer i r s t \<in> set (rpc_call_event P ev)"
  shows "\<exists>msg err result. ev = Rpc_message msg \<and> up_response P msg = Inr (i, err, result) \<and>
    (if up_is_nil P err then s \<and> r = up_pack P result else \<not> s \<and> up_string P err = Inr r) \<and> \<not> t"
proof (cases ev)
  case (Rpc_message msg)
  then obtain j err result where "up_response P msg = Inr (j, err, result)"
    using assms by (cases "up_response P msg") (auto simp: rpc_call_event_def)
  then show ?thesis using assms Rpc_message by (auto simp: rpc_call_event_def split: if_splits sum.splits)
next
  case (Rpc_read r)
  then show ?thesis using assms by (cases r) (auto simp: rpc_call_event_def split: if_splits)
qed (use assms in \<open>simp_all add: rpc_call_event_def\<close>)

lemma rpc_broken_event:
  assumes "Ev_broken m \<in> set (rpc_call_event P ev)"
  shows "(\<exists>msg. ev = Rpc_message msg \<and> (up_response P msg = Inl m \<or>
      (\<exists>i err result. up_response P msg = Inr (i, err, result) \<and> \<not> up_is_nil P err \<and> up_string P err = Inl m))) \<or>
    ev = Rpc_read (Inl m) \<or> (\<exists>n. n > 10 * 1024 * 1024 \<and> ev = Rpc_read (Inr n) \<and> m = SERVER_RSP_TOO_LARGE_ERR)"
proof (cases ev)
  case (Rpc_message msg)
  then show ?thesis
    using assms by (cases "up_response P msg") (auto simp: rpc_call_event_def split: if_splits sum.splits prod.splits)
next
  case (Rpc_read r)
  then show ?thesis using assms by (cases r) (auto simp: rpc_call_event_def split: if_splits)
qed (use assms in \<open>simp_all add: rpc_call_event_def\<close>)

text \<open>\<^bold>\<open>C10\<close>.  In every run of an RPC client, however calls, reads and messages interleave, a call that completed did so in one of
  three ways: a message with the number of the call and no error, whose packed result is the answer and counts as a
  success; a message with its number and an error string, which is a failure that must not be retried; or the end of the
  reader, by a message that does not convert, a read error or an oversized message, which is a failure that may be retried.
  No other call's message completes it.\<close>

theorem rpc_answers_match_calls:
  assumes "a < length (fc_heap (rpc_run P evs))" "f = fc_heap (rpc_run P evs) ! a" "fut_done f"
  shows "fut_id f = of_nat (Suc a) \<and>
    ((\<exists>msg err result. Rpc_message msg \<in> set evs \<and> up_response P msg = Inr (fut_id f, err, result) \<and>
        (if up_is_nil P err then fut_success f \<and> fut_rsp f = up_pack P result
         else \<not> fut_success f \<and> up_string P err = Inr (fut_rsp f)) \<and> \<not> fut_can_retry f) \<or>
     \<not> fut_success f \<and> fut_can_retry f \<and>
       ((\<exists>msg. Rpc_message msg \<in> set evs \<and> (up_response P msg = Inl (fut_rsp f) \<or>
           (\<exists>i err result. up_response P msg = Inr (i, err, result) \<and> \<not> up_is_nil P err \<and> up_string P err = Inl (fut_rsp f)))) \<or>
        Rpc_read (Inl (fut_rsp f)) \<in> set evs \<or>
        (\<exists>n. n > 10 * 1024 * 1024 \<and> Rpc_read (Inr n) \<in> set evs \<and> fut_rsp f = SERVER_RSP_TOO_LARGE_ERR)))"
proof -
  have ok: "fut_id f = of_nat (Suc a)" "answered (concat (map (rpc_call_event P) evs)) f"
    using run_okD(3,4)[OF rpc_run_ok[of P evs], of a] assms by blast+
  from ok(2) show ?thesis
    unfolding answered_def
  proof
    assume "Ev_answer (fut_id f) (fut_rsp f) (fut_success f) (fut_can_retry f) \<in> set (concat (map (rpc_call_event P) evs))"
    then obtain ev where ev: "ev \<in> set evs"
      "Ev_answer (fut_id f) (fut_rsp f) (fut_success f) (fut_can_retry f) \<in> set (rpc_call_event P ev)" by auto
    from rpc_answer_event[OF ev(2)] ev(1) show ?thesis by (intro conjI[OF ok(1)] disjI1) metis
  next
    assume b: "Ev_broken (fut_rsp f) \<in> set (concat (map (rpc_call_event P) evs)) \<and> \<not> fut_success f \<and> fut_can_retry f"
    then obtain ev where ev: "ev \<in> set evs" "Ev_broken (fut_rsp f) \<in> set (rpc_call_event P ev)" by auto
    from rpc_broken_event[OF ev(2)] ev(1) b show ?thesis by (intro conjI[OF ok(1)] disjI2) metis
  qed
qed

text \<open>A stand-in for MessagePack: an object is nil, a string, or a response.\<close>

datatype ref_object = Obj_nil | Obj_str string | Obj_rsp "32 word" ref_object ref_object

definition ref_unpack :: "ref_object rpc_unpack" where
  "ref_unpack = \<lparr>up_response = (\<lambda>m. case m of Obj_rsp i e r \<Rightarrow> Inr (i, e, r) | _ \<Rightarrow> Inl ''bad cast''),
     up_is_nil = (\<lambda>m. case m of Obj_nil \<Rightarrow> True | _ \<Rightarrow> False),
     up_string = (\<lambda>m. case m of Obj_str s \<Rightarrow> Inr s | _ \<Rightarrow> Inl ''bad cast''),
     up_pack = (\<lambda>m. case m of Obj_str s \<Rightarrow> s | _ \<Rightarrow> ''nil'')\<rparr>"

definition wit_rpc_events :: "ref_object rpc_event list" where
  "wit_rpc_events = [Rpc_begin 5000, Rpc_begin 5000, Rpc_end True 1 0, Rpc_wait 0,
     Rpc_message (Obj_rsp 2 Obj_nil (Obj_str ''b'')), Rpc_message (Obj_rsp 1 (Obj_str ''no'') Obj_nil), Rpc_read (Inl ''eof'')]"

theorem rpc_answers_match_calls_witness:
  "(let f = fc_heap (rpc_run ref_unpack wit_rpc_events) ! 0 in
      fut_id f = 1 \<and> \<not> fut_success f \<and> \<not> fut_can_retry f \<and> fut_rsp f = ''no'' \<and>
      (\<exists>msg err result. Rpc_message msg \<in> set wit_rpc_events \<and> up_response ref_unpack msg = Inr (1, err, result) \<and>
        up_string ref_unpack err = Inr ''no''))"
proof -
  let ?f = "fc_heap (rpc_run ref_unpack wit_rpc_events) ! 0"
  have "0 < length (fc_heap (rpc_run ref_unpack wit_rpc_events))" "fut_done ?f" "fut_rsp ?f = ''no'' \<and> \<not> fut_success ?f \<and> \<not> fut_can_retry ?f"
    by code_simp+
  then show ?thesis using rpc_answers_match_calls[of 0 ref_unpack wit_rpc_events ?f, OF _ refl]
    by (auto simp: Let_def split: if_splits)
qed

text \<open> The outcome of a completed call is final: whatever happens to the client later, duplicate
  answers and breakdowns included, the future keeps its first outcome.\<close>

theorem raw_outcome_final:
  assumes "a < length (fc_heap (raw_run evs))" "fut_done (fc_heap (raw_run evs) ! a)"
  shows "fc_heap (raw_run (evs @ evs2)) ! a = fc_heap (raw_run evs) ! a"
  using raw_calls.run_done_stable[OF raw_calls.run_run_ok[of evs], of a evs2] assms by (simp add: raw_run_def)

theorem raw_outcome_final_witness:
  "fc_heap (raw_run ([Ev_begin 5000, Ev_answer 1 ''a'' True False] @ [Ev_answer 1 ''b'' True False])) ! 0 =
     fc_heap (raw_run [Ev_begin 5000, Ev_answer 1 ''a'' True False]) ! 0"
proof -
  have "0 < length (fc_heap (raw_run [Ev_begin 5000, Ev_answer 1 ''a'' True False]))"
    "fut_done (fc_heap (raw_run [Ev_begin 5000, Ev_answer 1 ''a'' True False]) ! 0)" by code_simp+
  then show ?thesis using raw_outcome_final by blast
qed

text \<open>\<^bold>\<open>C11\<close>.  When the reader of a raw client ends, every pending call is completed with the error message and may be retried,
  and a fiber that waits for it is woken, since its timer is cancelled; the other calls are not touched, no call stays
  pending, and the reader is marked as gone, so that the next call starts a new one.  No fiber ever waits for a
  call that is completed.\<close>

theorem raw_breakdown_wakes_all:
  assumes "c = raw_on_error m (raw_run evs)"
  shows "(\<forall>i a. map_of (fc_futures (raw_run evs)) i = Some a \<longrightarrow>
      \<not> fut_waiting (fc_heap c ! a) \<and> getRsp_end (fc_heap c ! a) = (False, m, True)) \<and>
    (\<forall>a < length (fc_heap (raw_run evs)). a \<notin> ran (map_of (fc_futures (raw_run evs))) \<longrightarrow> fc_heap c ! a = fc_heap (raw_run evs) ! a) \<and>
    (\<forall>a < length (fc_heap (raw_run evs)). fut_done (fc_heap (raw_run evs) ! a) \<longrightarrow> \<not> fut_waiting (fc_heap (raw_run evs) ! a)) \<and>
    fc_futures c = [] \<and> \<not> fc_reading c"
proof -
  have r: "run_ok evs (raw_run evs)" using raw_calls.run_run_ok[of evs] by (simp add: raw_run_def)
  note ok = run_okD(1)[OF r]
  show ?thesis
    using raw_calls.broken_completes_all[OF ok, of _ _ m] raw_calls.broken_leaves_others[OF ok, of _ m] run_okD(4)[OF r]
    unfolding assms by (simp add: getRsp_end_def raw_on_error_def raw_calls.fail_futures)
qed

theorem raw_breakdown_wakes_all_witness:
  "(let c = raw_run [Ev_begin 5000, Ev_end True 1 0, Ev_wait 0] in
      fut_waiting (fc_heap c ! 0) \<and> \<not> fut_waiting (fc_heap (raw_on_error ''reset'' c) ! 0) \<and>
      getRsp_end (fc_heap (raw_on_error ''reset'' c) ! 0) = (False, ''reset'', True) \<and> \<not> fc_reading (raw_on_error ''reset'' c))"
proof -
  let ?c = "raw_run [Ev_begin 5000, Ev_end True 1 0, Ev_wait 0]"
  have "map_of (fc_futures ?c) 1 = Some 0" "fut_waiting (fc_heap ?c ! 0)" by code_simp+
  then show ?thesis using raw_breakdown_wakes_all[OF refl, of "[Ev_begin 5000, Ev_end True 1 0, Ev_wait 0]" "''reset''"]
    unfolding Let_def by blast
qed

end
