(* ===== verification/Client_Mgr.thy ===== *)
theory Client_Mgr
  imports Future_Client
begin

text \<open>
  The pools of outgoing connections, \<open>forward-manager/FibpClientMgr.cpp\<close>.  HTTP clients serve one call
  at a time: a call takes one from the queue of its host or creates one, and puts it back when the
  response was read.  RPC and raw clients are shared, one per host and type.

  Client objects live in stores, because a client is referred to by the pool and by the fiber that
  uses it.  A call yields while it sends and while it waits for the response; other fibers use the
  manager in between, so taking a client, the end of sending and the end of receiving are separate
  operations.
\<close>

definition MAX_CLIENT_NUM :: nat where "MAX_CLIENT_NUM = 100"

definition getClientId :: "string \<Rightarrow> string \<Rightarrow> string" where
  "getClientId host port = host @ '':'' @ port"

record client_mgr =
  cm_http_heap :: "http_client list"
  cm_http_pool :: "(string \<times> nat list) list"
  cm_fut_heap :: "(int \<times> future_client) list"
  cm_fut_pool :: "(string \<times> nat) list list"
  cm_client_num :: "(string \<times> 32 word) list"

definition client_mgr_new :: client_mgr where
  "client_mgr_new = \<lparr>cm_http_heap = [], cm_http_pool = [], cm_fut_heap = [],
     cm_fut_pool = replicate 4 [], cm_client_num = []\<rparr>"

definition client_id_of :: "http_client \<Rightarrow> string" where
  "client_id_of c = getClientId (se_host (hc_session c)) (se_port (hc_session c))"

definition pool_of :: "client_mgr \<Rightarrow> string \<Rightarrow> nat list" where
  "pool_of cm cid = (case map_of (cm_http_pool cm) cid of Some q \<Rightarrow> q | None \<Rightarrow> [])"

definition num_of :: "client_mgr \<Rightarrow> string \<Rightarrow> 32 word" where
  "num_of cm cid = (case map_of (cm_client_num cm) cid of Some n \<Rightarrow> n | None \<Rightarrow> 0)"

text \<open>The first part of the HTTP \<open>send_request\<close>: the front of the queue, or a new client unless the
  host has more than \<open>MAX_CLIENT_NUM\<close> of them.  Looking up \<open>client_num_[id]\<close> creates an entry.\<close>

definition http_acquire :: "string \<Rightarrow> string \<Rightarrow> client_mgr \<Rightarrow> client_mgr \<times> nat option" where
  "http_acquire ip port cm =
     (let cid = getClientId ip port in
      case pool_of cm cid of
        a # q \<Rightarrow> (cm\<lparr>cm_http_pool := smap_put cid q (cm_http_pool cm)\<rparr>, Some a)
      | [] \<Rightarrow>
          if unat (num_of cm cid) > MAX_CLIENT_NUM
          then (cm\<lparr>cm_client_num := smap_put cid (num_of cm cid) (cm_client_num cm)\<rparr>, None)
          else
            (cm\<lparr>cm_http_heap := cm_http_heap cm @ [http_client_new ip port],
                cm_client_num := smap_put cid (num_of cm cid + 1) (cm_client_num cm)\<rparr>,
             Some (length (cm_http_heap cm))))"

definition push_client :: "string \<Rightarrow> nat \<Rightarrow> client_mgr \<Rightarrow> client_mgr" where
  "push_client cid a cm = cm\<lparr>cm_http_pool := smap_put cid (pool_of cm cid @ [a]) (cm_http_pool cm)\<rparr>"

definition set_client :: "nat \<Rightarrow> http_client \<Rightarrow> client_mgr \<Rightarrow> client_mgr" where
  "set_client a c cm = cm\<lparr>cm_http_heap := (cm_http_heap cm)[a := c]\<rparr>"

text \<open>Its second part: the request was written or not; a client that failed goes back to the queue.\<close>

definition http_sent ::
  "exchange \<Rightarrow> string \<Rightarrow> int \<Rightarrow> string \<Rightarrow> string \<Rightarrow> string \<Rightarrow> int \<Rightarrow> nat \<Rightarrow> client_mgr \<Rightarrow> client_mgr \<times> nat option" where
  "http_sent x path meth ip port reqdata to_ms a cm =
     (case http_send_request x path meth reqdata to_ms (cm_http_heap cm ! a) of
        (c, ret) \<Rightarrow>
          let cm1 = set_client a c cm in
          if \<not> ret then (push_client (getClientId ip port) a cm1, None) else (cm1, Some a))"

definition http_received :: "exchange \<Rightarrow> nat \<Rightarrow> client_mgr \<Rightarrow> client_mgr \<times> bool \<times> string \<times> bool" where
  "http_received x a cm =
     (case http_get_response x (cm_http_heap cm ! a) of
        (c, ret, rsp) \<Rightarrow>
          (push_client (client_id_of (cm_http_heap cm ! a)) a (set_client a c cm), ret, rsp, hc_can_retry c))"

section \<open>RPC and raw clients\<close>

text \<open>\<open>throw -1\<close> and the missing pool entry are values.\<close>

datatype fut_acquire = Fut_throw | Fut_unsupported | Fut_client nat

definition fut_acquire_client :: "int \<Rightarrow> string \<Rightarrow> string \<Rightarrow> client_mgr \<Rightarrow> client_mgr \<times> fut_acquire" where
  "fut_acquire_client calltype ip port cm =
     (let t = nat calltype; cid = getClientId ip port in
      if calltype < 0 \<or> t \<ge> length (cm_fut_pool cm) then (cm, Fut_throw)
      else if calltype = service_type_val HTTP_Service then (cm, Fut_throw)
      else
        (case map_of (cm_fut_pool cm ! t) cid of
           Some a \<Rightarrow> (cm, Fut_client a)
         | None \<Rightarrow>
             if calltype = service_type_val RPC_Service \<or> calltype = service_type_val Raw_Service
             then (cm\<lparr>cm_fut_heap := cm_fut_heap cm @ [(calltype, future_client_new)],
                      cm_client_num := smap_put cid (num_of cm cid + 1) (cm_client_num cm),
                      cm_fut_pool := (cm_fut_pool cm)[t :=
                        smap_put cid (length (cm_fut_heap cm)) (cm_fut_pool cm ! t)]\<rparr>,
                   Fut_client (length (cm_fut_heap cm)))
             else (cm, Fut_unsupported)))"

section \<open>Who holds a client\<close>

text \<open>\<open>U\<close> are the clients that calls hold.  Every client is either held by a call or waits in the queue
  of its own host, in one place only; the number of clients of a host is counted.\<close>

definition clients_of :: "client_mgr \<Rightarrow> string \<Rightarrow> nat set" where
  "clients_of cm cid = {a. a < length (cm_http_heap cm) \<and> client_id_of (cm_http_heap cm ! a) = cid}"

definition fut_clients_of :: "client_mgr \<Rightarrow> string \<Rightarrow> nat" where
  "fut_clients_of cm cid = length (filter (\<lambda>p. map_of p cid \<noteq> None) (cm_fut_pool cm))"

definition pool_ok :: "nat set \<Rightarrow> client_mgr \<Rightarrow> bool" where
  "pool_ok U cm \<longleftrightarrow>
     smap_ok (cm_http_pool cm) \<and> smap_ok (cm_client_num cm) \<and>
     length (cm_fut_pool cm) = 4 \<and> (\<forall>m \<in> set (cm_fut_pool cm). smap_ok m) \<and>
     U \<subseteq> {a. a < length (cm_http_heap cm)} \<and>
     (\<forall>cid. distinct (pool_of cm cid) \<and> set (pool_of cm cid) = clients_of cm cid - U) \<and>
     (\<forall>cid. card (clients_of cm cid) \<le> MAX_CLIENT_NUM + 1 \<and>
            unat (num_of cm cid) = card (clients_of cm cid) + fut_clients_of cm cid)"

lemma pool_of_put [simp]:
  "smap_ok (cm_http_pool cm) \<Longrightarrow>
     pool_of (cm\<lparr>cm_http_pool := smap_put cid q (cm_http_pool cm)\<rparr>) c = (if c = cid then q else pool_of cm c)"
  by (simp add: pool_of_def map_of_smap_put)

lemma num_of_put [simp]:
  "smap_ok (cm_client_num cm) \<Longrightarrow>
     num_of (cm\<lparr>cm_client_num := smap_put cid n (cm_client_num cm)\<rparr>) c = (if c = cid then n else num_of cm c)"
  by (simp add: num_of_def map_of_smap_put)

lemma finite_clients_of [simp]: "finite (clients_of cm cid)"
  by (rule finite_subset[of _ "{..<length (cm_http_heap cm)}"]) (auto simp: clients_of_def)

lemma pool_ok_new: "pool_ok {} client_mgr_new"
  by (simp add: pool_ok_def client_mgr_new_def pool_of_def clients_of_def num_of_def fut_clients_of_def)

lemma clients_of_cong:
  "length (cm_http_heap cm') = length (cm_http_heap cm) \<Longrightarrow>
   (\<And>a. a < length (cm_http_heap cm) \<Longrightarrow> client_id_of (cm_http_heap cm' ! a) = client_id_of (cm_http_heap cm ! a)) \<Longrightarrow>
     clients_of cm' = clients_of cm"
  by (auto simp: clients_of_def fun_eq_iff)

lemma pool_of_cong: "cm_http_pool cm' = cm_http_pool cm \<Longrightarrow> pool_of cm' = pool_of cm"
  by (simp add: pool_of_def fun_eq_iff)

lemma num_of_cong: "cm_client_num cm' = cm_client_num cm \<Longrightarrow> num_of cm' = num_of cm"
  by (simp add: num_of_def fun_eq_iff)

lemma fut_clients_of_cong: "cm_fut_pool cm' = cm_fut_pool cm \<Longrightarrow> fut_clients_of cm' = fut_clients_of cm"
  by (simp add: fut_clients_of_def fun_eq_iff)

lemma fut_clients_of_le: "length (cm_fut_pool cm) = 4 \<Longrightarrow> fut_clients_of cm cid \<le> 4"
  by (metis fut_clients_of_def length_filter_le)

section \<open>The operations keep the accounts\<close>

lemma send_data_host:
  "se_host (fst (send_data con wr th s)) = se_host s" "se_port (fst (send_data con wr th s)) = se_port s"
  by (simp_all add: send_data_def async_write_def async_connect_def split: connect_outcome.split write_outcome.split)

lemma http_send_id: "client_id_of (fst (http_send_request x path meth body to c)) = client_id_of c"
  using send_data_host[of "ex_connect x" "ex_write x" "ex_throws x" "set_timeout (to * 2) to (hc_session c)"]
  by (auto simp: http_send_request_def send_http_request_def client_id_of_def Let_def set_timeout_def
      split: prod.split)

lemma http_get_id: "client_id_of (fst (http_get_response x c)) = client_id_of c"
  by (simp add: http_get_response_def read_response_def client_id_of_def Let_def)

lemma http_acquire_ok:
  assumes "pool_ok U cm" "http_acquire ip port cm = (cm', Some a)"
  shows "a \<notin> U \<and> pool_ok (insert a U) cm' \<and> a < length (cm_http_heap cm') \<and>
    client_id_of (cm_http_heap cm' ! a) = getClientId ip port"
proof -
  let ?cid = "getClientId ip port"
  have ok: "smap_ok (cm_http_pool cm)" "smap_ok (cm_client_num cm)" "length (cm_fut_pool cm) = 4"
    "\<forall>m \<in> set (cm_fut_pool cm). smap_ok m"
    "U \<subseteq> {a. a < length (cm_http_heap cm)}"
    "\<And>cid. distinct (pool_of cm cid) \<and> set (pool_of cm cid) = clients_of cm cid - U"
    "\<And>cid. card (clients_of cm cid) \<le> MAX_CLIENT_NUM + 1"
    "\<And>cid. unat (num_of cm cid) = card (clients_of cm cid) + fut_clients_of cm cid"
    using assms(1) by (auto simp: pool_ok_def)
  show ?thesis
  proof (cases "pool_of cm ?cid")
    case (Cons b q)
    then have r: "a = b" "cm' = cm\<lparr>cm_http_pool := smap_put ?cid q (cm_http_pool cm)\<rparr>"
      using assms(2) by (simp_all add: http_acquire_def Let_def)
    have cl: "clients_of cm' = clients_of cm" by (rule clients_of_cong) (simp_all add: r)
    have nm: "num_of cm' = num_of cm" "fut_clients_of cm' = fut_clients_of cm"
      using num_of_cong[of cm' cm] fut_clients_of_cong[of cm' cm] by (simp_all add: r)
    have a: "a \<in> clients_of cm ?cid" "a \<notin> U"
      using ok(6)[of ?cid] Cons r(1) by auto
    have "distinct (pool_of cm' c) \<and> set (pool_of cm' c) = clients_of cm c - insert a U" for c
    proof (cases "c = ?cid")
      case True
      then show ?thesis using ok(1) ok(6)[of ?cid] Cons r by auto
    next
      case False
      then have "a \<notin> clients_of cm c" using a(1) by (simp add: clients_of_def)
      then show ?thesis using ok(1) ok(6)[of c] False r by auto
    qed
    then show ?thesis
      using ok a cl nm by (auto simp: pool_ok_def r smap_ok_put clients_of_def)
  next
    case Nil
    then have le: "unat (num_of cm ?cid) \<le> MAX_CLIENT_NUM"
      and r: "a = length (cm_http_heap cm)" "cm' = cm\<lparr>cm_http_heap := cm_http_heap cm @ [http_client_new ip port],
        cm_client_num := smap_put ?cid (num_of cm ?cid + 1) (cm_client_num cm)\<rparr>"
      using assms(2) by (auto simp: http_acquire_def Let_def split: if_splits)
    have id: "client_id_of (http_client_new ip port) = ?cid"
      by (simp add: client_id_of_def http_client_new_def client_session_new_def)
    have cl: "clients_of cm' c = (if c = ?cid then insert a (clients_of cm c) else clients_of cm c)" for c
      by (auto simp: clients_of_def r nth_append id less_Suc_eq)
    have aU: "a \<notin> U" "a \<notin> clients_of cm c" for c using ok(5) by (auto simp: r(1) clients_of_def)
    have n1: "unat (num_of cm ?cid + 1) = unat (num_of cm ?cid) + 1"
      using le by (simp add: unat_word_ariths MAX_CLIENT_NUM_def)
    have num: "num_of cm' c = (if c = ?cid then num_of cm c + 1 else num_of cm c)" for c
      using ok(2) by (simp add: r num_of_def map_of_smap_put)
    have pool: "pool_of cm' = pool_of cm" "fut_clients_of cm' = fut_clients_of cm"
      using pool_of_cong[of cm' cm] fut_clients_of_cong[of cm' cm] by (simp_all add: r)
    have "card (clients_of cm ?cid) \<le> MAX_CLIENT_NUM" using le ok(8)[of ?cid] by simp
    then show ?thesis
      using ok aU cl num n1 pool id
      by (auto simp: pool_ok_def r smap_ok_put nth_append)
  qed
qed

lemma push_client_ok:
  assumes "pool_ok U cm" "a \<in> U" "client_id_of (cm_http_heap cm ! a) = cid"
  shows "pool_ok (U - {a}) (push_client cid a cm)"
proof -
  have s: "smap_ok (cm_http_pool cm)" using assms(1) by (simp add: pool_ok_def)
  have cl: "clients_of (push_client cid a cm) = clients_of cm"
    by (rule clients_of_cong) (simp_all add: push_client_def)
  have nm: "num_of (push_client cid a cm) = num_of cm" "fut_clients_of (push_client cid a cm) = fut_clients_of cm"
    by (rule num_of_cong fut_clients_of_cong, simp add: push_client_def)+
  have p: "pool_of (push_client cid a cm) c = (if c = cid then pool_of cm c @ [a] else pool_of cm c)" for c
    using s by (simp add: push_client_def)
  have a: "a \<in> clients_of cm c \<longleftrightarrow> c = cid" for c
    using assms by (auto simp: pool_ok_def clients_of_def)
  have q: "distinct (pool_of cm c)" "set (pool_of cm c) = clients_of cm c - U" for c
    using assms(1) by (simp_all add: pool_ok_def)
  have "distinct (pool_of (push_client cid a cm) c) \<and>
      set (pool_of (push_client cid a cm) c) = clients_of cm c - (U - {a})" for c
    using q[of c] a[of c] assms(2) by (auto simp: p)
  then show ?thesis
    using assms(1) s by (auto simp: pool_ok_def cl nm) (auto simp: push_client_def smap_ok_put)
qed

lemma set_client_ok:
  assumes "pool_ok U cm" "client_id_of c = client_id_of (cm_http_heap cm ! a)"
  shows "pool_ok U (set_client a c cm)"
proof -
  have cl: "clients_of (set_client a c cm) = clients_of cm"
    by (rule clients_of_cong, simp add: set_client_def, cases "a < length (cm_http_heap cm)")
      (auto simp: set_client_def nth_list_update list_update_beyond assms(2))
  have "pool_of (set_client a c cm) = pool_of cm" "num_of (set_client a c cm) = num_of cm"
    "fut_clients_of (set_client a c cm) = fut_clients_of cm"
    by (rule pool_of_cong num_of_cong fut_clients_of_cong, simp add: set_client_def)+
  with cl assms(1) show ?thesis by (auto simp: pool_ok_def) (auto simp: set_client_def)
qed

lemma http_acquire_refused:
  assumes "pool_ok U cm" "http_acquire ip port cm = (cm', None)"
  shows "pool_ok U cm' \<and> clients_of cm (getClientId ip port) \<subseteq> U \<and>
    MAX_CLIENT_NUM < unat (num_of cm (getClientId ip port))"
proof -
  let ?cid = "getClientId ip port"
  have p: "pool_of cm ?cid = []" and n: "unat (num_of cm ?cid) > MAX_CLIENT_NUM"
    and r: "cm' = cm\<lparr>cm_client_num := smap_put ?cid (num_of cm ?cid) (cm_client_num cm)\<rparr>"
    using assms(2) by (auto simp: http_acquire_def Let_def split: list.splits if_splits)
  have s: "smap_ok (cm_client_num cm)" using assms(1) by (simp add: pool_ok_def)
  have "num_of cm' = num_of cm" using s by (auto simp: r fun_eq_iff)
  moreover have "clients_of cm' = clients_of cm" by (rule clients_of_cong) (simp_all add: r)
  moreover have "pool_of cm' = pool_of cm" "fut_clients_of cm' = fut_clients_of cm"
    by (rule pool_of_cong fut_clients_of_cong, simp add: r)+
  ultimately have "pool_ok U cm'" using assms(1) by (auto simp: pool_ok_def) (auto simp: r smap_ok_put)
  moreover have "clients_of cm ?cid - U = {}" using assms(1) p unfolding pool_ok_def by (metis list.set(1))
  ultimately show ?thesis using n by blast
qed

lemma http_sent_ok:
  assumes "pool_ok U cm" "a \<in> U" "client_id_of (cm_http_heap cm ! a) = getClientId ip port"
    "http_sent x path meth ip port body to a cm = (cm', r)"
  shows "pool_ok (if r = None then U - {a} else U) cm' \<and> (r = None \<or> r = Some a)"
proof -
  obtain c ret where c: "http_send_request x path meth body to (cm_http_heap cm ! a) = (c, ret)" by fastforce
  have id: "client_id_of c = client_id_of (cm_http_heap cm ! a)"
    using http_send_id[of x path meth body to "cm_http_heap cm ! a"] c by simp
  have ok1: "pool_ok U (set_client a c cm)" using set_client_ok[OF assms(1) id] .
  have "a < length (cm_http_heap cm)" using assms(1,2) by (auto simp: pool_ok_def)
  then have "client_id_of (cm_http_heap (set_client a c cm) ! a) = getClientId ip port"
    using id assms(3) by (simp add: set_client_def)
  from push_client_ok[OF ok1 assms(2) this] ok1 c assms(4) show ?thesis
    by (auto simp: http_sent_def Let_def split: if_splits)
qed

lemma http_received_ok:
  assumes "pool_ok U cm" "a \<in> U" "http_received x a cm = (cm', res)"
  shows "pool_ok (U - {a}) cm'"
proof -
  obtain c ret rsp where c: "http_get_response x (cm_http_heap cm ! a) = (c, ret, rsp)"
    by (metis prod_cases3)
  have id: "client_id_of c = client_id_of (cm_http_heap cm ! a)"
    using http_get_id[of x "cm_http_heap cm ! a"] c by simp
  have ok1: "pool_ok U (set_client a c cm)" using set_client_ok[OF assms(1) id] .
  have "a < length (cm_http_heap cm)" using assms(1,2) by (auto simp: pool_ok_def)
  then have "client_id_of (cm_http_heap (set_client a c cm) ! a) = client_id_of (cm_http_heap cm ! a)"
    using id by (simp add: set_client_def)
  from push_client_ok[OF ok1 assms(2) this] c assms(3) show ?thesis by (simp add: http_received_def)
qed

lemma fut_acquire_ok:
  assumes "pool_ok U cm" "fut_acquire_client t ip port cm = (cm', r)"
  shows "pool_ok U cm'"
proof (cases "cm' = cm")
  case False
  let ?cid = "getClientId ip port" and ?t = "nat t"
  let ?p = "smap_put ?cid (length (cm_fut_heap cm)) (cm_fut_pool cm ! ?t)"
  have t: "?t < length (cm_fut_pool cm)" "map_of (cm_fut_pool cm ! ?t) ?cid = None"
    and r: "cm' = cm\<lparr>cm_fut_heap := cm_fut_heap cm @ [(t, future_client_new)],
        cm_client_num := smap_put ?cid (num_of cm ?cid + 1) (cm_client_num cm),
        cm_fut_pool := (cm_fut_pool cm)[?t := ?p]\<rparr>"
    using assms(2) False
    by (auto simp: fut_acquire_client_def Let_def split: if_splits option.splits)
  have s: "smap_ok (cm_fut_pool cm ! ?t)" "smap_ok (cm_client_num cm)" "length (cm_fut_pool cm) = 4"
    using assms(1) t(1) by (auto simp: pool_ok_def)
  have fut: "fut_clients_of cm' c = fut_clients_of cm c + (if c = ?cid then 1 else 0)" for c
  proof (cases "c = ?cid")
    case True
    then show ?thesis
      using t s by (simp add: fut_clients_of_def r length_filter_gain map_of_smap_put)
  next
    case False
    then show ?thesis
      using t s by (simp add: fut_clients_of_def r length_filter_update_same map_of_smap_put)
  qed
  have "card (clients_of cm ?cid) \<le> 101"
    "unat (num_of cm ?cid) = card (clients_of cm ?cid) + fut_clients_of cm ?cid"
    using assms(1) by (simp_all add: pool_ok_def MAX_CLIENT_NUM_def)
  then have "unat (num_of cm ?cid) \<le> 105"
    using fut_clients_of_le[OF s(3), of ?cid] by linarith
  then have n1: "unat (num_of cm ?cid + 1) = unat (num_of cm ?cid) + 1"
    by (simp add: unat_word_ariths)
  have num: "num_of cm' c = (if c = ?cid then num_of cm c + 1 else num_of cm c)" for c
    using s(2) by (simp add: r num_of_def map_of_smap_put)
  have cl: "clients_of cm' = clients_of cm" by (rule clients_of_cong) (simp_all add: r)
  have pool: "pool_of cm' = pool_of cm" by (rule pool_of_cong) (simp add: r)
  show ?thesis
    using assms(1) s t n1 num cl pool fut
    by (auto simp: pool_ok_def r smap_ok_put dest!: set_update_subset_insert[THEN subsetD])
qed (use assms in simp)

section \<open>Properties\<close>

text \<open>Any interleaving of calls: \<open>U\<close> are the HTTP clients that calls hold.\<close>

inductive client_run :: "nat set \<Rightarrow> client_mgr \<Rightarrow> bool" where
  start: "client_run {} client_mgr_new"
| take: "client_run U cm \<Longrightarrow> http_acquire ip port cm = (cm', Some a) \<Longrightarrow> client_run (insert a U) cm'"
| refused: "client_run U cm \<Longrightarrow> http_acquire ip port cm = (cm', None) \<Longrightarrow> client_run U cm'"
| sent: "client_run U cm \<Longrightarrow> a \<in> U \<Longrightarrow> client_id_of (cm_http_heap cm ! a) = getClientId ip port \<Longrightarrow>
    http_sent x path meth ip port body to a cm = (cm', r) \<Longrightarrow>
    client_run (if r = None then U - {a} else U) cm'"
| received: "client_run U cm \<Longrightarrow> a \<in> U \<Longrightarrow> http_received x a cm = (cm', res) \<Longrightarrow> client_run (U - {a}) cm'"
| shared: "client_run U cm \<Longrightarrow> fut_acquire_client t ip port cm = (cm', q) \<Longrightarrow> client_run U cm'"

lemma client_run_ok: "client_run U cm \<Longrightarrow> pool_ok U cm"
proof (induction rule: client_run.induct)
  case start
  show ?case by (rule pool_ok_new)
next
  case (take U cm ip port cm' a)
  then show ?case using http_acquire_ok by blast
next
  case (refused U cm ip port cm')
  then show ?case using http_acquire_refused by blast
next
  case (sent U cm a ip port x path meth body to cm' r)
  then show ?case using http_sent_ok by blast
next
  case (received U cm a x cm' res)
  then show ?case using http_received_ok by blast
next
  case (shared U cm t ip port cm' q)
  then show ?case using fut_acquire_ok by blast
qed

text \<open>\<^bold>\<open>C4\<close>.  In every run of the client manager, a call is only given an HTTP client that no other call
  holds, and one that belongs to the host and port it asked for; every client that no call holds
  waits in the queue of its own host.\<close>

theorem http_client_exclusive:
  assumes "client_run U cm" "http_acquire ip port cm = (cm', Some a)"
  shows "a \<notin> U \<and> client_id_of (cm_http_heap cm' ! a) = getClientId ip port \<and>
    (\<forall>b < length (cm_http_heap cm'). b \<in> insert a U \<or>
       b \<in> set (pool_of cm' (client_id_of (cm_http_heap cm' ! b))))"
proof -
  note h = http_acquire_ok[OF client_run_ok[OF assms(1)] assms(2)]
  then have "\<And>c. set (pool_of cm' c) = clients_of cm' c - insert a U" by (simp add: pool_ok_def)
  with h show ?thesis by (auto simp: clients_of_def)
qed

definition wit_cm1 :: client_mgr where
  "wit_cm1 = fst (http_acquire ''10.0.0.1'' ''80'' client_mgr_new)"

theorem http_client_exclusive_witness:
  "(1 :: nat) \<notin> {0} \<and>
   client_id_of (cm_http_heap (fst (http_acquire ''10.0.0.1'' ''80'' wit_cm1)) ! 1) = getClientId ''10.0.0.1'' ''80''"
proof -
  have "http_acquire ''10.0.0.1'' ''80'' client_mgr_new = (wit_cm1, Some 0)" by code_simp
  from client_run.take[OF client_run.start this] have run: "client_run {0} wit_cm1" by simp
  have "http_acquire ''10.0.0.1'' ''80'' wit_cm1 = (fst (http_acquire ''10.0.0.1'' ''80'' wit_cm1), Some 1)"
    by code_simp
  from http_client_exclusive[OF run this] show ?thesis by simp
qed

text \<open>\<^bold>\<open>C23\<close>.  The number of HTTP connections to one host and port never exceeds 101, one more than the
  limit of 100 that is checked, and a call is refused only when all connections to that host are
  in use.\<close>

theorem http_client_limit:
  assumes "client_run U cm"
  shows "card (clients_of cm cid) \<le> 101 \<and>
    (snd (http_acquire ip port cm) = None \<longrightarrow> clients_of cm (getClientId ip port) \<subseteq> U)"
proof -
  have ok: "pool_ok U cm" using client_run_ok[OF assms] .
  then have "card (clients_of cm cid) \<le> 101" by (simp add: pool_ok_def MAX_CLIENT_NUM_def)
  moreover have "clients_of cm (getClientId ip port) \<subseteq> U" if "snd (http_acquire ip port cm) = None"
    using http_acquire_refused[OF ok, of ip port "fst (http_acquire ip port cm)"] that
    by (metis prod.collapse)
  ultimately show ?thesis by blast
qed

theorem http_client_limit_witness: "card (clients_of wit_cm1 ''10.0.0.1:80'') \<le> 101"
proof -
  have "http_acquire ''10.0.0.1'' ''80'' client_mgr_new = (wit_cm1, Some 0)" by code_simp
  from client_run.take[OF client_run.start this] http_client_limit show ?thesis by blast
qed

end
