(* ===== verification/Call_Logger.thy ===== *)
theory Call_Logger
  imports Fibp_Prelude
begin

text \<open>
  The call log, \<open>log-manager/FibpLogger.cpp\<close>: a ring of a million slots that the request handlers fill
  and one sender drains in the order of the call numbers.  The rows that the sender posts are values
  (\<open>api_point\<close>, \<open>service_points\<close>); their JSON text is rapidjson's.  The averages that it computes in
  doubles are not modelled.  \<open>back()\<close> of an empty vector is undefined and is the value \<open>None\<close>.

  The system of handlers and sender is the step relation \<open>log_step\<close>: the operations of the handlers and
  the turns of the sender's inner loop interleave freely, which is how the threads share the ring.
\<close>

definition MAX_LOG_NUM :: nat where "MAX_LOG_NUM = 1000000"
definition MAX_LOG_SEND_NUM :: nat where "MAX_LOG_SEND_NUM = 1000"

record request_data =
  rd_start_time :: "64 word"
  rd_end_time :: "64 word"
  rd_host_port :: string
  rd_failed_msg :: string

definition request_data_new :: request_data where
  "request_data_new = \<lparr>rd_start_time = 0, rd_end_time = 0, rd_host_port = '''', rd_failed_msg = ''''\<rparr>"

record log_data =
  ld_wait_send :: bool
  ld_id :: "64 word"
  ld_start_time :: "64 word"
  ld_end_time :: "64 word"
  ld_services :: "(string \<times> request_data list) list"

definition log_data_new :: log_data where
  "log_data_new = \<lparr>ld_wait_send = False, ld_id = 0, ld_start_time = 0, ld_end_time = 0, ld_services = []\<rparr>"

definition log_data_reset :: "log_data \<Rightarrow> log_data" where
  "log_data_reset l = l\<lparr>ld_id := 0, ld_start_time := 0, ld_end_time := 0, ld_services := [],
     ld_wait_send := False\<rparr>"

record logger =
  lg_slots :: "nat \<Rightarrow> log_data"
  lg_auto_inc_id :: "64 word"

definition logger_new :: logger where
  "logger_new = \<lparr>lg_slots = (\<lambda>_. log_data_new), lg_auto_inc_id = 0\<rparr>"

definition slot_of :: "64 word \<Rightarrow> nat" where
  "slot_of i = unat i mod MAX_LOG_NUM"

text \<open>The current time is the argument \<open>now\<close>.\<close>

definition startServiceCall :: "64 word \<Rightarrow> logger \<Rightarrow> logger \<times> 64 word" where
  "startServiceCall now lg =
     (let myid = lg_auto_inc_id lg + 1;
          lg1 = lg\<lparr>lg_auto_inc_id := myid\<rparr>;
          l = lg_slots lg1 (slot_of myid)
      in if ld_wait_send l \<or> ld_id l \<noteq> 0 then (lg1, 0)
         else (lg1\<lparr>lg_slots := (lg_slots lg1)(slot_of myid := l\<lparr>ld_start_time := now, ld_id := myid\<rparr>)\<rparr>, myid))"

definition endServiceCall :: "64 word \<Rightarrow> 64 word \<Rightarrow> logger \<Rightarrow> logger" where
  "endServiceCall now i lg =
     (if i = 0 then lg
      else lg\<lparr>lg_slots := (lg_slots lg)(slot_of i :=
             (lg_slots lg (slot_of i))\<lparr>ld_end_time := now, ld_wait_send := True\<rparr>)\<rparr>)"

definition calls_named :: "log_data \<Rightarrow> string \<Rightarrow> request_data list" where
  "calls_named l name = (case map_of (ld_services l) name of Some v \<Rightarrow> v | None \<Rightarrow> [])"

definition sendServiceRequest :: "64 word \<Rightarrow> 64 word \<Rightarrow> string \<Rightarrow> string \<Rightarrow> string \<Rightarrow> logger \<Rightarrow> logger" where
  "sendServiceRequest now i name host port lg =
     (if i = 0 then lg
      else
        (let l = lg_slots lg (slot_of i);
             v = calls_named l name @ [request_data_new\<lparr>rd_start_time := now, rd_host_port := host @ '':'' @ port\<rparr>]
         in lg\<lparr>lg_slots := (lg_slots lg)(slot_of i := l\<lparr>ld_services := smap_put name v (ld_services l)\<rparr>)\<rparr>))"

definition update_last_call :: "(request_data \<Rightarrow> request_data) \<Rightarrow> 64 word \<Rightarrow> string \<Rightarrow> logger \<Rightarrow> logger option" where
  "update_last_call f i name lg =
     (let l = lg_slots lg (slot_of i); v = calls_named l name in
      if v = [] then None
      else Some (lg\<lparr>lg_slots := (lg_slots lg)(slot_of i :=
             l\<lparr>ld_services := smap_put name (butlast v @ [f (last v)]) (ld_services l)\<rparr>)\<rparr>))"

definition getServiceRsp :: "64 word \<Rightarrow> 64 word \<Rightarrow> string \<Rightarrow> logger \<Rightarrow> logger option" where
  "getServiceRsp now i name lg =
     (if i = 0 then Some lg else update_last_call (\<lambda>r. r\<lparr>rd_end_time := now\<rparr>) i name lg)"

definition logServiceFailed :: "64 word \<Rightarrow> string \<Rightarrow> string \<Rightarrow> logger \<Rightarrow> logger option" where
  "logServiceFailed i name failed_msg lg =
     (if i = 0 then Some lg else update_last_call (\<lambda>r. r\<lparr>rd_failed_msg := failed_msg\<rparr>) i name lg)"

section \<open>The sender\<close>

text \<open>One turn of the inner loop of \<open>sendLogToDB\<close> and of \<open>sendLog\<close>: an entry that waits is kept
  unless the sender is \<open>lim\<close> calls behind (the difference wraps at 64 bits), its slot is cleared and the
  sender moves on.  The two loops differ in \<open>lim\<close> only.\<close>

definition lim_db :: nat where "lim_db = MAX_LOG_NUM div 2"
definition lim_storm :: nat where "lim_storm = MAX_LOG_NUM div 10"

definition drain_one :: "nat \<Rightarrow> 64 word \<Rightarrow> 64 word \<Rightarrow> (nat \<Rightarrow> log_data) \<Rightarrow> (bool \<times> log_data \<times> (nat \<Rightarrow> log_data)) option" where
  "drain_one lim auto_inc next_send slots =
     (let l = slots (slot_of next_send) in
      if ld_wait_send l
      then Some (unat (auto_inc - next_send) < lim, l, slots(slot_of next_send := log_data_reset l))
      else None)"

definition waiting :: "(nat \<Rightarrow> log_data) \<Rightarrow> nat set" where
  "waiting slots = {i \<in> {..<MAX_LOG_NUM}. ld_wait_send (slots i)}"

lemma slot_of_less: "slot_of i < MAX_LOG_NUM"
  by (simp add: slot_of_def MAX_LOG_NUM_def)

lemma finite_waiting: "finite (waiting slots)"
  by (simp add: waiting_def)

lemma drain_one_waiting:
  "drain_one lim a n slots = Some (k, l, slots') \<Longrightarrow> card (waiting slots') < card (waiting slots)"
proof -
  assume d: "drain_one lim a n slots = Some (k, l, slots')"
  have w: "ld_wait_send (slots (slot_of n))" and s: "slots' = slots(slot_of n := log_data_reset (slots (slot_of n)))"
    using d by (auto simp: drain_one_def Let_def split: if_splits)
  have "waiting slots' = waiting slots - {slot_of n}"
    unfolding s waiting_def by (auto simp: log_data_reset_def)
  moreover have "slot_of n \<in> waiting slots"
    using w slot_of_less by (simp add: waiting_def)
  ultimately show ?thesis
    using card_Diff1_less[OF finite_waiting] by simp
qed

function drain :: "nat \<Rightarrow> 64 word \<Rightarrow> 64 word \<Rightarrow> nat \<Rightarrow> (nat \<Rightarrow> log_data) \<Rightarrow> 64 word \<times> (nat \<Rightarrow> log_data) \<times> log_data list" where
  "drain lim auto_inc next_send cnt slots =
     (if cnt < MAX_LOG_SEND_NUM
      then
        (case drain_one lim auto_inc next_send slots of
           None \<Rightarrow> (next_send, slots, [])
         | Some (keep, l, slots') \<Rightarrow>
             (case drain lim auto_inc (next_send + 1) (if keep then cnt + 1 else cnt) slots' of
                (n, s, out) \<Rightarrow> (n, s, if keep then l # out else out)))
      else (next_send, slots, []))"
  by pat_completeness auto
termination
  by (relation "measure (\<lambda>(_, _, _, _, slots). card (waiting slots))")
     (auto dest: drain_one_waiting)

declare drain.simps [simp del]

record api_point =
  ap_time :: "64 word"
  ap_logid :: "64 word"
  ap_start :: "64 word"
  ap_end :: "64 word"
  ap_latency :: "64 word"

definition api_point_of :: "log_data \<Rightarrow> api_point" where
  "api_point_of l = \<lparr>ap_time = ld_start_time l, ap_logid = ld_id l, ap_start = ld_start_time l,
     ap_end = ld_end_time l, ap_latency = ld_end_time l - ld_start_time l\<rparr>"

record service_point = api_point +
  sp_service_name :: string
  sp_host_port :: string
  sp_is_fail :: bool
  sp_failed_msg :: string

definition service_point_of :: "64 word \<Rightarrow> string \<Rightarrow> request_data \<Rightarrow> service_point" where
  "service_point_of logid name v =
     \<lparr>ap_time = rd_start_time v, ap_logid = logid, ap_start = rd_start_time v, ap_end = rd_end_time v,
      ap_latency = rd_end_time v - rd_start_time v, sp_service_name = name,
      sp_host_port = rd_host_port v, sp_is_fail = (rd_failed_msg v \<noteq> []), sp_failed_msg = rd_failed_msg v\<rparr>"

definition service_points :: "log_data \<Rightarrow> service_point list" where
  "service_points l = concat (map (\<lambda>(name, vs). map (service_point_of (ld_id l) name) vs) (ld_services l))"

text \<open>A turn of the outer loop: what is posted (\<open>None\<close>: nothing was collected and the sender sleeps).\<close>

definition sendLogToDB_turn :: "64 word \<Rightarrow> logger \<Rightarrow> (64 word \<times> logger) \<times> (api_point list \<times> service_point list) option" where
  "sendLogToDB_turn next_send lg =
     (case drain lim_db (lg_auto_inc_id lg) next_send 0 (lg_slots lg) of
        (n, s, out) \<Rightarrow>
          ((n, lg\<lparr>lg_slots := s\<rparr>),
           if out = [] then None else Some (map api_point_of out, concat (map service_points out))))"

section \<open>Handlers and sender\<close>

text \<open>\<open>ls_open\<close> are the calls that were started and not ended; \<open>ls_sent\<close> the entries kept so far, each with
  the position at which the sender took it.\<close>

record log_sys =
  ls_log :: logger
  ls_next :: "64 word"
  ls_open :: "64 word set"
  ls_sent :: "(64 word \<times> log_data) list"

definition log_sys_new :: log_sys where
  "log_sys_new = \<lparr>ls_log = logger_new, ls_next = 1, ls_open = {}, ls_sent = []\<rparr>"

definition sender_step :: "nat \<Rightarrow> log_sys \<Rightarrow> log_sys option" where
  "sender_step lim s =
     (case drain_one lim (lg_auto_inc_id (ls_log s)) (ls_next s) (lg_slots (ls_log s)) of
        None \<Rightarrow> None
      | Some (keep, l, slots') \<Rightarrow>
          Some (s\<lparr>ls_log := (ls_log s)\<lparr>lg_slots := slots'\<rparr>, ls_next := ls_next s + 1,
                  ls_sent := (if keep then ls_sent s @ [(ls_next s, l)] else ls_sent s)\<rparr>))"

text \<open>Neither the call number nor the sender's position reaches \<open>2^64\<close>.  A handler may abandon a call:
  it returns without \<open>endServiceCall\<close>.\<close>

inductive log_step :: "log_sys \<Rightarrow> log_sys \<Rightarrow> bool" where
  call_start: "lg_auto_inc_id (ls_log s) + 1 \<noteq> 0 \<Longrightarrow> startServiceCall now (ls_log s) = (lg', i) \<Longrightarrow>
     log_step s (s\<lparr>ls_log := lg', ls_open := (if i = 0 then ls_open s else insert i (ls_open s))\<rparr>)"
| call_end: "i \<in> ls_open s \<Longrightarrow>
     log_step s (s\<lparr>ls_log := endServiceCall now i (ls_log s), ls_open := ls_open s - {i}\<rparr>)"
| call_abandon: "i \<in> ls_open s \<Longrightarrow> log_step s (s\<lparr>ls_open := ls_open s - {i}\<rparr>)"
| service_request: "i \<in> ls_open s \<Longrightarrow>
     log_step s (s\<lparr>ls_log := sendServiceRequest now i name host port (ls_log s)\<rparr>)"
| service_answer: "i \<in> ls_open s \<Longrightarrow> getServiceRsp now i name (ls_log s) = Some lg' \<Longrightarrow>
     log_step s (s\<lparr>ls_log := lg'\<rparr>)"
| service_failure: "i \<in> ls_open s \<Longrightarrow> logServiceFailed i name msg (ls_log s) = Some lg' \<Longrightarrow>
     log_step s (s\<lparr>ls_log := lg'\<rparr>)"
| sender: "ls_next s + 1 \<noteq> 0 \<Longrightarrow> lim \<le> lim_db \<Longrightarrow> sender_step lim s = Some s' \<Longrightarrow> log_step s s'"

abbreviation log_run :: "log_sys \<Rightarrow> log_sys \<Rightarrow> bool" where
  "log_run \<equiv> log_step\<^sup>*\<^sup>*"


section \<open>Every reachable state\<close>

definition slot_ok :: "64 word \<Rightarrow> 64 word \<Rightarrow> nat \<Rightarrow> log_data \<Rightarrow> bool" where
  "slot_ok next_send auto k l \<longleftrightarrow>
     (if ld_id l = 0 then \<not> ld_wait_send l else slot_of (ld_id l) = k \<and> next_send \<le> ld_id l \<and> ld_id l \<le> auto)"

definition log_inv :: "log_sys \<Rightarrow> bool" where
  "log_inv s \<longleftrightarrow>
     ls_next s \<noteq> 0 \<and> unat (ls_next s) \<le> Suc (unat (lg_auto_inc_id (ls_log s))) \<and>
     (\<forall>k. slot_ok (ls_next s) (lg_auto_inc_id (ls_log s)) k (lg_slots (ls_log s) k)) \<and>
     (\<forall>i \<in> ls_open s. i \<noteq> 0 \<and> ld_id (lg_slots (ls_log s) (slot_of i)) = i \<and>
        \<not> ld_wait_send (lg_slots (ls_log s) (slot_of i))) \<and>
     (\<forall>(n, l) \<in> set (ls_sent s). ld_id l = n \<and> n < ls_next s) \<and>
     sorted_wrt (<) (map fst (ls_sent s))"

lemma unat_succ: "(w :: 64 word) + 1 \<noteq> 0 \<Longrightarrow> unat (w + 1) = Suc (unat w)"
  by (simp add: unatSuc add.commute)

lemma succ_nonzero: "unat (w :: 64 word) + 1 < 2 ^ 64 \<Longrightarrow> w + 1 \<noteq> 0"
proof
  assume "unat w + 1 < 2 ^ 64" "w + 1 = 0"
  then show False using unat_word_ariths(1)[of w 1] by simp
qed

text \<open>An update of a slot that changes neither its number nor its mark keeps the invariant.\<close>

definition same_mark :: "log_data \<Rightarrow> log_data \<Rightarrow> bool" where
  "same_mark l l' \<longleftrightarrow> ld_id l' = ld_id l \<and> ld_wait_send l' = ld_wait_send l"

definition same_marks :: "logger \<Rightarrow> logger \<Rightarrow> bool" where
  "same_marks lg lg' \<longleftrightarrow> lg_auto_inc_id lg' = lg_auto_inc_id lg \<and>
     (\<forall>k. same_mark (lg_slots lg k) (lg_slots lg' k))"

lemma same_marks_request: "same_marks lg (sendServiceRequest now i name host port lg)"
  by (simp add: same_marks_def same_mark_def sendServiceRequest_def Let_def)

lemma same_marks_update: "update_last_call f i name lg = Some lg' \<Longrightarrow> same_marks lg lg'"
  by (auto simp: same_marks_def same_mark_def update_last_call_def Let_def split: if_splits)

lemma same_marks_refl: "same_marks lg lg"
  by (simp add: same_marks_def same_mark_def)

lemma same_marks_answer: "getServiceRsp now i name lg = Some lg' \<Longrightarrow> same_marks lg lg'"
  by (auto simp: getServiceRsp_def same_marks_refl same_marks_update split: if_splits)

lemma same_marks_failure: "logServiceFailed i name msg lg = Some lg' \<Longrightarrow> same_marks lg lg'"
  by (auto simp: logServiceFailed_def same_marks_refl same_marks_update split: if_splits)

lemma log_inv_same_marks:
  "log_inv s \<Longrightarrow> same_marks (ls_log s) lg' \<Longrightarrow> log_inv (s\<lparr>ls_log := lg'\<rparr>)"
  by (simp add: log_inv_def same_marks_def same_mark_def slot_ok_def)

lemma log_inv_start:
  assumes inv: "log_inv s" and nz: "lg_auto_inc_id (ls_log s) + 1 \<noteq> 0"
    and st: "startServiceCall now (ls_log s) = (lg', i)"
  shows "log_inv (s\<lparr>ls_log := lg', ls_open := (if i = 0 then ls_open s else insert i (ls_open s))\<rparr>)"
proof -
  let ?a = "lg_auto_inc_id (ls_log s)"
  let ?l = "lg_slots (ls_log s) (slot_of (?a + 1))"
  have u: "unat (?a + 1) = Suc (unat ?a)" using nz by (rule unat_succ)
  have mono: "slot_ok (ls_next s) (?a + 1) k l" if "slot_ok (ls_next s) ?a k l" for k l
    using that u by (auto simp: slot_ok_def word_le_nat_alt split: if_splits)
  have own: "slot_of j \<noteq> slot_of (?a + 1)" if "j \<in> ls_open s" "ld_id ?l = 0" for j
    using that inv by (auto simp: log_inv_def)
  show ?thesis
  proof (cases "ld_wait_send ?l \<or> ld_id ?l \<noteq> 0")
    case True
    then have "lg' = (ls_log s)\<lparr>lg_auto_inc_id := ?a + 1\<rparr>" "i = 0"
      using st by (auto simp: startServiceCall_def Let_def)
    then show ?thesis using inv u mono by (simp add: log_inv_def)
  next
    case False
    then have "lg' = (ls_log s)\<lparr>lg_auto_inc_id := ?a + 1, lg_slots := (lg_slots (ls_log s))
        (slot_of (?a + 1) := ?l\<lparr>ld_start_time := now, ld_id := ?a + 1\<rparr>)\<rparr>" "i = ?a + 1"
      using st by (auto simp: startServiceCall_def Let_def)
    moreover have "slot_ok (ls_next s) (?a + 1) (slot_of (?a + 1)) (?l\<lparr>ld_start_time := now, ld_id := ?a + 1\<rparr>)"
      using inv nz u by (simp add: slot_ok_def log_inv_def word_le_nat_alt)
    ultimately show ?thesis using inv u mono own False nz
      by (auto simp: log_inv_def)
  qed
qed

lemma log_inv_end:
  assumes inv: "log_inv s" and i: "i \<in> ls_open s"
  shows "log_inv (s\<lparr>ls_log := endServiceCall now i (ls_log s), ls_open := ls_open s - {i}\<rparr>)"
proof -
  have own: "slot_of j \<noteq> slot_of i" if "j \<in> ls_open s" "j \<noteq> i" for j
    using that i inv unfolding log_inv_def by metis
  let ?l = "lg_slots (ls_log s) (slot_of i)"
  have "i \<noteq> 0" "ld_id ?l = i" using i inv by (auto simp: log_inv_def)
  moreover have "slot_ok (ls_next s) (lg_auto_inc_id (ls_log s)) (slot_of i) ?l"
    using inv by (simp add: log_inv_def)
  ultimately have "slot_ok (ls_next s) (lg_auto_inc_id (ls_log s)) (slot_of i)
      (?l\<lparr>ld_end_time := now, ld_wait_send := True\<rparr>)"
    by (simp add: slot_ok_def)
  then show ?thesis using inv i own \<open>i \<noteq> 0\<close> by (auto simp: log_inv_def endServiceCall_def)
qed

text \<open>The entry that the sender keeps is the one numbered by its position: the slot can only hold a
  number that is congruent to the position, not smaller, and not greater than the last number given
  out, which is less than half a ring ahead.\<close>

lemma kept_entry_number:
  assumes ok: "slot_ok n a (slot_of n) l" and w: "ld_wait_send l" and k: "unat (a - n) < lim_db"
  shows "ld_id l = n"
proof -
  have id: "slot_of (ld_id l) = slot_of n" "unat n \<le> unat (ld_id l)" "unat (ld_id l) \<le> unat a"
    using ok w by (auto simp: slot_ok_def word_le_nat_alt split: if_splits)
  then have "unat (a - n) = unat a - unat n"
    by (intro unat_sub) (simp add: word_le_nat_alt)
  then have "unat (ld_id l) - unat n < MAX_LOG_NUM"
    using k id by (simp add: lim_db_def MAX_LOG_NUM_def)
  moreover have "(unat (ld_id l) - unat n) mod MAX_LOG_NUM = 0"
    using id(1,2) by (simp add: slot_of_def mod_eq_dvd_iff_nat)
  ultimately have "unat (ld_id l) = unat n" using id(2) by simp
  then show ?thesis by (simp add: word_unat_eq_iff)
qed

lemma log_inv_sender:
  assumes inv: "log_inv s" and nz: "ls_next s + 1 \<noteq> 0" and lim: "lim \<le> lim_db"
    and st: "sender_step lim s = Some s'"
  shows "log_inv s'"
proof -
  let ?a = "lg_auto_inc_id (ls_log s)" and ?n = "ls_next s" and ?sl = "lg_slots (ls_log s)"
  let ?l = "?sl (slot_of ?n)"
  have w: "ld_wait_send ?l"
    and s': "s' = s\<lparr>ls_log := (ls_log s)\<lparr>lg_slots := ?sl(slot_of ?n := log_data_reset ?l)\<rparr>, ls_next := ?n + 1,
       ls_sent := (if unat (?a - ?n) < lim then ls_sent s @ [(?n, ?l)] else ls_sent s)\<rparr>"
    using st by (auto simp: sender_step_def drain_one_def Let_def split: if_splits)
  have u: "unat (?n + 1) = Suc (unat ?n)" using nz by (rule unat_succ)
  have ok: "slot_ok ?n ?a k (?sl k)" for k using inv by (simp add: log_inv_def)
  have le: "unat ?n \<le> unat ?a"
    using ok[of "slot_of ?n"] w by (auto simp: slot_ok_def word_le_nat_alt split: if_splits)
  have ok': "slot_ok (?n + 1) ?a k (?sl k)" if "k \<noteq> slot_of ?n" for k
  proof (cases "ld_id (?sl k) = 0")
    case False
    then have "unat ?n \<le> unat (ld_id (?sl k))" "unat ?n \<noteq> unat (ld_id (?sl k))"
      using ok[of k] that by (auto simp: slot_ok_def word_le_nat_alt word_unat_eq_iff[symmetric])
    then show ?thesis using ok[of k] False u by (simp add: slot_ok_def word_le_nat_alt)
  qed (use ok[of k] in \<open>simp add: slot_ok_def\<close>)
  have own: "slot_of j \<noteq> slot_of ?n" if "j \<in> ls_open s" for j
    using that w inv unfolding log_inv_def by metis
  have kept: "ld_id ?l = ?n" if "unat (?a - ?n) < lim"
    by (rule kept_entry_number[OF ok w]) (use that lim in simp)
  have lt: "m < ?n + 1" if "m < ?n" for m
    using that u by (simp add: word_less_nat_alt)
  show ?thesis
    using inv nz u le ok' own kept lt unfolding s'
    by (auto simp: log_inv_def sorted_wrt_append log_data_reset_def slot_ok_def word_less_nat_alt)
qed

lemma log_inv_step: "log_step s s' \<Longrightarrow> log_inv s \<Longrightarrow> log_inv s'"
proof (induction rule: log_step.induct)
  case (call_abandon i s)
  then show ?case by (auto simp: log_inv_def)
qed (simp_all add: log_inv_start log_inv_end log_inv_sender log_inv_same_marks same_marks_request
    same_marks_answer same_marks_failure)

lemma log_inv_new: "log_inv log_sys_new"
  by (simp add: log_inv_def log_sys_new_def logger_new_def log_data_new_def slot_ok_def)

lemma log_inv_reachable: "log_run log_sys_new s \<Longrightarrow> log_inv s"
  by (induction rule: rtranclp_induct) (auto intro: log_inv_new log_inv_step)

lemma log_inv_run: "log_run s s' \<Longrightarrow> log_inv s \<Longrightarrow> log_inv s'"
  by (induction rule: rtranclp_induct) (auto intro: log_inv_step)


text \<open>A turn of the outer loop that no handler interrupts is a sequence of sender steps, as long as the
  position does not wrap: \<open>unat n + card (waiting slots) < 2 ^ 64\<close>.\<close>

lemma drain_run:
  "drain lim a n cnt slots = (n', slots', out) \<Longrightarrow> unat n + card (waiting slots) < 2 ^ 64 \<Longrightarrow>
    ls_next s = n \<Longrightarrow> lg_slots (ls_log s) = slots \<Longrightarrow> lg_auto_inc_id (ls_log s) = a \<Longrightarrow> lim \<le> lim_db \<Longrightarrow>
    \<exists>new. map snd new = out \<and>
      log_run s (s\<lparr>ls_log := (ls_log s)\<lparr>lg_slots := slots'\<rparr>, ls_next := n', ls_sent := ls_sent s @ new\<rparr>)"
proof (induction lim a n cnt slots arbitrary: n' slots' out s rule: drain.induct)
  case (1 lim a n cnt slots)
  show ?case
  proof (cases "cnt < MAX_LOG_SEND_NUM \<and> drain_one lim a n slots \<noteq> None")
    case False
    then have "n' = n" "slots' = slots" "out = []"
      using "1.prems"(1) by (auto simp: drain.simps[of lim a n cnt slots] split: if_splits option.splits)
    moreover have "s\<lparr>ls_log := (ls_log s)\<lparr>lg_slots := slots\<rparr>, ls_next := n, ls_sent := ls_sent s @ []\<rparr> = s"
      using "1.prems"(3,4) by simp
    ultimately show ?thesis by (intro exI[of _ "[]"]) simp
  next
    case True
    then obtain k l sl where d: "drain_one lim a n slots = Some (k, l, sl)" and c: "cnt < MAX_LOG_SEND_NUM"
      by auto
    obtain m t o' where r: "drain lim a (n + 1) (if k then cnt + 1 else cnt) sl = (m, t, o')"
      by (metis prod_cases3)
    then have res: "n' = m" "slots' = t" "out = (if k then l # o' else o')"
      using "1.prems"(1) d c by (auto simp: drain.simps[of lim a n cnt slots])
    let ?s1 = "s\<lparr>ls_log := (ls_log s)\<lparr>lg_slots := sl\<rparr>, ls_next := n + 1,
       ls_sent := (if k then ls_sent s @ [(n, l)] else ls_sent s)\<rparr>"
    have less: "card (waiting sl) < card (waiting slots)" using d by (rule drain_one_waiting)
    then have nz: "n + 1 \<noteq> 0" using "1.prems"(2) by (intro succ_nonzero) simp
    have sz: "unat (n + 1) + card (waiting sl) < 2 ^ 64"
      using "1.prems"(2) less unat_succ[OF nz] by simp
    have step: "log_step s ?s1"
      using nz d "1.prems"(3-6)
      by (intro log_step.sender[of s lim]) (auto simp: sender_step_def)
    obtain new where "map snd new = o'"
      "log_run ?s1 (?s1\<lparr>ls_log := (ls_log ?s1)\<lparr>lg_slots := t\<rparr>, ls_next := m, ls_sent := ls_sent ?s1 @ new\<rparr>)"
      using "1.IH"[OF c d refl refl r sz, of ?s1] "1.prems"(5,6) by auto
    then show ?thesis
      using step res by (intro exI[of _ "if k then (n, l) # new else new"]) (auto intro: converse_rtranclp_into_rtranclp)
  qed
qed

text \<open>\<^bold>\<open>C5\<close>. In every interleaving of handlers and sender, an open call still owns the slot of its number, and
  the entries that the sender keeps are exactly those of its successive positions: each kept entry
  carries the number of the position at which it was taken, and the numbers strictly increase.\<close>

theorem log_entries_in_order:
  assumes "log_run log_sys_new s"
  shows "map (ld_id \<circ> snd) (ls_sent s) = map fst (ls_sent s) \<and> sorted_wrt (<) (map (ld_id \<circ> snd) (ls_sent s)) \<and>
    {i \<in> ls_open s. ld_id (lg_slots (ls_log s) (slot_of i)) \<noteq> i} = {}"
proof -
  have inv: "log_inv s" using assms by (rule log_inv_reachable)
  then have eq: "map (ld_id \<circ> snd) (ls_sent s) = map fst (ls_sent s)"
    by (auto simp: log_inv_def)
  show ?thesis unfolding eq using inv by (auto simp: log_inv_def)
qed

definition log_started :: log_sys where
  "log_started = log_sys_new\<lparr>ls_log := fst (startServiceCall 7 logger_new), ls_open := {1}\<rparr>"

definition log_ended :: log_sys where
  "log_ended = log_started\<lparr>ls_log := endServiceCall 9 1 (ls_log log_started), ls_open := {}\<rparr>"

definition log_drained :: log_sys where
  "log_drained = the (sender_step lim_db log_ended)"

lemmas log_witness_defs = log_started_def log_ended_def log_drained_def log_sys_new_def logger_new_def
  startServiceCall_def endServiceCall_def sender_step_def drain_one_def log_data_new_def log_data_reset_def
  slot_of_def lim_db_def MAX_LOG_NUM_def Let_def

lemma log_started_run: "log_run log_sys_new log_started"
proof -
  have "log_step log_sys_new log_started"
    using log_step.call_start[of log_sys_new 7 "fst (startServiceCall 7 logger_new)" 1]
    by (simp add: log_witness_defs)
  then show ?thesis by blast
qed

lemma log_drained_run: "log_run log_sys_new log_drained"
proof -
  have "log_step log_started log_ended"
    using log_step.call_end[of 1 log_started 9] by (simp add: log_ended_def log_started_def)
  moreover have "log_step log_ended log_drained"
    using log_step.sender[of log_ended lim_db log_drained] by (simp add: log_witness_defs)
  ultimately show ?thesis using log_started_run by (meson rtranclp.rtrancl_into_rtrancl)
qed

theorem log_entries_in_order_witness:
  "log_run log_sys_new log_drained \<and> map fst (ls_sent log_drained) = [1] \<and>
   map (ld_id \<circ> snd) (ls_sent log_drained) = [1]"
proof -
  have "map fst (ls_sent log_drained) = [1]" by (simp add: log_witness_defs)
  then show ?thesis using log_drained_run log_entries_in_order[OF log_drained_run] by simp
qed

lemma stuck_step:
  assumes "log_step s s'"
  shows "log_inv s \<Longrightarrow> ls_next s = n \<Longrightarrow> ls_sent s = out \<Longrightarrow>
    ld_id (lg_slots (ls_log s) (slot_of n)) = j \<Longrightarrow> j \<noteq> 0 \<Longrightarrow>
    \<not> ld_wait_send (lg_slots (ls_log s) (slot_of n)) \<Longrightarrow> j \<notin> ls_open s \<Longrightarrow> unat j \<le> unat (lg_auto_inc_id (ls_log s)) \<Longrightarrow>
    ls_next s' = n \<and> ls_sent s' = out \<and> ld_id (lg_slots (ls_log s') (slot_of n)) = j \<and>
    \<not> ld_wait_send (lg_slots (ls_log s') (slot_of n)) \<and> j \<notin> ls_open s' \<and> unat j \<le> unat (lg_auto_inc_id (ls_log s'))"
  using assms
proof (induction rule: log_step.induct)
  case (call_start s now lg' i)
  then show ?case
    using unat_succ[of "lg_auto_inc_id (ls_log s)"]
    by (auto simp: startServiceCall_def Let_def split: if_splits)
next
  case (call_end i s now)
  then have "slot_of i \<noteq> slot_of n" by (auto simp: log_inv_def)
  then show ?case using call_end by (auto simp: endServiceCall_def)
next
  case (sender s lim s')
  then show ?case by (auto simp: sender_step_def drain_one_def Let_def)
next
  case (service_request i s now name host port)
  then show ?case
    using same_marks_request[of "ls_log s" now i name host port] by (simp add: same_marks_def same_mark_def)
next
  case (service_answer i s now name lg')
  then show ?case
    using same_marks_answer[OF service_answer(2)] by (simp add: same_marks_def same_mark_def)
next
  case (service_failure i s name msg lg')
  then show ?case
    using same_marks_failure[OF service_failure(2)] by (simp add: same_marks_def same_mark_def)
qed simp

lemma stuck_run:
  assumes "log_inv s" "log_run s s'"
    and "ld_id (lg_slots (ls_log s) (slot_of (ls_next s))) \<noteq> 0"
    and "\<not> ld_wait_send (lg_slots (ls_log s) (slot_of (ls_next s)))"
    and "ld_id (lg_slots (ls_log s) (slot_of (ls_next s))) \<notin> ls_open s"
  shows "ls_next s' = ls_next s \<and> ls_sent s' = ls_sent s \<and>
    ld_id (lg_slots (ls_log s') (slot_of (ls_next s))) \<noteq> 0 \<and> \<not> ld_wait_send (lg_slots (ls_log s') (slot_of (ls_next s)))"
proof -
  let ?n = "ls_next s" and ?j = "ld_id (lg_slots (ls_log s) (slot_of (ls_next s)))"
  have j: "unat ?j \<le> unat (lg_auto_inc_id (ls_log s))"
    using assms(1,3) by (auto simp: log_inv_def slot_ok_def word_le_nat_alt dest: spec[of _ "slot_of ?n"])
  have "log_inv s' \<and> ls_next s' = ?n \<and> ls_sent s' = ls_sent s \<and> ld_id (lg_slots (ls_log s') (slot_of ?n)) = ?j \<and>
    \<not> ld_wait_send (lg_slots (ls_log s') (slot_of ?n)) \<and> ?j \<notin> ls_open s' \<and> unat ?j \<le> unat (lg_auto_inc_id (ls_log s'))"
    using assms(2)
  proof (induction rule: rtranclp_induct)
    case base
    then show ?case using assms j by simp
  next
    case (step y z)
    then show ?case using stuck_step[OF step(2), of ?n "ls_sent s" ?j] log_inv_step[OF step(2)] assms(3) by auto
  qed
  then show ?thesis using assms(3) by simp
qed

text \<open>A call that is started and never ended blocks the sender for good: once the sender stands at its
  slot, it keeps its position and sends nothing more, whatever the handlers do.  The position is then
  also refused to every later call with the same remainder.\<close>

theorem unended_call_stalls_sender:
  assumes "log_run log_sys_new s" "log_run s s'"
    and "ld_id (lg_slots (ls_log s) (slot_of (ls_next s))) \<noteq> 0"
    and "\<not> ld_wait_send (lg_slots (ls_log s) (slot_of (ls_next s)))"
    and "ld_id (lg_slots (ls_log s) (slot_of (ls_next s))) \<notin> ls_open s"
  shows "ls_next s' = ls_next s \<and> ls_sent s' = ls_sent s \<and> sender_step lim s' = None"
  using stuck_run[OF log_inv_reachable[OF assms(1)] assms(2-5)] by (simp add: sender_step_def drain_one_def)

definition log_abandoned :: log_sys where
  "log_abandoned = log_started\<lparr>ls_open := {}\<rparr>"

theorem unended_call_stalls_sender_witness:
  "log_run log_sys_new log_abandoned \<and> ls_next log_abandoned = 1 \<and>
   (\<exists>s'. log_run log_abandoned s' \<and> lg_auto_inc_id (ls_log s') = 2 \<and> ls_next s' = 1 \<and> ls_sent s' = [] \<and>
      sender_step lim_db s' = None)"
proof -
  have a: "log_run log_sys_new log_abandoned"
    using log_started_run log_step.call_abandon[of 1 log_started]
    by (simp add: log_abandoned_def log_started_def)
  let ?t = "log_abandoned\<lparr>ls_log := fst (startServiceCall 8 (ls_log log_abandoned)), ls_open := {2}\<rparr>"
  have t: "log_run log_abandoned ?t"
    using log_step.call_start[of log_abandoned 8 "fst (startServiceCall 8 (ls_log log_abandoned))" 2]
    by (intro r_into_rtranclp) (simp add: log_abandoned_def log_witness_defs)
  have "ls_next ?t = ls_next log_abandoned \<and> ls_sent ?t = ls_sent log_abandoned \<and> sender_step lim_db ?t = None"
    by (rule unended_call_stalls_sender[OF a t]) (simp_all add: log_abandoned_def log_witness_defs)
  moreover have "ls_next log_abandoned = 1" "ls_sent log_abandoned = []" "lg_auto_inc_id (ls_log ?t) = 2"
    by (simp_all add: log_abandoned_def log_witness_defs)
  ultimately show ?thesis using a t by (intro conjI exI[of _ ?t]) simp_all
qed

text \<open>\<^bold>\<open>C24\<close>. A turn of \<open>sendLogToDB\<close> posts the rows of distinct calls in increasing order of their numbers, and
  the state it leaves is one that the interleaved system reaches: what holds of that system holds after
  the turn.\<close>

theorem db_turn_posts_in_order:
  assumes "log_run log_sys_new s"
    and "sendLogToDB_turn (ls_next s) (ls_log s) = ((n', lg'), Some (aps, sps))"
    and "unat (ls_next s) + card (waiting (lg_slots (ls_log s))) < 2 ^ 64"
  shows "sorted_wrt (<) (map ap_logid aps) \<and> (\<exists>s'. log_run s s' \<and> ls_log s' = lg' \<and> ls_next s' = n')"
proof -
  obtain sl out where d: "drain lim_db (lg_auto_inc_id (ls_log s)) (ls_next s) 0 (lg_slots (ls_log s)) = (n', sl, out)"
    and lg': "lg' = (ls_log s)\<lparr>lg_slots := sl\<rparr>" and aps: "aps = map api_point_of out"
    using assms(2) by (auto simp: sendLogToDB_turn_def split: prod.splits if_splits)
  obtain new where new: "map snd new = out"
    and run: "log_run s (s\<lparr>ls_log := (ls_log s)\<lparr>lg_slots := sl\<rparr>, ls_next := n', ls_sent := ls_sent s @ new\<rparr>)"
    using drain_run[OF d assms(3) refl refl refl] by auto
  have "log_inv (s\<lparr>ls_log := (ls_log s)\<lparr>lg_slots := sl\<rparr>, ls_next := n', ls_sent := ls_sent s @ new\<rparr>)"
    using run log_inv_reachable[OF assms(1)] by (rule log_inv_run)
  then have "sorted_wrt (<) (map fst new)" and "\<forall>x \<in> set new. ld_id (snd x) = fst x"
    by (simp_all add: log_inv_def sorted_wrt_append split_beta)
  moreover have "map ap_logid aps = map (ld_id \<circ> snd) new"
    unfolding aps new[symmetric] by (simp add: api_point_of_def)
  moreover have "map (ld_id \<circ> snd) new = map fst new" if "\<forall>x \<in> set new. ld_id (snd x) = fst x"
    using that by (simp add: comp_def)
  ultimately have "sorted_wrt (<) (map ap_logid aps)" by metis
  then show ?thesis using run lg' by auto
qed

lemma card_waiting: "card (waiting slots) \<le> MAX_LOG_NUM"
  using card_mono[of "{..<MAX_LOG_NUM}" "waiting slots"] by (auto simp: waiting_def)

theorem db_turn_posts_in_order_witness:
  "\<exists>p lg' sps. log_run log_sys_new log_ended \<and>
     sendLogToDB_turn (ls_next log_ended) (ls_log log_ended) = ((2, lg'), Some ([p], sps)) \<and> ap_logid p = 1 \<and>
     sorted_wrt (<) (map ap_logid [p]) \<and> (\<exists>s'. log_run log_ended s' \<and> ls_log s' = lg' \<and> ls_next s' = 2)"
proof -
  have run: "log_run log_sys_new log_ended"
    using log_started_run log_step.call_end[of 1 log_started 9]
    by (simp add: log_ended_def log_started_def)
  have t: "\<exists>p lg' sps. sendLogToDB_turn (ls_next log_ended) (ls_log log_ended) = ((2, lg'), Some ([p], sps)) \<and> ap_logid p = 1"
    by (simp add: sendLogToDB_turn_def drain.simps MAX_LOG_SEND_NUM_def log_witness_defs api_point_of_def)
  have n: "unat (ls_next log_ended) + card (waiting (lg_slots (ls_log log_ended))) < 2 ^ 64"
    using card_waiting[of "lg_slots (ls_log log_ended)"] by (simp add: log_witness_defs)
  from t obtain p lg' sps where
    p: "sendLogToDB_turn (ls_next log_ended) (ls_log log_ended) = ((2, lg'), Some ([p], sps))" "ap_logid p = 1" by blast
  show ?thesis using db_turn_posts_in_order[OF run p(1) n] run p by blast
qed

end
