(* ===== verification/Forward_Mgr.thy ===== *)
theory Forward_Mgr
  imports Service_Registry Client_Mgr Call_Logger "HOL-Library.AList"
begin

text \<open>
  Calling services, \<open>forward-manager/FibpForwardManager.cpp\<close>, with the response cache
  (\<open>FibpServiceCache.cpp\<close>) and the transaction messages (\<open>FibpTransactionMgr.cpp\<close>).

  A call runs in a fiber that is suspended while it sends and receives.  What the rest of the program does
  meanwhile is an argument of each attempt: the registry as it is at that attempt, the outcome of the
  exchange with the chosen host, and the effect of the other fibers on the shared counters and cache.
  The log operations are a list of events in the order of the calls.  The cache of izenelib is a record of
  functions; \<open>cache_ok\<close> is what its documentation promises: it may forget entries, it never invents them.
\<close>

section \<open>The response cache\<close>

record 'c cache_lib =
  cl_get :: "ServiceCallReq \<Rightarrow> 'c \<Rightarrow> 'c \<times> ServiceCallRsp option"
  cl_insert :: "ServiceCallReq \<Rightarrow> ServiceCallRsp \<Rightarrow> 'c \<Rightarrow> 'c"
  cl_clear :: "'c \<Rightarrow> 'c"

definition cache_has :: "'c cache_lib \<Rightarrow> 'c \<Rightarrow> ServiceCallReq \<Rightarrow> ServiceCallRsp \<Rightarrow> bool" where
  "cache_has C c k v \<longleftrightarrow> snd (cl_get C k c) = Some v"

definition cache_ok :: "'c cache_lib \<Rightarrow> bool" where
  "cache_ok C \<longleftrightarrow>
     (\<forall>c k k' v. cache_has C (fst (cl_get C k' c)) k v \<longrightarrow> cache_has C c k v) \<and>
     (\<forall>c k k' v w. cache_has C (cl_insert C k' w c) k v \<longrightarrow>
        (if call_req_eq k' k then v = w else cache_has C c k v)) \<and>
     (\<forall>c k v. \<not> cache_has C (cl_clear C c) k v)"

text \<open>An implementation that has these properties: an association list that forgets nothing.\<close>

definition ref_cache :: "(ServiceCallReq \<times> ServiceCallRsp) list cache_lib" where
  "ref_cache = \<lparr>cl_get = (\<lambda>k c. (c, map_option snd (find (\<lambda>(q, _). call_req_eq q k) c))),
     cl_insert = (\<lambda>k v c. (k, v) # c), cl_clear = (\<lambda>_. [])\<rparr>"

lemma ref_cache_ok: "cache_ok ref_cache"
  by (simp add: cache_ok_def cache_has_def ref_cache_def)

definition FibpServiceCache_get :: "'c cache_lib \<Rightarrow> ServiceCallReq \<Rightarrow> ServiceCallRsp \<Rightarrow> 'c \<Rightarrow> 'c \<times> ServiceCallRsp \<times> bool" where
  "FibpServiceCache_get C req rsp c =
     (if \<not> req_enable_cache req then (c, rsp, False)
      else
        (case cl_get C req c of
           (c', Some tmp) \<Rightarrow> (c', tmp\<lparr>rsp_is_cached := True\<rparr>, True)
         | (c', None) \<Rightarrow> (c', rsp, False)))"

definition FibpServiceCache_set :: "'c cache_lib \<Rightarrow> ServiceCallReq \<Rightarrow> ServiceCallRsp \<Rightarrow> 'c \<Rightarrow> 'c" where
  "FibpServiceCache_set C req rsp c =
     (if rsp_error rsp \<noteq> [] \<or> \<not> req_enable_cache req then c else cl_insert C req rsp c)"

definition FibpServiceCache_clear :: "'c cache_lib \<Rightarrow> 'c \<Rightarrow> 'c" where
  "FibpServiceCache_clear C c = cl_clear C c"

section \<open>One call\<close>

datatype log_event =
    Log_send "64 word" string string string
  | Log_rsp "64 word" string
  | Log_failed "64 word" string string

datatype send_result = Send_failed | Send_throw | Reply bool string bool

record 'c forward_state =
  fw_cache :: 'c
  fw_fail_stat :: "(string \<times> 32 word) list"

record 'c attempt_env =
  ae_registry :: service_mgr
  ae_send :: "string \<Rightarrow> string \<Rightarrow> int \<Rightarrow> send_result"
  ae_others :: "'c forward_state \<Rightarrow> 'c forward_state"

record 'c call_state =
  cs_fw :: "'c forward_state"
  cs_rsp :: ServiceCallRsp
  cs_log :: "log_event list"
  cs_success :: bool

definition MAX_RETRY :: nat where "MAX_RETRY = 3"

definition local_test :: string where "local_test = ''local_test''"

definition fail_count :: "'c forward_state \<Rightarrow> string \<Rightarrow> 32 word" where
  "fail_count fw name = (case map_of (fw_fail_stat fw) name of Some n \<Rightarrow> n | None \<Rightarrow> 0)"

definition bump_fail :: "string \<Rightarrow> 'c forward_state \<Rightarrow> 'c forward_state" where
  "bump_fail name fw = fw\<lparr>fw_fail_stat := (name, fail_count fw name + 1) # AList.delete name (fw_fail_stat fw)\<rparr>"

text \<open>The loop \<open>while(++retry_counter <= MAX_RETRY)\<close> with \<open>n\<close> attempts left.  \<open>None\<close>: the \<open>throw -1\<close> of the
  client manager leaves the function.\<close>

fun call_attempts ::
  "(nat \<Rightarrow> 'c attempt_env) \<Rightarrow> 64 word \<Rightarrow> ServiceCallReq \<Rightarrow> nat \<Rightarrow> 64 word \<Rightarrow> 'c call_state \<Rightarrow> 'c call_state option" where
  "call_attempts E i req 0 balance_index st = Some st"
| "call_attempts E i req (Suc n) balance_index st =
     (let retry_counter = MAX_RETRY - n;
          e = E retry_counter;
          name = req_service_name req
      in case get_service_address (ae_registry e) (balance_index + 1) name (req_service_type req) of
           None \<Rightarrow> Some (st\<lparr>cs_rsp := (cs_rsp st)\<lparr>rsp_error := ''Service Not Found.''\<rparr>\<rparr>)
         | Some (ip, port) \<Rightarrow>
             (let st1 = st\<lparr>cs_log := cs_log st @ [Log_send i name ip port],
                           cs_rsp := (cs_rsp st)\<lparr>rsp_host := ip, rsp_port := port\<rparr>,
                           cs_fw := ae_others e (cs_fw st)\<rparr>
              in case ae_send e ip port (5000 * int retry_counter) of
                   Send_throw \<Rightarrow> None
                 | Send_failed \<Rightarrow>
                     call_attempts E i req n (balance_index + 1)
                       (st1\<lparr>cs_log := cs_log st1 @ [Log_failed i name ''Send Data Failed.''],
                            cs_fw := bump_fail name (cs_fw st1),
                            cs_rsp := (if retry_counter = MAX_RETRY
                              then (cs_rsp st1)\<lparr>rsp_error := ''Send Service Request Failed. ''\<rparr> else cs_rsp st1)\<rparr>)
                 | Reply ret rspdata can_retry \<Rightarrow>
                     (let st2 = st1\<lparr>cs_log := cs_log st1 @ [Log_rsp i name]\<rparr>
                      in if ret
                         then Some (st2\<lparr>cs_rsp := (cs_rsp st2)\<lparr>rsp_rsp := rspdata\<rparr>, cs_success := True\<rparr>)
                         else
                           (let st3 = st2\<lparr>cs_log := cs_log st2 @ [Log_failed i name rspdata],
                                          cs_fw := bump_fail name (cs_fw st2)\<rparr>
                            in if \<not> can_retry \<or> retry_counter = MAX_RETRY
                               then Some (st3\<lparr>cs_rsp := (cs_rsp st3)\<lparr>rsp_error := ''Get Service Response Failed. '' @ rspdata\<rparr>\<rparr>)
                               else call_attempts E i req n (balance_index + 1) st3))))"

definition call_start_state :: "ServiceCallReq \<Rightarrow> ServiceCallRsp \<Rightarrow> 'c forward_state \<Rightarrow> 'c call_state" where
  "call_start_state req rsp fw = \<lparr>cs_fw = fw, cs_rsp = rsp\<lparr>rsp_service_name := req_service_name req\<rparr>,
     cs_log = [], cs_success = False\<rparr>"

definition call_finish :: "'c cache_lib \<Rightarrow> ServiceCallReq \<Rightarrow> 'c call_state \<Rightarrow> 'c call_state" where
  "call_finish C req st =
     (if cs_success st
      then st\<lparr>cs_fw := (cs_fw st)\<lparr>fw_cache := FibpServiceCache_set C req (cs_rsp st) (fw_cache (cs_fw st))\<rparr>\<rparr>
      else if req_enable_cache req
      then
        (case FibpServiceCache_get C req (cs_rsp st) (fw_cache (cs_fw st)) of
           (c, r, _) \<Rightarrow> st\<lparr>cs_rsp := r, cs_fw := (cs_fw st)\<lparr>fw_cache := c\<rparr>\<rparr>)
      else st)"

definition call_single_service ::
  "'c cache_lib \<Rightarrow> (nat \<Rightarrow> 'c attempt_env) \<Rightarrow> 64 word \<Rightarrow> 64 word \<Rightarrow> ServiceCallReq \<Rightarrow> ServiceCallRsp \<Rightarrow>
     'c forward_state \<Rightarrow> 'c call_state option" where
  "call_single_service C E rnd i req rsp fw =
     (let st = call_start_state req rsp fw in
      if req_service_name req = local_test
      then Some (st\<lparr>cs_log := [Log_send i local_test ''127.0.0.1'' ''0'', Log_rsp i local_test],
                    cs_rsp := (cs_rsp st)\<lparr>rsp_rsp := local_test\<rparr>\<rparr>)
      else map_option (call_finish C req) (call_attempts E i req MAX_RETRY rnd st))"

section \<open>Transactions\<close>

text \<open>The third argument of \<open>find\<close> is the length of the pattern.  The pattern of the two searches is a
  string literal of one character, so the search compares with bytes behind the literal: its closing NUL
  and \<open>junk\<close>.  The first search reads ten bytes, the second 128.\<close>

definition quote_char :: char where "quote_char = CHR 0x22"

definition tran_key :: string where "tran_key = [quote_char] @ ''transaction_id'' @ [quote_char]"

definition quote_pattern :: "string \<Rightarrow> nat \<Rightarrow> string" where
  "quote_pattern junk n = take n ([quote_char, CHR 0x00] @ junk)"

definition get_transaction_id :: "string \<Rightarrow> string \<Rightarrow> string" where
  "get_transaction_id junk service_rps =
     (case find_from tran_key service_rps 0 of
        None \<Rightarrow> ''''
      | Some pos \<Rightarrow>
          (case find_from (quote_pattern junk 10) service_rps (pos + length tran_key) of
             None \<Rightarrow> ''''
           | Some id_start_pos \<Rightarrow>
               (case find_from (quote_pattern junk 128) service_rps (id_start_pos + 1) of
                  None \<Rightarrow> ''''
                | Some id_end_pos \<Rightarrow>
                    (case substr service_rps (id_start_pos + 1) (id_end_pos - id_start_pos - 1) of
                       Some t \<Rightarrow> t | None \<Rightarrow> ''''))))"

text \<open>The request of \<open>send_transaction_api\<close>: path, host, port, body; it is a POST with ten seconds.\<close>

record transaction_call =
  tc_path :: string
  tc_host :: string
  tc_port :: string
  tc_body :: string
  tc_timeout :: nat

definition send_transaction_api :: "string \<Rightarrow> string \<Rightarrow> string \<Rightarrow> string \<Rightarrow> string \<Rightarrow> transaction_call" where
  "send_transaction_api host port api tran_id tran_action =
     \<lparr>tc_path = api @ tran_action, tc_host = host, tc_port = port,
      tc_body = ''{'' @ tran_key @ '':'' @ [quote_char] @ tran_id @ [quote_char] @ ''}'', tc_timeout = 10000\<rparr>"

definition tran_confirm :: "string \<Rightarrow> string \<Rightarrow> string \<Rightarrow> string \<Rightarrow> transaction_call" where
  "tran_confirm host port api tran_id = send_transaction_api host port api tran_id ''/confirm''"

definition tran_cancel :: "string \<Rightarrow> string \<Rightarrow> string \<Rightarrow> string \<Rightarrow> transaction_call" where
  "tran_cancel host port api tran_id = send_transaction_api host port api tran_id ''/cancel''"

definition need_cancel :: "ServiceCallRsp list \<Rightarrow> bool" where
  "need_cancel rsp_list = (\<exists>r \<in> set rsp_list. rsp_error r \<noteq> [])"

definition tran_id_of :: "string \<Rightarrow> ServiceCallRsp \<Rightarrow> string" where
  "tran_id_of junk r = get_transaction_id junk (if rsp_error r \<noteq> [] then rsp_error r else rsp_rsp r)"

definition end_transaction :: "string \<Rightarrow> ServiceCallReq list \<Rightarrow> ServiceCallRsp list \<Rightarrow> transaction_call list" where
  "end_transaction junk reqs rsps =
     concat (map (\<lambda>(req, r).
       let t = tran_id_of junk r in
       if need_cancel rsps
       then (if t = [] then [] else [tran_cancel (rsp_host r) (rsp_port r) (req_service_api req) t])
       else [tran_confirm (rsp_host r) (rsp_port r) (req_service_api req) t]) (zip reqs rsps))"

section \<open>Several calls\<close>

text \<open>The check of \<open>call_services_in_fiber\<close>: a transaction needs HTTP services only.\<close>

definition tran_error :: string where
  "tran_error = ''transaction is supported only if all services using http protocol.''"

definition transaction_allowed :: "bool \<Rightarrow> ServiceCallReq list \<Rightarrow> bool" where
  "transaction_allowed do_transaction reqs \<longleftrightarrow>
     (do_transaction \<longrightarrow> list_all (\<lambda>r. req_service_type r = service_type_val HTTP_Service) reqs)"

definition refuse_transaction :: "ServiceCallReq list \<Rightarrow> ServiceCallRsp list" where
  "refuse_transaction reqs = map (\<lambda>r. call_rsp_new\<lparr>rsp_service_name := req_service_name r, rsp_error := tran_error\<rparr>) reqs"

text \<open>The state of the calling fiber: it schedules one task per call (\<open>Schedule i\<close>: the next is call \<open>i\<close>),
  then tests \<open>call_num\<close> and waits for the condition variable.  A task runs \<open>call_single_service\<close> on its own
  element of \<open>rsp_list\<close>, decrements \<open>call_num\<close> and notifies when it is zero.  The fibers of one thread
  are not preempted, so the test and the wait are one step.  A task is \<open>Running\<close> from the moment it is scheduled,
  and its whole call is one step at its end: \<open>ae_others\<close> is what the other fibers do in between.  A call that leaves by an
  exception never decrements \<open>call_num\<close>; it has no step.\<close>

datatype caller = Schedule nat | Test | Wait | Proceed

datatype task = Unscheduled | Running | Finished

record 'c multi_state =
  ms_caller :: caller
  ms_tasks :: "task list"
  ms_rsps :: "ServiceCallRsp list"
  ms_call_num :: int
  ms_fw :: "'c forward_state"

definition multi_start :: "ServiceCallReq list \<Rightarrow> 'c forward_state \<Rightarrow> 'c multi_state" where
  "multi_start reqs fw = \<lparr>ms_caller = Schedule 0, ms_tasks = replicate (length reqs) Unscheduled,
     ms_rsps = replicate (length reqs) call_rsp_new, ms_call_num = int (length reqs), ms_fw = fw\<rparr>"

inductive multi_step :: "'c cache_lib \<Rightarrow> 64 word \<Rightarrow> ServiceCallReq list \<Rightarrow> 'c multi_state \<Rightarrow> 'c multi_state \<Rightarrow> bool"
  for C :: "'c cache_lib" and i :: "64 word" and reqs :: "ServiceCallReq list" where
  schedule: "ms_caller s = Schedule k \<Longrightarrow> k < length reqs \<Longrightarrow>
     multi_step C i reqs s (s\<lparr>ms_caller := Schedule (Suc k), ms_tasks := (ms_tasks s)[k := Running]\<rparr>)"
| scheduled: "ms_caller s = Schedule k \<Longrightarrow> \<not> k < length reqs \<Longrightarrow> multi_step C i reqs s (s\<lparr>ms_caller := Test\<rparr>)"
| proceed: "ms_caller s = Test \<Longrightarrow> \<not> ms_call_num s > 0 \<Longrightarrow> multi_step C i reqs s (s\<lparr>ms_caller := Proceed\<rparr>)"
| wait: "ms_caller s = Test \<Longrightarrow> ms_call_num s > 0 \<Longrightarrow> multi_step C i reqs s (s\<lparr>ms_caller := Wait\<rparr>)"
| finish: "k < length reqs \<Longrightarrow> ms_tasks s ! k = Running \<Longrightarrow>
     call_single_service C E rnd i (reqs ! k) (ms_rsps s ! k) (ms_fw s) = Some st \<Longrightarrow>
     multi_step C i reqs s
       (s\<lparr>ms_tasks := (ms_tasks s)[k := Finished], ms_rsps := (ms_rsps s)[k := cs_rsp st], ms_fw := cs_fw st,
          ms_call_num := ms_call_num s - 1,
          ms_caller := (if ms_call_num s - 1 = 0 \<and> ms_caller s = Wait then Test else ms_caller s)\<rparr>)"

abbreviation multi_run :: "'c cache_lib \<Rightarrow> 64 word \<Rightarrow> ServiceCallReq list \<Rightarrow> 'c multi_state \<Rightarrow> 'c multi_state \<Rightarrow> bool" where
  "multi_run C i reqs \<equiv> (multi_step C i reqs)\<^sup>*\<^sup>*"

text \<open>The whole of \<open>call_services_in_fiber\<close>: the responses, the transaction messages and the state when the
  callback is called.\<close>

inductive call_services_in_fiber ::
  "'c cache_lib \<Rightarrow> string \<Rightarrow> 64 word \<Rightarrow> ServiceCallReq list \<Rightarrow> bool \<Rightarrow> 'c forward_state \<Rightarrow>
     ServiceCallRsp list \<Rightarrow> transaction_call list \<Rightarrow> 'c forward_state \<Rightarrow> bool"
  for C :: "'c cache_lib" and junk :: string and i :: "64 word" and reqs :: "ServiceCallReq list"
    and do_transaction :: bool and fw :: "'c forward_state" where
  refused: "\<not> transaction_allowed do_transaction reqs \<Longrightarrow>
     call_services_in_fiber C junk i reqs do_transaction fw (refuse_transaction reqs) [] fw"
| single: "transaction_allowed do_transaction reqs \<Longrightarrow> reqs = [req] \<Longrightarrow>
     call_single_service C E rnd i req call_rsp_new fw = Some st \<Longrightarrow>
     call_services_in_fiber C junk i reqs do_transaction fw [cs_rsp st]
       (if do_transaction then end_transaction junk reqs [cs_rsp st] else []) (cs_fw st)"
| many: "transaction_allowed do_transaction reqs \<Longrightarrow> length reqs \<noteq> 1 \<Longrightarrow>
     multi_run C i reqs (multi_start reqs fw) s \<Longrightarrow> ms_caller s = Proceed \<Longrightarrow>
     call_services_in_fiber C junk i reqs do_transaction fw (ms_rsps s)
       (if do_transaction then end_transaction junk reqs (ms_rsps s) else []) (ms_fw s)"

section \<open>What a call returns\<close>

text \<open>The abstract view of a call: attempt \<open>k\<close> finds no host, or exchanges with the \<open>k\<close>-th host of the
  rotation; the first attempt that may not be repeated decides, otherwise the third.\<close>

datatype attempt_outcome = Not_found | Sent string string send_result

definition attempt :: "(nat \<Rightarrow> 'c attempt_env) \<Rightarrow> ServiceCallReq \<Rightarrow> 64 word \<Rightarrow> nat \<Rightarrow> attempt_outcome" where
  "attempt E req rnd k =
     (case get_service_address (ae_registry (E k)) (rnd + of_nat k) (req_service_name req) (req_service_type req) of
        None \<Rightarrow> Not_found
      | Some (ip, port) \<Rightarrow> Sent ip port (ae_send (E k) ip port (5000 * int k)))"

fun retriable :: "attempt_outcome \<Rightarrow> bool" where
  "retriable (Sent _ _ Send_failed) = True"
| "retriable (Sent _ _ (Reply False _ can_retry)) = can_retry"
| "retriable _ = False"

definition deciding :: "(nat \<Rightarrow> attempt_outcome) \<Rightarrow> nat" where
  "deciding out = (if \<not> retriable (out 1) then 1 else if \<not> retriable (out 2) then 2 else 3)"

fun verdict :: "attempt_outcome \<Rightarrow> (bool \<times> string \<times> string) option" where
  "verdict Not_found = Some (False, ''Service Not Found.'', '''')"
| "verdict (Sent _ _ Send_throw) = None"
| "verdict (Sent _ _ Send_failed) = Some (False, ''Send Service Request Failed. '', '''')"
| "verdict (Sent _ _ (Reply True d _)) = Some (True, '''', d)"
| "verdict (Sent _ _ (Reply False d _)) = Some (False, ''Get Service Response Failed. '' @ d, '''')"

definition contact :: "64 word \<Rightarrow> string \<Rightarrow> attempt_outcome \<Rightarrow> log_event list" where
  "contact i name out = (case out of Not_found \<Rightarrow> [] | Sent ip port _ \<Rightarrow> [Log_send i name ip port])"

fun is_send :: "log_event \<Rightarrow> bool" where
  "is_send (Log_send _ _ _ _) = True"
| "is_send _ = False"

text \<open>The effect of attempt \<open>k\<close> with the given outcome; the flag says that the loop stops.\<close>

fun attempt_effect ::
  "(nat \<Rightarrow> 'c attempt_env) \<Rightarrow> 64 word \<Rightarrow> string \<Rightarrow> nat \<Rightarrow> attempt_outcome \<Rightarrow> 'c call_state \<Rightarrow> ('c call_state \<times> bool) option" where
  "attempt_effect E i name k Not_found st =
     Some (st\<lparr>cs_rsp := (cs_rsp st)\<lparr>rsp_error := ''Service Not Found.''\<rparr>\<rparr>, True)"
| "attempt_effect E i name k (Sent ip port Send_throw) st = None"
| "attempt_effect E i name k (Sent ip port Send_failed) st =
     Some (\<lparr>cs_fw = bump_fail name (ae_others (E k) (cs_fw st)),
        cs_rsp = (cs_rsp st)\<lparr>rsp_host := ip, rsp_port := port,
          rsp_error := (if k = MAX_RETRY then ''Send Service Request Failed. '' else rsp_error (cs_rsp st))\<rparr>,
        cs_log = cs_log st @ [Log_send i name ip port, Log_failed i name ''Send Data Failed.''],
        cs_success = cs_success st\<rparr>, False)"
| "attempt_effect E i name k (Sent ip port (Reply True d can_retry)) st =
     Some (\<lparr>cs_fw = ae_others (E k) (cs_fw st),
        cs_rsp = (cs_rsp st)\<lparr>rsp_host := ip, rsp_port := port, rsp_rsp := d\<rparr>,
        cs_log = cs_log st @ [Log_send i name ip port, Log_rsp i name], cs_success = True\<rparr>, True)"
| "attempt_effect E i name k (Sent ip port (Reply False d can_retry)) st =
     Some (\<lparr>cs_fw = bump_fail name (ae_others (E k) (cs_fw st)),
        cs_rsp = (cs_rsp st)\<lparr>rsp_host := ip, rsp_port := port,
          rsp_error := (if \<not> can_retry \<or> k = MAX_RETRY then ''Get Service Response Failed. '' @ d else rsp_error (cs_rsp st))\<rparr>,
        cs_log = cs_log st @ [Log_send i name ip port, Log_rsp i name, Log_failed i name d],
        cs_success = cs_success st\<rparr>, \<not> can_retry \<or> k = MAX_RETRY)"

lemma call_attempts_step:
  assumes "n < MAX_RETRY"
  shows "call_attempts E i req (Suc n) (rnd + of_nat (MAX_RETRY - Suc n)) st =
     (case attempt_effect E i (req_service_name req) (MAX_RETRY - n) (attempt E req rnd (MAX_RETRY - n)) st of
        None \<Rightarrow> None
      | Some (st', stop) \<Rightarrow>
          if stop then Some st' else call_attempts E i req n (rnd + of_nat (MAX_RETRY - n)) st')"
proof -
  have k: "rnd + of_nat (MAX_RETRY - Suc n) + 1 = rnd + of_nat (MAX_RETRY - n)"
    using assms by (simp add: Suc_diff_Suc[symmetric] del: diff_Suc_Suc)
  show ?thesis
    unfolding call_attempts.simps k
    by (cases st) (auto simp: attempt_def Let_def split: option.split send_result.split bool.split)
qed

declare call_attempts.simps(2) [simp del]

lemma call_attempts_unfold:
  "call_attempts E i req MAX_RETRY rnd st =
     (case attempt_effect E i (req_service_name req) 1 (attempt E req rnd 1) st of
        None \<Rightarrow> None
      | Some (st1, stop1) \<Rightarrow> if stop1 then Some st1 else
     (case attempt_effect E i (req_service_name req) 2 (attempt E req rnd 2) st1 of
        None \<Rightarrow> None
      | Some (st2, stop2) \<Rightarrow> if stop2 then Some st2 else
     (case attempt_effect E i (req_service_name req) 3 (attempt E req rnd 3) st2 of
        None \<Rightarrow> None
      | Some (st3, stop3) \<Rightarrow> Some st3)))"
proof -
  let ?f = "\<lambda>k. attempt_effect E i (req_service_name req) k (attempt E req rnd k)"
  have m: "MAX_RETRY - Suc 2 = 0" "MAX_RETRY - 2 = 1" "MAX_RETRY - Suc 1 = 1" "MAX_RETRY - 1 = 2" "MAX_RETRY - Suc 0 = 2"
    "MAX_RETRY - 0 = 3" "Suc 2 = MAX_RETRY" "Suc 1 = 2" "Suc 0 = 1" "(0 < MAX_RETRY) = True" "(1 < MAX_RETRY) = True"
    "(2 < MAX_RETRY) = True" "of_nat 0 = (0 :: 64 word)" "of_nat 1 = (1 :: 64 word)" "of_nat 2 = (2 :: 64 word)"
    by (simp_all add: MAX_RETRY_def)
  have three: "call_attempts E i req MAX_RETRY rnd st = (case ?f 1 st of None \<Rightarrow> None | Some (st', stop) \<Rightarrow>
      if stop then Some st' else call_attempts E i req 2 (rnd + 1) st')" for st
    using call_attempts_step[of 2 E i req rnd st, unfolded m] by simp
  have two: "call_attempts E i req 2 (rnd + 1) st = (case ?f 2 st of None \<Rightarrow> None | Some (st', stop) \<Rightarrow>
      if stop then Some st' else call_attempts E i req 1 (rnd + 2) st')" for st
    using call_attempts_step[of 1 E i req rnd st, unfolded m] by simp
  have one: "call_attempts E i req 1 (rnd + 2) st = (case ?f 3 st of None \<Rightarrow> None | Some (st', stop) \<Rightarrow> Some st')" for st
    using call_attempts_step[of 0 E i req rnd st, unfolded m] by (simp split: option.split)
  show ?thesis unfolding three two one ..
qed

lemma attempt_effect_cases:
  obtains (Not_found) "x = Not_found"
  | (Throw) ip port where "x = Sent ip port Send_throw"
  | (Failed) ip port where "x = Sent ip port Send_failed"
  | (Good) ip port d r where "x = Sent ip port (Reply True d r)"
  | (Bad) ip port d r where "x = Sent ip port (Reply False d r)"
  by (metis (full_types) attempt_outcome.exhaust send_result.exhaust)

lemma call_attempts_verdict:
  "map_option (\<lambda>st. (cs_success st, rsp_error (cs_rsp st), rsp_rsp (cs_rsp st)))
     (call_attempts E i req MAX_RETRY rnd (call_start_state req call_rsp_new fw)) =
   verdict (attempt E req rnd (deciding (attempt E req rnd)))"
  unfolding call_attempts_unfold deciding_def
  by (cases "attempt E req rnd 1" rule: attempt_effect_cases; cases "attempt E req rnd 2" rule: attempt_effect_cases;
      cases "attempt E req rnd 3" rule: attempt_effect_cases)
     (simp_all add: MAX_RETRY_def call_start_state_def call_rsp_new_def)

lemma call_attempts_contacts:
  "call_attempts E i req MAX_RETRY rnd (call_start_state req call_rsp_new fw) = Some st \<Longrightarrow>
   filter is_send (cs_log st) =
     concat (map (\<lambda>k. contact i (req_service_name req) (attempt E req rnd k)) [1..<Suc (deciding (attempt E req rnd))])"
  unfolding call_attempts_unfold deciding_def
  by (cases "attempt E req rnd 1" rule: attempt_effect_cases; cases "attempt E req rnd 2" rule: attempt_effect_cases;
      cases "attempt E req rnd 3" rule: attempt_effect_cases)
     (auto simp: MAX_RETRY_def call_start_state_def contact_def upt_rec numeral_2_eq_2 numeral_3_eq_3 split: if_splits)

text \<open>An invariant of the attempts is an invariant of the loop.\<close>

lemma call_attempts_induct:
  assumes run: "call_attempts E i req MAX_RETRY rnd st = Some st'"
    and base: "P st"
    and step: "\<And>k st st' stop. k \<in> {1, 2, 3} \<Longrightarrow> P st \<Longrightarrow>
      attempt_effect E i (req_service_name req) k (attempt E req rnd k) st = Some (st', stop) \<Longrightarrow> P st'"
  shows "P st'"
proof -
  let ?f = "\<lambda>k. attempt_effect E i (req_service_name req) k (attempt E req rnd k)"
  have keep: "P s'" if "k \<in> {1, 2, 3}" "P s" "?f k s = Some (s', b)" for k s s' b
    using step that by blast
  note eq = run[unfolded call_attempts_unfold]
  obtain s1 b1 where s1: "?f 1 st = Some (s1, b1)" using eq by (cases "?f 1 st") auto
  have p1: "P s1" by (rule keep[OF _ base s1]) simp
  show ?thesis
  proof (cases b1)
    case True
    then show ?thesis using eq s1 p1 by simp
  next
    case f1: False
    obtain s2 b2 where s2: "?f 2 s1 = Some (s2, b2)" using eq s1 f1 by (cases "?f 2 s1") auto
    have p2: "P s2" by (rule keep[OF _ p1 s2]) simp
    show ?thesis
    proof (cases b2)
      case True
      then show ?thesis using eq s1 s2 p2 f1 by simp
    next
      case f2: False
      obtain s3 b3 where s3: "?f 3 s2 = Some (s3, b3)" using eq s1 s2 f1 f2 by (cases "?f 3 s2") auto
      have "P s3" by (rule keep[OF _ p2 s3]) simp
      then show ?thesis using eq s1 s2 s3 f1 f2 by simp
    qed
  qed
qed

section \<open>Log, counters and cache of a call\<close>

text \<open>The events replayed on the log; \<open>None\<close> is \<open>back()\<close> of an empty vector.\<close>

fun log_exec :: "(nat \<Rightarrow> 64 word) \<Rightarrow> log_event list \<Rightarrow> logger \<Rightarrow> logger option" where
  "log_exec now [] lg = Some lg"
| "log_exec now (Log_send i name host port # es) lg = log_exec now es (sendServiceRequest (now (length es)) i name host port lg)"
| "log_exec now (Log_rsp i name # es) lg = Option.bind (getServiceRsp (now (length es)) i name lg) (log_exec now es)"
| "log_exec now (Log_failed i name msg # es) lg = Option.bind (logServiceFailed i name msg lg) (log_exec now es)"

text \<open>The logs of several calls, interleaved by a schedule that says whose operation is next.\<close>

fun weave :: "nat list \<Rightarrow> 'a list list \<Rightarrow> 'a list" where
  "weave [] ls = []"
| "weave (k # ks) ls =
     (if k < length ls then (case ls ! k of [] \<Rightarrow> weave ks ls | e # r \<Rightarrow> e # weave ks (ls[k := r])) else weave ks ls)"

fun log_opened :: "64 word \<Rightarrow> string \<Rightarrow> log_event list \<Rightarrow> bool" where
  "log_opened i name [] = True"
| "log_opened i name (Log_send j n _ _ # es) = (j = i \<and> n = name)"
| "log_opened i name _ = False"

fun log_tag :: "log_event \<Rightarrow> 64 word \<times> string" where
  "log_tag (Log_send i name _ _) = (i, name)"
| "log_tag (Log_rsp i name) = (i, name)"
| "log_tag (Log_failed i name _) = (i, name)"

definition log_disciplined :: "64 word \<Rightarrow> string \<Rightarrow> log_event list \<Rightarrow> bool" where
  "log_disciplined i name es \<longleftrightarrow> log_opened i name es \<and> (\<forall>e \<in> set es. log_tag e = (i, name))"

lemma log_opened_append [simp]:
  "log_opened i name (es @ fs) = (if es = [] then log_opened i name fs else log_opened i name es)"
  by (cases "(i, name, es)" rule: log_opened.cases) auto

lemma call_log_disciplined:
  assumes "call_attempts E i req MAX_RETRY rnd (call_start_state req rsp fw) = Some st"
  shows "log_disciplined i (req_service_name req) (cs_log st)"
  using assms
proof (rule call_attempts_induct)
  fix k st st' stop
  assume "log_disciplined i (req_service_name req) (cs_log st)"
    "attempt_effect E i (req_service_name req) k (attempt E req rnd k) st = Some (st', stop)"
  then show "log_disciplined i (req_service_name req) (cs_log st')"
    by (cases "attempt E req rnd k" rule: attempt_effect_cases) (auto simp: log_disciplined_def)
qed (simp add: call_start_state_def log_disciplined_def)

definition slots_ok :: "logger \<Rightarrow> bool" where
  "slots_ok lg \<longleftrightarrow> (\<forall>s. smap_ok (ld_services (lg_slots lg s)))"

definition log_named :: "logger \<Rightarrow> 64 word \<Rightarrow> string \<Rightarrow> bool" where
  "log_named lg i name \<longleftrightarrow> i = 0 \<or> calls_named (lg_slots lg (slot_of i)) name \<noteq> []"

text \<open>One operation of a call: it is defined once the call is on the log, and it takes no call off the log.\<close>

definition log_one :: "64 word \<Rightarrow> log_event \<Rightarrow> logger \<Rightarrow> logger option" where
  "log_one t e lg =
     (case e of
        Log_send i name host port \<Rightarrow> Some (sendServiceRequest t i name host port lg)
      | Log_rsp i name \<Rightarrow> getServiceRsp t i name lg
      | Log_failed i name msg \<Rightarrow> logServiceFailed i name msg lg)"

lemma log_exec_Cons: "log_exec now (e # es) lg = Option.bind (log_one (now (length es)) e lg) (log_exec now es)"
  by (cases e) (simp_all add: log_one_def)

lemma calls_named_put [simp]:
  "smap_ok (ld_services l) \<Longrightarrow> calls_named (l\<lparr>ld_services := smap_put n v (ld_services l)\<rparr>) m = (if m = n then v else calls_named l m)"
  by (simp add: calls_named_def map_of_smap_put)

lemma log_send_ok:
  assumes "slots_ok lg"
  shows "slots_ok (sendServiceRequest t i n h p lg)" "log_named (sendServiceRequest t i n h p lg) i n"
    "log_named lg j m \<Longrightarrow> log_named (sendServiceRequest t i n h p lg) j m"
  using assms by (auto simp: slots_ok_def log_named_def sendServiceRequest_def Let_def smap_ok_put)

lemma log_update_ok:
  assumes "slots_ok lg" "calls_named (lg_slots lg (slot_of i)) n \<noteq> []"
  shows "\<exists>lg'. update_last_call f i n lg = Some lg' \<and> slots_ok lg' \<and> (\<forall>j m. log_named lg j m \<longrightarrow> log_named lg' j m)"
  using assms by (simp add: slots_ok_def log_named_def update_last_call_def Let_def smap_ok_put)

lemma log_one_ok:
  assumes "slots_ok lg" "log_tag e = (i, n)" "is_send e \<or> log_named lg i n"
  shows "\<exists>lg'. log_one t e lg = Some lg' \<and> slots_ok lg' \<and> log_named lg' i n \<and> (\<forall>j m. log_named lg j m \<longrightarrow> log_named lg' j m)"
proof (cases "i = 0")
  case True
  then show ?thesis
    using assms by (cases e) (simp_all add: log_one_def sendServiceRequest_def getServiceRsp_def logServiceFailed_def log_named_def)
next
  case False
  show ?thesis
  proof (cases e)
    case (Log_send j m h p)
    then show ?thesis using assms(2) log_send_ok[OF assms(1)] by (simp add: log_one_def)
  next
    case (Log_rsp j m)
    then show ?thesis
      using assms False log_update_ok[OF assms(1), of i n "\<lambda>r. r\<lparr>rd_end_time := t\<rparr>"]
      by (auto simp: log_one_def getServiceRsp_def log_named_def)
  next
    case (Log_failed j m msg)
    then show ?thesis
      using assms False log_update_ok[OF assms(1), of i n "\<lambda>r. r\<lparr>rd_failed_msg := msg\<rparr>"]
      by (auto simp: log_one_def logServiceFailed_def log_named_def)
  qed
qed

text \<open>What is left of the log of a call: all of it, or the call is on the log.\<close>

definition log_left :: "logger \<Rightarrow> log_event list \<Rightarrow> bool" where
  "log_left lg es \<longleftrightarrow> (\<exists>i n. (\<forall>e \<in> set es. log_tag e = (i, n)) \<and> (log_opened i n es \<or> log_named lg i n))"

lemma log_leftE:
  assumes "log_left lg (e # es)"
  obtains i n where "log_tag e = (i, n)" "\<forall>e \<in> set es. log_tag e = (i, n)" "is_send e \<or> log_named lg i n"
  using assms by (cases e) (auto simp: log_left_def)

lemma log_left_mono: "log_left lg es \<Longrightarrow> (\<And>i n. log_named lg i n \<Longrightarrow> log_named lg' i n) \<Longrightarrow> log_left lg' es"
  unfolding log_left_def by blast

lemma log_exec_weave:
  assumes "slots_ok lg" "\<forall>l \<in> set ls. log_left lg l"
  shows "\<exists>lg'. log_exec now (weave ks ls) lg = Some lg'"
  using assms
proof (induction ks ls arbitrary: lg rule: weave.induct)
  case (2 k ks ls)
  show ?case
  proof (cases "k < length ls \<and> ls ! k \<noteq> []")
    case True
    then obtain e r where er: "ls ! k = e # r" by (cases "ls ! k") auto
    then have "log_left lg (e # r)" using True 2(5) by (metis nth_mem)
    then obtain i n where t: "log_tag e = (i, n)" "\<forall>e \<in> set r. log_tag e = (i, n)" "is_send e \<or> log_named lg i n"
      by (rule log_leftE)
    obtain lg' where lg': "log_one (now (length (weave ks (ls[k := r])))) e lg = Some lg'" "slots_ok lg'" "log_named lg' i n"
      "\<And>j m. log_named lg j m \<Longrightarrow> log_named lg' j m"
      using log_one_ok[OF 2(4) t(1,3)] by metis
    have "log_left lg' r" using t(2) lg'(3) by (auto simp: log_left_def)
    moreover have "log_left lg' l" if "l \<in> set ls" for l
      using 2(5) that lg'(4) log_left_mono[of lg l lg'] by blast
    ultimately have "\<forall>l \<in> set (ls[k := r]). log_left lg' l" using set_update_subset_insert[of ls k r] by blast
    then show ?thesis using 2(2)[OF _ er lg'(2)] True er lg'(1) by (simp add: log_exec_Cons)
  next
    case False
    then show ?thesis using 2(1)[of lg] 2(3)[of lg] 2(4,5) by (auto split: list.split)
  qed
qed simp

text \<open>The cache holds only error-free answers out of \<open>H\<close>, each under a key equal to its request.\<close>

definition cached_from :: "'c cache_lib \<Rightarrow> (ServiceCallReq \<times> ServiceCallRsp) set \<Rightarrow> 'c \<Rightarrow> bool" where
  "cached_from C H c \<longleftrightarrow>
     (\<forall>k v. cache_has C c k v \<longrightarrow> (\<exists>q. (q, v) \<in> H \<and> call_req_eq q k \<and> rsp_error v = []))"

lemma cached_from_mono: "cached_from C H c \<Longrightarrow> cached_from C (insert x H) c"
  unfolding cached_from_def by blast

lemma cached_from_get:
  assumes "cache_ok C" "cached_from C H c" "FibpServiceCache_get C req rsp c = (c', r, hit)"
  shows "cached_from C H c' \<and>
    (if hit then \<exists>q v. (q, v) \<in> H \<and> call_req_eq q req \<and> rsp_error v = [] \<and> r = v\<lparr>rsp_is_cached := True\<rparr> else r = rsp)"
proof -
  obtain d v where g: "cl_get C req c = (d, v)" by (cases "cl_get C req c")
  have "cached_from C H d"
    using assms(1,2) g unfolding cached_from_def cache_ok_def by (metis fst_conv)
  moreover have "\<exists>q. (q, w) \<in> H \<and> call_req_eq q req \<and> rsp_error w = []" if "v = Some w" for w
    using assms(2) g that by (simp add: cached_from_def cache_has_def)
  ultimately show ?thesis
    using assms(2,3) g by (auto simp: FibpServiceCache_get_def split: if_splits option.splits)
qed

lemma cached_from_set:
  assumes "cache_ok C" "cached_from C H c"
  shows "cached_from C (insert (req, rsp) H) (FibpServiceCache_set C req rsp c)"
proof -
  have "\<exists>q. (q, v) \<in> insert (req, rsp) H \<and> call_req_eq q k \<and> rsp_error v = []"
    if "rsp_error rsp = []" "cache_has C (cl_insert C req rsp c) k v" for k v
  proof (cases "call_req_eq req k")
    case True
    then show ?thesis using that assms(1) unfolding cache_ok_def by (metis insertI1)
  next
    case False
    then have "cache_has C c k v" using that assms(1) unfolding cache_ok_def by metis
    then show ?thesis using assms(2) by (auto simp: cached_from_def)
  qed
  then have "rsp_error rsp = [] \<Longrightarrow> cached_from C (insert (req, rsp) H) (cl_insert C req rsp c)"
    unfolding cached_from_def by blast
  then show ?thesis
    using cached_from_mono[OF assms(2)] by (auto simp: FibpServiceCache_set_def)
qed

lemma attempts_cached_from:
  assumes "call_attempts E i req MAX_RETRY rnd st = Some st'" "cached_from C H (fw_cache (cs_fw st))"
    and "\<And>k s. cached_from C H (fw_cache s) \<Longrightarrow> cached_from C H (fw_cache (ae_others (E k) s))"
  shows "cached_from C H (fw_cache (cs_fw st'))"
  using assms(1,2)
proof (rule call_attempts_induct)
  fix k st st' stop
  assume "cached_from C H (fw_cache (cs_fw st))"
    "attempt_effect E i (req_service_name req) k (attempt E req rnd k) st = Some (st', stop)"
  then show "cached_from C H (fw_cache (cs_fw st'))"
    using assms(3) by (cases "attempt E req rnd k" rule: attempt_effect_cases) (auto simp: bump_fail_def)
qed

lemma attempts_uncached:
  assumes "call_attempts E i req MAX_RETRY rnd st = Some st'" "\<not> rsp_is_cached (cs_rsp st)" "rsp_service_name (cs_rsp st) = n"
  shows "\<not> rsp_is_cached (cs_rsp st') \<and> rsp_service_name (cs_rsp st') = n"
  using assms(1)
proof (rule call_attempts_induct)
  fix k st st' stop
  assume "\<not> rsp_is_cached (cs_rsp st) \<and> rsp_service_name (cs_rsp st) = n"
    "attempt_effect E i (req_service_name req) k (attempt E req rnd k) st = Some (st', stop)"
  then show "\<not> rsp_is_cached (cs_rsp st') \<and> rsp_service_name (cs_rsp st') = n"
    by (cases "attempt E req rnd k" rule: attempt_effect_cases) auto
qed (use assms in simp)

lemma call_single_cached_from:
  assumes ok: "cache_ok C" "cached_from C H (fw_cache fw)"
    and others: "\<And>k s. cached_from C H (fw_cache s) \<Longrightarrow> cached_from C H (fw_cache (ae_others (E k) s))"
    and call: "call_single_service C E rnd i req call_rsp_new fw = Some st"
  shows "cached_from C (insert (req, cs_rsp st) H) (fw_cache (cs_fw st)) \<and>
    (rsp_is_cached (cs_rsp st) \<longrightarrow> \<not> cs_success st \<and> req_enable_cache req \<and>
       (\<exists>q v. (q, v) \<in> H \<and> call_req_eq q req \<and> rsp_error v = [] \<and> cs_rsp st = v\<lparr>rsp_is_cached := True\<rparr>))"
proof (cases "req_service_name req = local_test")
  case True
  then show ?thesis
    using cached_from_mono[OF ok(2)] call
    by (auto simp: call_single_service_def Let_def call_start_state_def call_rsp_new_def)
next
  case False
  then obtain s where s: "call_attempts E i req MAX_RETRY rnd (call_start_state req call_rsp_new fw) = Some s"
    and st: "st = call_finish C req s"
    using call by (auto simp: call_single_service_def Let_def)
  have c: "cached_from C H (fw_cache (cs_fw s))"
    by (rule attempts_cached_from[OF s _ others]) (use ok in \<open>simp_all add: call_start_state_def\<close>)
  have u: "\<not> rsp_is_cached (cs_rsp s)"
    using attempts_uncached[OF s] by (simp add: call_start_state_def call_rsp_new_def)
  obtain c' r hit where g: "FibpServiceCache_get C req (cs_rsp s) (fw_cache (cs_fw s)) = (c', r, hit)"
    by (metis prod_cases3)
  show ?thesis
    using u c cached_from_mono cached_from_set[OF ok(1) c, of req "cs_rsp s"] cached_from_get[OF ok(1) c g] g
    unfolding st call_finish_def by (cases "cs_success s"; cases "req_enable_cache req"; cases hit) auto
qed


section \<open>Several calls: nothing is lost\<close>

definition answer_of :: "'c cache_lib \<Rightarrow> 64 word \<Rightarrow> ServiceCallReq \<Rightarrow> ServiceCallRsp \<Rightarrow> bool" where
  "answer_of C i req rsp \<longleftrightarrow>
     (\<exists>E rnd fw st. call_single_service C E rnd i req call_rsp_new fw = Some st \<and> rsp = cs_rsp st)"

definition multi_inv :: "'c cache_lib \<Rightarrow> 64 word \<Rightarrow> ServiceCallReq list \<Rightarrow> 'c multi_state \<Rightarrow> bool" where
  "multi_inv C i reqs s \<longleftrightarrow>
     length (ms_tasks s) = length reqs \<and> length (ms_rsps s) = length reqs \<and>
     ms_call_num s = int (length (filter (\<lambda>t. t \<noteq> Finished) (ms_tasks s))) \<and>
     (\<forall>k < length reqs. if ms_tasks s ! k = Finished then answer_of C i (reqs ! k) (ms_rsps s ! k)
        else ms_rsps s ! k = call_rsp_new) \<and>
     (\<forall>k < length reqs. ms_tasks s ! k = Unscheduled \<longleftrightarrow> (\<exists>j. ms_caller s = Schedule j \<and> j \<le> k)) \<and>
     (ms_caller s = Wait \<longrightarrow> ms_call_num s > 0) \<and> (ms_caller s = Proceed \<longrightarrow> ms_call_num s = 0)"

lemma multi_inv_start: "multi_inv C i reqs (multi_start reqs fw)"
  by (simp add: multi_inv_def multi_start_def)

lemma multi_inv_step: "multi_step C i reqs s s' \<Longrightarrow> multi_inv C i reqs s \<Longrightarrow> multi_inv C i reqs s'"
proof (induction rule: multi_step.induct)
  case (schedule s k)
  then have "ms_tasks s ! k = Unscheduled" by (auto simp: multi_inv_def)
  then show ?case
    using schedule length_filter_update_same[of k "ms_tasks s" "\<lambda>t. t \<noteq> Finished" Running]
    by (auto simp: multi_inv_def nth_list_update)
next
  case (scheduled s k)
  then show ?case by (auto simp: multi_inv_def)
next
  case (proceed s)
  then show ?case by (auto simp: multi_inv_def)
next
  case (wait s)
  then show ?case by (auto simp: multi_inv_def)
next
  case (finish k s E rnd st)
  have num: "int (length (filter (\<lambda>t. t \<noteq> Finished) ((ms_tasks s)[k := Finished]))) = ms_call_num s - 1"
    using finish length_filter_loss[of k "ms_tasks s" "\<lambda>t. t \<noteq> Finished" Finished] by (auto simp: multi_inv_def)
  have new: "ms_rsps s ! k = call_rsp_new" using finish by (auto simp: multi_inv_def)
  then have ans: "answer_of C i (reqs ! k) (cs_rsp st)" using finish by (auto simp: answer_of_def)
  have "ms_call_num s > 0"
    using finish length_filter_loss[of k "ms_tasks s" "\<lambda>t. t \<noteq> Finished" Finished] by (auto simp: multi_inv_def)
  then show ?case using finish num ans by (auto simp: multi_inv_def nth_list_update)
qed

lemma multi_inv_run: "multi_run C i reqs s s' \<Longrightarrow> multi_inv C i reqs s \<Longrightarrow> multi_inv C i reqs s'"
  by (induction rule: rtranclp_induct) (auto intro: multi_inv_step)

lemma multi_inv_running:
  assumes "multi_inv C i reqs s" "ms_caller s = Wait"
  shows "\<exists>k < length reqs. ms_tasks s ! k = Running"
proof -
  have "filter (\<lambda>t. t \<noteq> Finished) (ms_tasks s) \<noteq> []" using assms by (auto simp: multi_inv_def)
  then obtain k where "k < length reqs" "ms_tasks s ! k \<noteq> Finished"
    using assms(1) by (auto simp: multi_inv_def filter_empty_conv in_set_conv_nth)
  then show ?thesis using assms by (cases "ms_tasks s ! k") (auto simp: multi_inv_def)
qed

lemma multi_inv_done:
  assumes "multi_inv C i reqs s" "ms_caller s = Proceed"
  shows "list_all2 (answer_of C i) reqs (ms_rsps s)"
proof -
  have "filter (\<lambda>t. t \<noteq> Finished) (ms_tasks s) = []" using assms by (auto simp: multi_inv_def)
  then have "ms_tasks s ! k = Finished" if "k < length reqs" for k
    using assms(1) that by (auto simp: multi_inv_def filter_empty_conv)
  then show ?thesis using assms(1) by (auto simp: multi_inv_def list_all2_conv_all_nth)
qed

section \<open>Transactions: what the searches find\<close>

lemma find_sub_absent: "c \<in> set p \<Longrightarrow> c \<notin> set s \<Longrightarrow> find_sub p s = None"
proof -
  assume c: "c \<in> set p" "c \<notin> set s"
  have "take (length p) (drop j s) \<noteq> p" for j
    using c by (metis in_set_dropD in_set_takeD)
  then show ?thesis by (simp add: find_sub_None)
qed

lemma find_from_absent: "c \<in> set p \<Longrightarrow> c \<notin> set s \<Longrightarrow> find_from p s n = None"
  using find_sub_absent[of c p "drop n s"] by (auto simp: find_from_def dest: in_set_dropD)

lemma no_transaction_id: "CHR 0x00 \<notin> set s \<Longrightarrow> get_transaction_id junk s = []"
  using find_from_absent[of "CHR 0x00" "quote_pattern junk 10" s]
  by (simp add: get_transaction_id_def quote_pattern_def split: option.split)

section \<open>The properties of calls\<close>

text \<open>\<^bold>\<open>C34\<close>. What a call of a service returns when the request does not ask for the cache, on every branch: the
  service \<open>local_test\<close> answers with its own name and counts as no success; for any other the first of the three
  attempts that may not be repeated decides, otherwise the third; attempt \<open>k\<close> asks the registry of that
  moment for the host at position \<open>rnd + k\<close> and allows \<open>5 k\<close> seconds; the error text is the one of the
  deciding attempt, and the call leaves by an exception exactly when that attempt's send throws.\<close>

theorem call_single_service_outcome:
  assumes "\<not> req_enable_cache req"
  shows "map_option (\<lambda>st. (cs_success st, rsp_error (cs_rsp st), rsp_rsp (cs_rsp st)))
      (call_single_service C E rnd i req call_rsp_new fw) =
    (if req_service_name req = local_test then Some (False, '''', local_test)
     else verdict (attempt E req rnd (deciding (attempt E req rnd))))"
proof -
  have "(\<lambda>st. (cs_success st, rsp_error (cs_rsp st), rsp_rsp (cs_rsp st))) \<circ> call_finish C req =
      (\<lambda>st. (cs_success st, rsp_error (cs_rsp st), rsp_rsp (cs_rsp st)))"
    using assms by (auto simp: fun_eq_iff call_finish_def)
  then show ?thesis
    using call_attempts_verdict[of E i req rnd fw]
    by (simp add: call_single_service_def Let_def option.map_comp call_start_state_def call_rsp_new_def)
qed

definition wit_env :: "nat \<Rightarrow> (ServiceCallReq \<times> ServiceCallRsp) list attempt_env" where
  "wit_env k = \<lparr>ae_registry = wit_sm1,
     ae_send = (\<lambda>ip port t. if ip = ''10.0.0.1'' then Send_failed else Reply True ''pong'' True), ae_others = (\<lambda>s. s)\<rparr>"

definition wit_req :: ServiceCallReq where
  "wit_req = call_req_new\<lparr>req_service_name := ''svc'', req_service_api := ''/ping''\<rparr>"

definition wit_fw :: "(ServiceCallReq \<times> ServiceCallRsp) list forward_state" where
  "wit_fw = \<lparr>fw_cache = [], fw_fail_stat = []\<rparr>"

lemma wit_attempts: "attempt wit_env wit_req 1 1 = Sent ''10.0.0.1'' ''8080'' Send_failed"
  "attempt wit_env wit_req 1 2 = Sent ''10.0.0.2'' ''8080'' (Reply True ''pong'' True)"
  by code_simp+

lemma wit_deciding: "deciding (attempt wit_env wit_req 1) = 2"
  unfolding deciding_def wit_attempts by simp

theorem call_single_service_outcome_witness:
  "map_option (\<lambda>st. (cs_success st, rsp_error (cs_rsp st), rsp_rsp (cs_rsp st)))
     (call_single_service ref_cache wit_env 1 5 wit_req call_rsp_new wit_fw) = Some (True, '''', ''pong'')"
  by (subst call_single_service_outcome)
     (simp_all add: wit_deciding wit_attempts, simp_all add: wit_req_def call_req_new_def local_test_def)

text \<open>The hosts that a call contacts are those the registry gives for the positions \<open>rnd + 1\<close>, \<open>rnd + 2\<close>, ...
  up to the deciding attempt, in this order: at most three, and none after the deciding one.\<close>

theorem call_contacts_in_rotation:
  assumes "req_service_name req \<noteq> local_test" "call_single_service C E rnd i req call_rsp_new fw = Some st"
  shows "filter is_send (cs_log st) =
      concat (map (\<lambda>k. contact i (req_service_name req) (attempt E req rnd k)) [1..<Suc (deciding (attempt E req rnd))]) \<and>
    length (filter is_send (cs_log st)) \<le> 3"
proof -
  obtain s where s: "call_attempts E i req MAX_RETRY rnd (call_start_state req call_rsp_new fw) = Some s"
    and st: "st = call_finish C req s"
    using assms by (auto simp: call_single_service_def Let_def)
  have "cs_log st = cs_log s" unfolding st call_finish_def by (auto split: prod.split)
  moreover have "length (concat (map (\<lambda>k. contact i (req_service_name req) (attempt E req rnd k)) [1..<Suc d])) \<le> d" for d
    by (induction d) (auto simp: contact_def split: attempt_outcome.split)
  moreover have "deciding (attempt E req rnd) \<le> 3" by (simp add: deciding_def)
  ultimately show ?thesis using call_attempts_contacts[OF s] by (metis le_trans)
qed

lemma wit_call: "\<exists>st. call_single_service ref_cache wit_env 1 5 wit_req call_rsp_new wit_fw = Some st"
  using call_attempts_verdict[of wit_env 5 wit_req 1 wit_fw] unfolding wit_deciding wit_attempts
  by (auto simp: call_single_service_def Let_def)

theorem call_contacts_in_rotation_witness:
  "\<exists>st. call_single_service ref_cache wit_env 1 5 wit_req call_rsp_new wit_fw = Some st \<and>
     filter is_send (cs_log st) = [Log_send 5 ''svc'' ''10.0.0.1'' ''8080'', Log_send 5 ''svc'' ''10.0.0.2'' ''8080'']"
proof -
  obtain st where st: "call_single_service ref_cache wit_env 1 5 wit_req call_rsp_new wit_fw = Some st"
    using wit_call by blast
  have n: "req_service_name wit_req = ''svc''" by (simp add: wit_req_def call_req_new_def)
  have u: "[1..<Suc 2] = [1, 2]" by (simp add: upt_rec)
  show ?thesis
    using call_contacts_in_rotation[OF _ st] st unfolding wit_deciding u list.map wit_attempts
    by (simp add: n local_test_def contact_def)
qed

text \<open>\<^bold>\<open>C36\<close>. The cache answers only for calls that failed and asked for it, and only with the error-free answer of
  an earlier call with an equal request: if the cache holds answers out of the history \<open>H\<close>, and the other
  fibers keep it so, an answer marked as cached is one of \<open>H\<close> for an equal request, and afterwards the
  cache holds answers out of \<open>H\<close> and the answer of this call.\<close>

theorem cached_answer_is_earlier_answer:
  assumes "cache_ok C" "cached_from C H (fw_cache fw)"
    "\<And>k s. cached_from C H (fw_cache s) \<Longrightarrow> cached_from C H (fw_cache (ae_others (E k) s))"
    "call_single_service C E rnd i req call_rsp_new fw = Some st"
  shows "cached_from C (insert (req, cs_rsp st) H) (fw_cache (cs_fw st)) \<and>
    (rsp_is_cached (cs_rsp st) \<longrightarrow> \<not> cs_success st \<and> req_enable_cache req \<and>
       (\<exists>q v. (q, v) \<in> H \<and> call_req_eq q req \<and> rsp_error v = [] \<and> cs_rsp st = v\<lparr>rsp_is_cached := True\<rparr>))"
  using assms by (rule call_single_cached_from)

definition wit_down :: "nat \<Rightarrow> (ServiceCallReq \<times> ServiceCallRsp) list attempt_env" where
  "wit_down k = \<lparr>ae_registry = wit_sm, ae_send = (\<lambda>_ _ _. Send_failed), ae_others = (\<lambda>s. s)\<rparr>"

definition wit_cached :: "ServiceCallReq \<times> ServiceCallRsp" where
  "wit_cached = (wit_req\<lparr>req_enable_cache := True\<rparr>, call_rsp_new\<lparr>rsp_service_name := ''svc'', rsp_rsp := ''pong''\<rparr>)"

theorem cached_answer_is_earlier_answer_witness:
  "\<exists>st. call_single_service ref_cache wit_down 1 5 (fst wit_cached) call_rsp_new (wit_fw\<lparr>fw_cache := [wit_cached]\<rparr>) = Some st \<and>
     rsp_is_cached (cs_rsp st) \<and> rsp_rsp (cs_rsp st) = ''pong'' \<and> \<not> cs_success st"
proof -
  let ?fw = "wit_fw\<lparr>fw_cache := [wit_cached]\<rparr>"
  have "map_option (\<lambda>st. rsp_is_cached (cs_rsp st))
      (call_single_service ref_cache wit_down 1 5 (fst wit_cached) call_rsp_new ?fw) = Some True"
    by code_simp
  then obtain st where st: "call_single_service ref_cache wit_down 1 5 (fst wit_cached) call_rsp_new ?fw = Some st"
    and c: "rsp_is_cached (cs_rsp st)"
    by auto
  have "cached_from ref_cache {wit_cached} [wit_cached]"
    by (auto simp: cached_from_def cache_has_def ref_cache_def wit_cached_def call_rsp_new_def split: if_splits)
  then have "\<not> cs_success st \<and> req_enable_cache (fst wit_cached) \<and>
     (\<exists>q v. (q, v) \<in> {wit_cached} \<and> call_req_eq q (fst wit_cached) \<and> rsp_error v = [] \<and> cs_rsp st = v\<lparr>rsp_is_cached := True\<rparr>)"
    using cached_answer_is_earlier_answer[OF ref_cache_ok _ _ st, of "{wit_cached}"] c by (simp add: wit_down_def)
  then show ?thesis using st c by (auto simp: wit_cached_def call_rsp_new_def)
qed

lemma call_single_log:
  assumes "call_single_service C E rnd i req call_rsp_new fw = Some st"
  shows "log_disciplined i (req_service_name req) (cs_log st)"
proof (cases "req_service_name req = local_test")
  case True
  then show ?thesis using assms by (auto simp: call_single_service_def Let_def log_disciplined_def)
next
  case False
  then obtain s where s: "call_attempts E i req MAX_RETRY rnd (call_start_state req call_rsp_new fw) = Some s"
    and st: "st = call_finish C req s"
    using assms by (auto simp: call_single_service_def Let_def)
  have "cs_log st = cs_log s" unfolding st call_finish_def by (auto split: prod.split)
  then show ?thesis using call_log_disciplined[OF s] by simp
qed

text \<open>\<^bold>\<open>C37\<close>. The log operations of calls that run at the same time are never undefined: take any number of calls, of one
  request or of several and whatever their outcomes, interleave their log operations in any order, and replay
  them on any log whose entries are proper maps; no operation takes the last element of an empty vector.\<close>

theorem call_log_never_undefined:
  assumes "list_all (\<lambda>st. \<exists>C E rnd i req fw. call_single_service C E rnd i req call_rsp_new fw = Some st) sts" "slots_ok lg"
  shows "\<exists>lg'. log_exec now (weave ks (map cs_log sts)) lg = Some lg'"
proof (rule log_exec_weave[OF assms(2)])
  show "\<forall>l \<in> set (map cs_log sts). log_left lg l"
    using assms(1) call_single_log unfolding list_all_iff log_left_def log_disciplined_def by fastforce
qed

lemma wit_call_log:
  "map_option cs_log (call_single_service ref_cache wit_env 1 5 wit_req call_rsp_new wit_fw) =
     Some [Log_send 5 ''svc'' ''10.0.0.1'' ''8080'', Log_failed 5 ''svc'' ''Send Data Failed.'',
       Log_send 5 ''svc'' ''10.0.0.2'' ''8080'', Log_rsp 5 ''svc'']"
  by code_simp

theorem call_log_never_undefined_witness:
  "\<exists>st lg'. call_single_service ref_cache wit_env 1 5 wit_req call_rsp_new wit_fw = Some st \<and>
     weave [0, 1, 1, 0, 0, 1] (map cs_log [st, st]) =
       [Log_send 5 ''svc'' ''10.0.0.1'' ''8080'', Log_send 5 ''svc'' ''10.0.0.1'' ''8080'', Log_failed 5 ''svc'' ''Send Data Failed.'',
        Log_failed 5 ''svc'' ''Send Data Failed.'', Log_send 5 ''svc'' ''10.0.0.2'' ''8080'', Log_send 5 ''svc'' ''10.0.0.2'' ''8080''] \<and>
     log_exec (\<lambda>_. 0) (weave [0, 1, 1, 0, 0, 1] (map cs_log [st, st])) logger_new = Some lg'"
proof -
  obtain st where st: "call_single_service ref_cache wit_env 1 5 wit_req call_rsp_new wit_fw = Some st"
    and l: "cs_log st = [Log_send 5 ''svc'' ''10.0.0.1'' ''8080'', Log_failed 5 ''svc'' ''Send Data Failed.'',
       Log_send 5 ''svc'' ''10.0.0.2'' ''8080'', Log_rsp 5 ''svc'']"
    using wit_call_log by auto
  have ok: "slots_ok logger_new" by (simp add: slots_ok_def logger_new_def log_data_new_def)
  have c: "list_all (\<lambda>st. \<exists>C E rnd i req fw. call_single_service C E rnd i req call_rsp_new fw = Some st) [st, st]"
    using st by (simp, blast)
  from call_log_never_undefined[OF c ok, of "\<lambda>_. 0" "[0, 1, 1, 0, 0, 1]"] st l show ?thesis by auto
qed

text \<open>A retry goes to another host: while the registry lists the same two or more distinct hosts, two
  consecutive attempts contact different ones.  \<open>rand()\<close> returns less than \<open>2^31\<close>.\<close>

theorem retry_changes_host:
  assumes "get_service_address sm (rnd + of_nat k) name type = Some h" "get_service_address sm (rnd + of_nat (Suc k)) name type = Some h'"
    "map_of (reg_service_host_info sm ! nat type) (name @ connector @ curClusterName sm) = Some hosts"
    "distinct hosts" "2 \<le> length hosts" "unat rnd < 2 ^ 31" "k \<le> MAX_RETRY"
  shows "h \<noteq> h'"
proof -
  have u: "unat (rnd + of_nat j) = unat rnd + j" if "j \<le> Suc MAX_RETRY" for j
    using that assms(6) by (simp add: unat_word_ariths unat_of_nat MAX_RETRY_def)
  let ?m = "unat rnd + k" and ?n = "length hosts"
  have h: "h = hosts ! (?m mod ?n)" "h' = hosts ! (Suc ?m mod ?n)"
    using assms u[of k] u[of "Suc k"] by (auto simp: get_service_address_def split: if_splits)
  have "?m mod ?n \<noteq> Suc ?m mod ?n"
    using assms(5) by (auto simp: mod_Suc split: if_splits)
  moreover have "?m mod ?n < ?n" "Suc ?m mod ?n < ?n"
    using assms(5) by (intro mod_less_divisor, linarith)+
  ultimately show ?thesis using h assms(4) by (simp add: nth_eq_iff_index_eq)
qed

theorem retry_changes_host_witness: "get_service_address wit_sm1 1 ''svc'' 0 \<noteq> get_service_address wit_sm1 2 ''svc'' 0"
proof -
  have "get_service_address wit_sm1 (0 + of_nat 1) ''svc'' 0 = Some (''10.0.0.2'', ''8080'')" by code_simp
  moreover have "get_service_address wit_sm1 (0 + of_nat (Suc 1)) ''svc'' 0 = Some (''10.0.0.1'', ''8080'')" by code_simp
  moreover have "map_of (reg_service_host_info wit_sm1 ! nat 0) (''svc'' @ connector @ curClusterName wit_sm1) =
      Some [(''10.0.0.1'', ''8080''), (''10.0.0.2'', ''8080'')]" by code_simp
  ultimately show ?thesis
    using retry_changes_host[of wit_sm1 0 1 "''svc''" 0] by (simp add: MAX_RETRY_def)
qed

lemma services_answered:
  assumes "call_services_in_fiber C junk i reqs do_transaction fw rsps trs fw'"
  shows "if transaction_allowed do_transaction reqs then list_all2 (answer_of C i) reqs rsps else rsps = refuse_transaction reqs"
  using assms
proof (cases rule: call_services_in_fiber.cases)
  case (single req E rnd st)
  then show ?thesis by (auto simp: answer_of_def)
next
  case (many s)
  then show ?thesis using multi_inv_done[OF multi_inv_run[OF _ multi_inv_start]] by simp
qed simp

text \<open>\<^bold>\<open>C38\<close>. When the callback is called, there is one answer per requested service, in the order of the requests, each of
  them the answer of a finished call of its own service, in whatever order the calls ended; only a transaction that
  is not allowed has the refusal in every answer instead.\<close>

theorem services_each_answered:
  assumes "call_services_in_fiber C junk i reqs do_transaction fw rsps trs fw'"
  shows "if transaction_allowed do_transaction reqs then list_all2 (answer_of C i) reqs rsps else rsps = refuse_transaction reqs"
  using assms by (rule services_answered)

lemma wit_services:
  assumes "call_single_service ref_cache wit_env 1 5 wit_req call_rsp_new wit_fw = Some st"
  shows "call_services_in_fiber ref_cache junk 5 [wit_req] False wit_fw [cs_rsp st] [] (cs_fw st)"
  using call_services_in_fiber.single[OF _ refl assms, of False junk] by (simp add: transaction_allowed_def)

text \<open>Two calls, of which the second ends first.\<close>

lemma two_calls_run:
  assumes "call_single_service C E rnd i b call_rsp_new fw = Some t1" "call_single_service C E rnd i a call_rsp_new (cs_fw t1) = Some t2"
  shows "\<exists>s. multi_run C i [a, b] (multi_start [a, b] fw) s \<and> ms_caller s = Proceed \<and> ms_rsps s = [cs_rsp t2, cs_rsp t1]"
proof -
  let ?step = "multi_step C i [a, b]"
  let ?w = "\<lambda>c ts rs n f. \<lparr>ms_caller = c, ms_tasks = ts, ms_rsps = rs, ms_call_num = n, ms_fw = f\<rparr> :: 'a multi_state"
  let ?n = "call_rsp_new"
  have "?step (?w (Schedule 0) [Unscheduled, Unscheduled] [?n, ?n] 2 fw) (?w (Schedule 1) [Running, Unscheduled] [?n, ?n] 2 fw)"
    using multi_step.schedule[of "?w (Schedule 0) [Unscheduled, Unscheduled] [?n, ?n] 2 fw" 0 "[a, b]" C i] by simp
  moreover have "?step (?w (Schedule 1) [Running, Unscheduled] [?n, ?n] 2 fw) (?w (Schedule 2) [Running, Running] [?n, ?n] 2 fw)"
    using multi_step.schedule[of "?w (Schedule 1) [Running, Unscheduled] [?n, ?n] 2 fw" 1 "[a, b]" C i] by (simp add: numeral_2_eq_2)
  moreover have "?step (?w (Schedule 2) [Running, Running] [?n, ?n] 2 fw) (?w Test [Running, Running] [?n, ?n] 2 fw)"
    using multi_step.scheduled[of "?w (Schedule 2) [Running, Running] [?n, ?n] 2 fw" 2 "[a, b]" C i] by simp
  moreover have "?step (?w Test [Running, Running] [?n, ?n] 2 fw) (?w Wait [Running, Running] [?n, ?n] 2 fw)"
    using multi_step.wait[of "?w Test [Running, Running] [?n, ?n] 2 fw" C i "[a, b]"] by simp
  moreover have "?step (?w Wait [Running, Running] [?n, ?n] 2 fw) (?w Wait [Running, Finished] [?n, cs_rsp t1] 1 (cs_fw t1))"
    using multi_step.finish[of 1 "[a, b]" "?w Wait [Running, Running] [?n, ?n] 2 fw" C E rnd i t1] assms(1) by simp
  moreover have "?step (?w Wait [Running, Finished] [?n, cs_rsp t1] 1 (cs_fw t1)) (?w Test [Finished, Finished] [cs_rsp t2, cs_rsp t1] 0 (cs_fw t2))"
    using multi_step.finish[of 0 "[a, b]" "?w Wait [Running, Finished] [?n, cs_rsp t1] 1 (cs_fw t1)" C E rnd i t2] assms(2) by simp
  moreover have "?step (?w Test [Finished, Finished] [cs_rsp t2, cs_rsp t1] 0 (cs_fw t2)) (?w Proceed [Finished, Finished] [cs_rsp t2, cs_rsp t1] 0 (cs_fw t2))"
    using multi_step.proceed[of "?w Test [Finished, Finished] [cs_rsp t2, cs_rsp t1] 0 (cs_fw t2)" C i "[a, b]"] by simp
  moreover have "multi_start [a, b] fw = ?w (Schedule 0) [Unscheduled, Unscheduled] [?n, ?n] 2 fw"
    by (simp add: multi_start_def numeral_2_eq_2)
  ultimately have "multi_run C i [a, b] (multi_start [a, b] fw) (?w Proceed [Finished, Finished] [cs_rsp t2, cs_rsp t1] 0 (cs_fw t2))"
    by (simp add: converse_rtranclp_into_rtranclp)
  then show ?thesis by auto
qed

definition wit_local :: ServiceCallReq where
  "wit_local = call_req_new\<lparr>req_service_name := local_test\<rparr>"

lemma wit_two_calls:
  "\<exists>rsps fw'. call_services_in_fiber ref_cache '''' 5 [wit_req, wit_local] False wit_fw rsps [] fw' \<and> map rsp_rsp rsps = [''pong'', ''local_test'']"
proof -
  have "map_option (\<lambda>t. (cs_fw t, rsp_rsp (cs_rsp t))) (call_single_service ref_cache wit_env 1 5 wit_local call_rsp_new wit_fw) =
      Some (wit_fw, ''local_test'')" by code_simp
  then obtain t1 where t1: "call_single_service ref_cache wit_env 1 5 wit_local call_rsp_new wit_fw = Some t1" "cs_fw t1 = wit_fw"
    "rsp_rsp (cs_rsp t1) = ''local_test''" by auto
  have "map_option (\<lambda>t. rsp_rsp (cs_rsp t)) (call_single_service ref_cache wit_env 1 5 wit_req call_rsp_new wit_fw) = Some ''pong''"
    by code_simp
  then obtain t2 where t2: "call_single_service ref_cache wit_env 1 5 wit_req call_rsp_new (cs_fw t1) = Some t2"
    "rsp_rsp (cs_rsp t2) = ''pong''" using t1(2) by auto
  obtain s where "multi_run ref_cache 5 [wit_req, wit_local] (multi_start [wit_req, wit_local] wit_fw) s" "ms_caller s = Proceed"
    "ms_rsps s = [cs_rsp t2, cs_rsp t1]" using two_calls_run[OF t1(1) t2(1)] by blast
  then show ?thesis
    using call_services_in_fiber.many[of False "[wit_req, wit_local]" ref_cache 5 wit_fw s "''''"] t1(3) t2(2)
    by (intro exI[of _ "ms_rsps s"] exI[of _ "ms_fw s"]) (simp add: transaction_allowed_def)
qed

theorem services_each_answered_witness:
  "\<exists>rsps fw'. call_services_in_fiber ref_cache '''' 5 [wit_req, wit_local] False wit_fw rsps [] fw' \<and>
     map rsp_rsp rsps = [''pong'', ''local_test''] \<and> list_all2 (answer_of ref_cache 5) [wit_req, wit_local] rsps"
proof -
  obtain rsps fw' where w: "call_services_in_fiber ref_cache '''' 5 [wit_req, wit_local] False wit_fw rsps [] fw'"
    "map rsp_rsp rsps = [''pong'', ''local_test'']" using wit_two_calls by (elim exE conjE)
  then show ?thesis using services_each_answered[OF w(1)] by (auto simp: transaction_allowed_def)
qed

text \<open>\<^bold>\<open>C39\<close>. The caller is never stranded on the condition variable: in every reachable state in which it waits, some
  scheduled call is still running, and the call that ends last puts the caller back to its test.\<close>

theorem waiting_caller_is_woken:
  assumes "multi_run C i reqs (multi_start reqs fw) s" "ms_caller s = Wait"
  shows "(\<exists>k < length reqs. ms_tasks s ! k = Running) \<and>
    (\<forall>s'. multi_step C i reqs s s' \<and> ms_call_num s' = 0 \<longrightarrow> ms_caller s' = Test)"
proof -
  have inv: "multi_inv C i reqs s" using assms(1) by (rule multi_inv_run) (rule multi_inv_start)
  have "ms_caller s' = Test" if "multi_step C i reqs s s'" "ms_call_num s' = 0" for s'
    using that assms(2) inv by (cases rule: multi_step.cases) (auto simp: multi_inv_def)
  then show ?thesis using multi_inv_running[OF inv assms(2)] by blast
qed

definition wit_waiting :: "(ServiceCallReq \<times> ServiceCallRsp) list multi_state" where
  "wit_waiting = \<lparr>ms_caller = Wait, ms_tasks = [Running, Running], ms_rsps = [call_rsp_new, call_rsp_new],
     ms_call_num = 2, ms_fw = wit_fw\<rparr>"

lemma wit_waiting_run: "multi_run ref_cache 5 [wit_req, wit_req] (multi_start [wit_req, wit_req] wit_fw) wit_waiting"
proof -
  let ?step = "multi_step ref_cache 5 [wit_req, wit_req]"
  let ?s = "multi_start [wit_req, wit_req] wit_fw"
  let ?s1 = "?s\<lparr>ms_caller := Schedule (Suc 0), ms_tasks := (ms_tasks ?s)[0 := Running]\<rparr>"
  let ?s2 = "?s1\<lparr>ms_caller := Schedule (Suc (Suc 0)), ms_tasks := (ms_tasks ?s1)[Suc 0 := Running]\<rparr>"
  have "?step ?s ?s1" by (rule multi_step.schedule) (simp_all add: multi_start_def)
  moreover have "?step ?s1 ?s2" by (rule multi_step.schedule) simp_all
  moreover have "?step ?s2 (?s2\<lparr>ms_caller := Test\<rparr>)" by (rule multi_step.scheduled[where k = "Suc (Suc 0)"]) simp_all
  moreover have "?step (?s2\<lparr>ms_caller := Test\<rparr>) (?s2\<lparr>ms_caller := Test\<rparr>\<lparr>ms_caller := Wait\<rparr>)"
    by (rule multi_step.wait) (simp_all add: multi_start_def)
  moreover have "?s2\<lparr>ms_caller := Test\<rparr>\<lparr>ms_caller := Wait\<rparr> = wit_waiting"
    by (simp add: multi_start_def wit_waiting_def)
  ultimately show ?thesis by (metis (no_types, lifting) converse_rtranclp_into_rtranclp rtranclp.rtrancl_refl)
qed

theorem waiting_caller_is_woken_witness:
  "ms_caller wit_waiting = Wait \<and> (\<exists>k < 2. ms_tasks wit_waiting ! k = Running)"
  using waiting_caller_is_woken[OF wit_waiting_run] by (simp add: wit_waiting_def numeral_2_eq_2)

text \<open>The searches for the transaction id compare with the terminating NUL of a string literal, so no id is
  ever found in a response without NUL bytes: a transaction with a failed call cancels nothing, and a
  successful one is confirmed with an empty id.\<close>

theorem transaction_ids_never_found:
  assumes "call_services_in_fiber C junk i reqs True fw rsps trs fw'" "transaction_allowed True reqs"
    "\<forall>r \<in> set rsps. CHR 0x00 \<notin> set (rsp_error r) \<union> set (rsp_rsp r)"
  shows "trs = (if need_cancel rsps then []
    else map (\<lambda>(req, r). tran_confirm (rsp_host r) (rsp_port r) (req_service_api req) '''') (zip reqs rsps))"
proof -
  have trs: "trs = end_transaction junk reqs rsps"
    using assms(1,2) by (cases rule: call_services_in_fiber.cases) auto
  have "tran_id_of junk r = []" if "r \<in> set rsps" for r
    using assms(3) that by (simp add: tran_id_of_def no_transaction_id)
  then have "map (\<lambda>(req, r). let t = tran_id_of junk r in
       if need_cancel rsps
       then (if t = [] then [] else [tran_cancel (rsp_host r) (rsp_port r) (req_service_api req) t])
       else [tran_confirm (rsp_host r) (rsp_port r) (req_service_api req) t]) (zip reqs rsps) =
     map (\<lambda>(req, r). if need_cancel rsps then []
       else [tran_confirm (rsp_host r) (rsp_port r) (req_service_api req) '''']) (zip reqs rsps)"
    by (auto simp: Let_def dest: set_zip_rightD)
  then have "trs = concat (map (\<lambda>(req, r). if need_cancel rsps then []
       else [tran_confirm (rsp_host r) (rsp_port r) (req_service_api req) '''']) (zip reqs rsps))"
    unfolding trs end_transaction_def by (rule arg_cong)
  moreover have "concat (map (\<lambda>(req, r). [f req r]) zs) = map (\<lambda>(req, r). f req r) zs" for zs and f :: "_ \<Rightarrow> _ \<Rightarrow> transaction_call"
    by (induction zs) auto
  moreover have "concat (map (\<lambda>(req, r). []) zs) = ([] :: transaction_call list)" for zs :: "(ServiceCallReq \<times> ServiceCallRsp) list"
    by (induction zs) auto
  ultimately show ?thesis by (cases "need_cancel rsps") simp_all
qed

theorem transaction_ids_never_found_witness:
  "\<exists>rsp fw'. call_services_in_fiber ref_cache ''x'' 5 [wit_req] True wit_fw [rsp]
      [tran_confirm ''10.0.0.2'' ''8080'' ''/ping'' ''''] fw'"
proof -
  have "map_option (\<lambda>st. cs_rsp st) (call_single_service ref_cache wit_env 1 5 wit_req call_rsp_new wit_fw) =
      Some (call_rsp_new\<lparr>rsp_service_name := ''svc'', rsp_rsp := ''pong'', rsp_host := ''10.0.0.2'', rsp_port := ''8080''\<rparr>)"
    by code_simp
  then obtain st where st: "call_single_service ref_cache wit_env 1 5 wit_req call_rsp_new wit_fw = Some st"
    and r: "cs_rsp st = call_rsp_new\<lparr>rsp_service_name := ''svc'', rsp_rsp := ''pong'', rsp_host := ''10.0.0.2'', rsp_port := ''8080''\<rparr>"
    by auto
  have a: "transaction_allowed True [wit_req]"
    by (simp add: transaction_allowed_def wit_req_def call_req_new_def)
  let ?trs = "end_transaction ''x'' [wit_req] [cs_rsp st]"
  have c: "call_services_in_fiber ref_cache ''x'' 5 [wit_req] True wit_fw [cs_rsp st] ?trs (cs_fw st)"
    using call_services_in_fiber.single[OF a refl st, of "''x''"] by simp
  have "?trs = [tran_confirm ''10.0.0.2'' ''8080'' ''/ping'' '''']"
    using transaction_ids_never_found[OF c a]
    by (simp add: r call_rsp_new_def need_cancel_def wit_req_def)
  then show ?thesis using c by auto
qed

text \<open>A transaction over a service that is not an HTTP service is refused as a whole: no service is called, every
  answer carries the refusal, nothing is confirmed or cancelled.\<close>

theorem mixed_transaction_refused:
  assumes "call_services_in_fiber C junk i reqs True fw rsps trs fw'"
    "r \<in> set reqs" "req_service_type r \<noteq> service_type_val HTTP_Service"
  shows "rsps = refuse_transaction reqs \<and> trs = [] \<and> fw' = fw"
proof -
  have no: "\<not> transaction_allowed True reqs" using assms(2,3) by (auto simp: transaction_allowed_def list_all_iff)
  show ?thesis using assms(1) no by (cases rule: call_services_in_fiber.cases) auto
qed

theorem mixed_transaction_refused_witness:
  "\<exists>rsps trs. call_services_in_fiber ref_cache '''' 5 [wit_req\<lparr>req_service_type := 1\<rparr>] True wit_fw rsps trs wit_fw \<and>
     rsps = refuse_transaction [wit_req\<lparr>req_service_type := 1\<rparr>] \<and> trs = []"
proof -
  let ?r = "wit_req\<lparr>req_service_type := 1\<rparr>"
  have "\<not> transaction_allowed True [?r]" by (simp add: transaction_allowed_def)
  then have c: "call_services_in_fiber ref_cache '''' 5 [?r] True wit_fw (refuse_transaction [?r]) [] wit_fw"
    by (rule call_services_in_fiber.refused)
  have "refuse_transaction [?r] = refuse_transaction [?r] \<and> ([] :: transaction_call list) = [] \<and> wit_fw = wit_fw"
    by (rule mixed_transaction_refused[OF c, of ?r]) simp_all
  with c show ?thesis by blast
qed

end
