(* ===== verification/Port_Forward_Mgr.thy ===== *)
theory Port_Forward_Mgr
  imports Service_Registry
begin

text \<open>
  The table of forwarded ports, \<open>forward-manager/FibpPortForwardMgr.cpp\<close>: which local port forwards
  to which service, the servers that listen on the ports, and how an accepted connection is
  connected to a host of the service.

  The port a listening socket is bound to is chosen by the operating system and is an argument
  (\<open>None\<close> when binding throws).  The outcome of a connection attempt is an argument as well, and
  so is the state of the service registry at each attempt, because the fiber yields in between.
\<close>

record ForwardServerInfo =
  fsi_bound_port :: "16 word"
  fsi_pool_size :: nat

record forward_mgr =
  forward_service_list :: "(16 word \<times> ForwardInfoT) list"
  forward_server_list :: "(16 word \<times> ForwardServerInfo) list"

definition forward_mgr_new :: forward_mgr where
  "forward_mgr_new = \<lparr>forward_service_list = [], forward_server_list = []\<rparr>"

definition getAllForwardServices :: "forward_mgr \<Rightarrow> ForwardInfoT list \<Rightarrow> ForwardInfoT list" where
  "getAllForwardServices m services = services @ map snd (forward_service_list m)"

definition getForwardService :: "forward_mgr \<Rightarrow> 16 word \<Rightarrow> ForwardInfoT option" where
  "getForwardService m port = map_of (forward_service_list m) port"

definition updateForwardService :: "16 word \<Rightarrow> string \<Rightarrow> int \<Rightarrow> forward_mgr \<Rightarrow> forward_mgr" where
  "updateForwardService port name type m =
     m\<lparr>forward_service_list := smap_put port
        \<lparr>fi_service_name = name, fi_service_type = type, fi_port = port\<rparr> (forward_service_list m)\<rparr>"

text \<open>The handler of \<open>run_server\<close> when the server's loop throws.\<close>

definition run_server_failed :: "16 word \<Rightarrow> forward_mgr \<Rightarrow> forward_mgr" where
  "run_server_failed port m = m\<lparr>forward_server_list := smap_erase port (forward_server_list m)\<rparr>"

definition start_forward_server :: "16 word option \<Rightarrow> forward_mgr \<Rightarrow> (forward_mgr \<times> 16 word) option" where
  "start_forward_server bound m =
     (case bound of
        None \<Rightarrow> None
      | Some port \<Rightarrow>
          Some (m\<lparr>forward_server_list := smap_put port \<lparr>fsi_bound_port = port, fsi_pool_size = 4\<rparr>
                   (forward_server_list m)\<rparr>, port))"

text \<open>The second component is the server that is stopped and joined.\<close>

definition stop_forward :: "16 word \<Rightarrow> forward_mgr \<Rightarrow> forward_mgr \<times> ForwardServerInfo option" where
  "stop_forward port m =
     (case map_of (forward_server_list m) port of
        None \<Rightarrow> (m, None)
      | Some fs \<Rightarrow>
          (m\<lparr>forward_server_list := smap_erase port (forward_server_list m),
             forward_service_list := smap_erase port (forward_service_list m)\<rparr>, Some fs))"

definition stop_all_forwards :: "forward_mgr \<Rightarrow> forward_mgr \<times> ForwardServerInfo list" where
  "stop_all_forwards m =
     (m\<lparr>forward_server_list := [], forward_service_list := []\<rparr>, map snd (forward_server_list m))"

text \<open>\<open>FibpForwardManager::startPortForward\<close>, \<open>stopPortForward\<close>.\<close>

definition startPortForward ::
  "16 word option \<Rightarrow> string \<Rightarrow> int \<Rightarrow> forward_mgr \<Rightarrow> (forward_mgr \<times> 16 word) option" where
  "startPortForward bound name type m =
     (case start_forward_server bound m of
        None \<Rightarrow> None
      | Some (m', port) \<Rightarrow> Some (updateForwardService port name type m', port))"

definition stopPortForward :: "16 word \<Rightarrow> forward_mgr \<Rightarrow> forward_mgr" where
  "stopPortForward port m = fst (stop_forward port m)"

section \<open>Connecting a forwarded connection\<close>

datatype errc = Not_supported | Net_error int

text \<open>The loop \<open>while(--retry > 0)\<close>; the balance index is incremented before every lookup.  The
  result is the error code and the connected host.\<close>

fun create_loop ::
  "(nat \<Rightarrow> service_mgr) \<Rightarrow> (nat \<Rightarrow> HostPairT \<Rightarrow> errc option) \<Rightarrow> ForwardInfoT \<Rightarrow> nat \<Rightarrow> 64 word \<Rightarrow>
   errc option \<Rightarrow> errc option \<times> HostPairT option" where
  "create_loop reg conn fi 0 bi ec = (ec, None)"
| "create_loop reg conn fi (Suc r) bi ec =
     (if r = 0 then (ec, None)
      else
        (let found = (case get_service_address (reg r) (bi + 1) (fi_service_name fi) (fi_service_type fi) of
               Some hp \<Rightarrow> Some (hp, bi + 1)
             | None \<Rightarrow>
                 if fi_service_type fi = service_type_val Custom_Service
                 then map_option (\<lambda>hp. (hp, bi + 2))
                        (get_service_address (reg r) (bi + 2) (fi_service_name fi)
                          (service_type_val HTTP_Service))
                 else None)
         in case found of
              None \<Rightarrow> (Some Not_supported, None)
            | Some (hp, bi') \<Rightarrow>
                (case conn r hp of
                   Some e \<Rightarrow> create_loop reg conn fi r bi' (Some e)
                 | None \<Rightarrow> (None, Some hp))))"

definition create_forward_connection ::
  "(nat \<Rightarrow> service_mgr) \<Rightarrow> (nat \<Rightarrow> HostPairT \<Rightarrow> errc option) \<Rightarrow> nat \<Rightarrow> forward_mgr \<Rightarrow> 16 word \<Rightarrow>
   errc option \<times> HostPairT option" where
  "create_forward_connection reg conn rnd m port =
     (case map_of (forward_service_list m) port of
        None \<Rightarrow> (Some Not_supported, None)
      | Some fi \<Rightarrow> create_loop reg conn fi 3 (of_nat (rnd mod 1000)) None)"

section \<open>Invariant of the tables\<close>

text \<open>Both tables are ordered, every entry is filed under its own port, and the same ports occur in
  both.\<close>

definition forward_tables_ok :: "forward_mgr \<Rightarrow> bool" where
  "forward_tables_ok m \<longleftrightarrow>
     smap_ok (forward_service_list m) \<and> smap_ok (forward_server_list m) \<and>
     (\<forall>p fi. map_of (forward_service_list m) p = Some fi \<longrightarrow> fi_port fi = p) \<and>
     (\<forall>p. map_of (forward_service_list m) p = None \<longleftrightarrow> map_of (forward_server_list m) p = None)"

lemma forward_tables_new: "forward_tables_ok forward_mgr_new"
  by (simp add: forward_tables_ok_def forward_mgr_new_def)

lemma forward_tables_server:
  "forward_tables_ok m \<Longrightarrow> map_of (forward_server_list m) p = None \<longleftrightarrow> getForwardService m p = None"
  by (simp add: forward_tables_ok_def getForwardService_def)

lemma startPortForward_look:
  assumes "forward_tables_ok m" "startPortForward bound name type m = Some (m', p)"
  shows "bound = Some p" "forward_tables_ok m'"
    "map_of (forward_service_list m') = (map_of (forward_service_list m))
       (p \<mapsto> \<lparr>fi_service_name = name, fi_service_type = type, fi_port = p\<rparr>)"
    "map_of (forward_server_list m') q = None \<longleftrightarrow> q \<noteq> p \<and> map_of (forward_server_list m) q = None"
  using assms
  by (auto simp: startPortForward_def start_forward_server_def updateForwardService_def
      forward_tables_ok_def smap_simps split: option.splits if_splits)

lemma stopPortForward_look:
  assumes "forward_tables_ok m"
  shows "forward_tables_ok (stopPortForward p m)"
    "map_of (forward_service_list (stopPortForward p m)) = (map_of (forward_service_list m))(p := None)"
    "map_of (forward_server_list (stopPortForward p m)) = (map_of (forward_server_list m))(p := None)"
proof -
  have none: "map_of (forward_server_list m) p = None \<Longrightarrow> map_of (forward_service_list m) p = None"
    using assms by (auto simp: forward_tables_ok_def)
  show "forward_tables_ok (stopPortForward p m)"
    using assms by (auto simp: stopPortForward_def stop_forward_def forward_tables_ok_def smap_simps
        split: option.split if_splits)
  show "map_of (forward_service_list (stopPortForward p m)) = (map_of (forward_service_list m))(p := None)"
    using none by (auto simp: stopPortForward_def stop_forward_def smap_simps fun_eq_iff split: option.split)
  show "map_of (forward_server_list (stopPortForward p m)) = (map_of (forward_server_list m))(p := None)"
    by (auto simp: stopPortForward_def stop_forward_def smap_simps fun_eq_iff split: option.split)
qed

lemma stop_all_tables_ok: "forward_tables_ok (fst (stop_all_forwards m))"
  by (simp add: stop_all_forwards_def forward_tables_ok_def)

section \<open>Properties\<close>

lemma create_loop_registered:
  "create_loop reg conn fi n bi ec = (ec', Some hp) \<Longrightarrow>
     \<exists>r b t. (t = fi_service_type fi \<or> fi_service_type fi = service_type_val Custom_Service \<and> t = 0) \<and>
       get_service_address (reg r) b (fi_service_name fi) t = Some hp \<and> conn r hp = None \<and> ec' = None"
proof (induction n arbitrary: bi ec)
  case (Suc r)
  let ?a = "get_service_address (reg r) (bi + 1) (fi_service_name fi) (fi_service_type fi)"
  let ?b = "get_service_address (reg r) (bi + 2) (fi_service_name fi) (service_type_val HTTP_Service)"
  have r: "r \<noteq> 0" using Suc.prems by (auto split: if_splits)
  consider (direct) x where "?a = Some x"
    | (fallback) x where "?a = None" "fi_service_type fi = service_type_val Custom_Service" "?b = Some x"
    using Suc.prems r by (auto simp: Let_def split: option.splits if_splits)
  then obtain x b t where x: "t = fi_service_type fi \<or> fi_service_type fi = service_type_val Custom_Service \<and> t = 0"
      "get_service_address (reg r) b (fi_service_name fi) t = Some x"
      "create_loop reg conn fi (Suc r) bi ec =
         (case conn r x of Some e \<Rightarrow> create_loop reg conn fi r b (Some e) | None \<Rightarrow> (None, Some x))"
  proof cases
    case direct
    then show thesis using r by (intro that[of "fi_service_type fi" "bi + 1" x]) (simp_all add: Let_def)
  next
    case fallback
    then show thesis using r by (intro that[of 0 "bi + 2" x]) (simp_all add: Let_def)
  qed
  show ?case
  proof (cases "conn r x")
    case None
    with x Suc.prems have "hp = x" "ec' = None" by simp_all
    with None x(1,2) show ?thesis by blast
  next
    case (Some e)
    with x(3) Suc.prems show ?thesis by (intro Suc.IH[of b "Some e"]) simp
  qed
qed simp

text \<open>\<^bold>\<open>C9\<close>.  A forwarded connection is only ever connected to an address that the service registry
  gave, at the time of the attempt, for the service the port is configured for: under its own
  type, or as an HTTP service when the configured type is \<open>Custom_Service\<close>.  Ports that are not
  configured are refused.\<close>

theorem forward_connects_registered_host:
  assumes "create_forward_connection reg conn rnd m port = (ec, Some hp)"
  shows "\<exists>fi r b t. getForwardService m port = Some fi \<and>
    (t = fi_service_type fi \<or> fi_service_type fi = service_type_val Custom_Service \<and> t = 0) \<and>
    get_service_address (reg r) b (fi_service_name fi) t = Some hp \<and> conn r hp = None \<and> ec = None"
proof -
  obtain fi where fi: "getForwardService m port = Some fi"
    "create_loop reg conn fi 3 (of_nat (rnd mod 1000)) None = (ec, Some hp)"
    using assms by (auto simp: create_forward_connection_def getForwardService_def
        simp del: create_loop.simps split: option.splits)
  from create_loop_registered[OF fi(2)] fi(1) show ?thesis by blast
qed

definition wit_fm :: forward_mgr where
  "wit_fm = updateForwardService 4000 ''svc'' 0 forward_mgr_new"

lemma wit_connect:
  "create_forward_connection (\<lambda>_. wit_sm1) (\<lambda>r hp. if r = (2 :: nat) then Some (Net_error 111) else None) 6 wit_fm 4000 =
     (None, Some (''10.0.0.1'', ''8080''))"
  by code_simp

theorem forward_connects_registered_host_witness:
  "\<exists>fi r b t. getForwardService wit_fm 4000 = Some fi \<and>
    (t = fi_service_type fi \<or> fi_service_type fi = service_type_val Custom_Service \<and> t = 0) \<and>
    get_service_address ((\<lambda>_. wit_sm1) r) b (fi_service_name fi) t = Some (''10.0.0.1'', ''8080'') \<and>
    (\<lambda>r hp. if r = (2 :: nat) then Some (Net_error 111) else None) r (''10.0.0.1'', ''8080'') = None \<and>
    None = (None :: errc option)"
  by (rule forward_connects_registered_host[OF wit_connect])

lemma rand_index: "k < 1000 \<Longrightarrow> unat (of_nat (rnd mod 1000) + of_nat k :: 64 word) = rnd mod 1000 + k"
proof -
  assume "k < 1000"
  moreover have "rnd mod 1000 < 1000" by simp
  ultimately have "rnd mod 1000 + k < 2 ^ 64" by simp
  then have "unat (of_nat (rnd mod 1000 + k) :: 64 word) = rnd mod 1000 + k"
    by (simp only: unat_of_nat) simp
  then show ?thesis by simp
qed

text \<open> With a registry that does not change, a forwarded connection is tried on two hosts: the
  host after the random start index and, if that fails, the next one in the list; then the error
  of the second attempt is returned.  A third attempt is never made although the retry counter
  starts at 3.\<close>

theorem forward_tries_two_hosts:
  assumes "getForwardService m port = Some fi" "0 \<le> fi_service_type fi"
    "nat (fi_service_type fi) < length (reg_service_host_info sm)"
    "map_of (reg_service_host_info sm ! nat (fi_service_type fi))
       (fi_service_name fi @ connector @ curClusterName sm) = Some hosts"
    "hosts \<noteq> []"
  shows "create_forward_connection (\<lambda>_. sm) conn rnd m port =
    (let h1 = hosts ! ((rnd mod 1000 + 1) mod length hosts);
         h2 = hosts ! ((rnd mod 1000 + 2) mod length hosts)
     in case conn 2 h1 of
          None \<Rightarrow> (None, Some h1)
        | Some _ \<Rightarrow> (case conn 1 h2 of None \<Rightarrow> (None, Some h2) | Some e \<Rightarrow> (Some e, None)))"
proof -
  have a: "get_service_address sm b (fi_service_name fi) (fi_service_type fi) =
      Some (hosts ! (unat b mod length hosts))" for b
    using assms(2-5) by (simp add: get_service_address_def)
  have i: "unat (of_nat (rnd mod 1000) + 1 :: 64 word) = rnd mod 1000 + 1"
    "unat (2 + of_nat (rnd mod 1000) :: 64 word) = Suc (Suc (rnd mod 1000))"
    using rand_index[of 1 rnd] rand_index[of 2 rnd] by (simp_all add: add.commute)
  show ?thesis
    using assms(1)
    by (simp add: create_forward_connection_def getForwardService_def numeral_3_eq_3 numeral_2_eq_2
        a i Let_def split: option.split)
qed

theorem forward_tries_two_hosts_witness:
  "create_forward_connection (\<lambda>_. wit_sm1) (\<lambda>r hp. Some (Net_error 111)) 6 wit_fm 4000 =
     (Some (Net_error 111), None)"
proof -
  have "getForwardService wit_fm 4000 = Some \<lparr>fi_service_name = ''svc'', fi_service_type = 0, fi_port = 4000\<rparr>"
    by code_simp
  moreover have "map_of (reg_service_host_info wit_sm1 ! nat 0) (''svc'' @ connector @ curClusterName wit_sm1) =
      Some [(''10.0.0.1'', ''8080''), (''10.0.0.2'', ''8080'')]" by code_simp
  moreover have "nat 0 < length (reg_service_host_info wit_sm1)" by code_simp
  ultimately show ?thesis
    by (subst forward_tries_two_hosts[where hosts = "[(''10.0.0.1'', ''8080''), (''10.0.0.2'', ''8080'')]"
          and fi = "\<lparr>fi_service_name = ''svc'', fi_service_type = 0, fi_port = 4000\<rparr>"]) simp_all
qed

text \<open> When the server of a port has failed, its entry in the service table outlives a later
  \<open>stopPortForward\<close>: the handler of the failure erases only the server, and \<open>stopPortForward\<close>
  returns early when it finds no server.\<close>

theorem failed_server_entry_survives_stop:
  "getForwardService (stopPortForward p (run_server_failed p m)) p = getForwardService m p"
  by (simp add: getForwardService_def stopPortForward_def stop_forward_def run_server_failed_def
      map_of_smap_erase)

end
