(* ===== verification/Port_Forward_Watch.thy ===== *)
theory Port_Forward_Watch
  imports Port_Forward_Mgr
begin

text \<open>
  The watcher that keeps the forwarded ports in step with the keys of the discovery server,
  \<open>FibpServiceMgr::watchPortForwardChangeFunc\<close>, with \<open>parseForwardPortListRsp\<close>,
  \<open>getForwardPortInfo\<close>, \<open>get_related_forward_ports\<close> and
  \<open>FibpForwardManager::getAllPortForwardServices\<close>.

  A key is an agent id of ten characters and a name; the value is a service name and a type.  All
  agents that ask for the same service share one forwarded port.  The locale \<open>forward_table\<close> is
  what the watcher relies on of the port table.
\<close>

section \<open>Keys and values\<close>

definition forward_prefix :: string where "forward_prefix = ''fibp-forward-port/''"

definition parseForwardPortListRsp :: "rapidjson \<Rightarrow> string \<Rightarrow> bool \<times> string list" where
  "parseForwardPortListRsp J json_rsp =
     (case doc_parse J json_rsp of
        Some (JArray ks) \<Rightarrow>
          (True, map (drop (length forward_prefix))
             (filter (\<lambda>s. length s > length forward_prefix) (map (get_str J) ks)))
      | _ \<Rightarrow> (False, []))"

datatype port_info = Info_failed | Info_throw | Info_ok string int

definition getForwardPortInfo :: "boost_lib \<Rightarrow> (request_t \<Rightarrow> http_outcome) \<Rightarrow> string \<Rightarrow> port_info" where
  "getForwardPortInfo B client forwardkey =
     (case longPollingRequest B client (port_forward_key @ ''/'' @ forwardkey) ''raw'' 0 (- 1) of
        Poll_failed \<Rightarrow> Info_failed
      | Poll_throw \<Rightarrow> Info_throw
      | Poll_ok _ info \<Rightarrow>
          (let elems = b_split_compress B '','' info in
           if length elems < 2 then Info_failed
           else
             (let ty = b_to_lower B (elems ! 1) in
              Info_ok (elems ! 0)
                (service_type_val
                  (if ty = http_service_str then HTTP_Service
                   else if ty = rpc_service_str then RPC_Service
                   else if ty = raw_service_str then Raw_Service
                   else Custom_Service)))))"

section \<open>One turn of the watcher\<close>

record ServiceInfo =
  si_service_name :: string
  si_type :: int

definition service_uniquestr :: "boost_lib \<Rightarrow> string \<Rightarrow> int \<Rightarrow> string" where
  "service_uniquestr B name type = name @ b_of_int B type"

text \<open>The local variables of the watcher, and the ones of its loop over the keys together with the
  port table.\<close>

record port_watch =
  pw_indexid :: "32 word"
  pw_balance :: "32 word"
  pw_last_ports :: "(16 word \<times> string list) list"
  pw_service_port :: "(string \<times> 16 word) list"
  pw_previous_keys :: "(string \<times> ServiceInfo) list"

record key_loop =
  kl_last_ports :: "(16 word \<times> string list) list"
  kl_service_port :: "(string \<times> 16 word) list"
  kl_new_keys :: "(string \<times> ServiceInfo) list"
  kl_mgr :: forward_mgr

text \<open>\<open>last_ports[port].insert(agentid)\<close>.\<close>

definition add_agent ::
  "16 word \<Rightarrow> string \<Rightarrow> (16 word \<times> string list) list \<Rightarrow> (16 word \<times> string list) list" where
  "add_agent port agent m =
     smap_put port (sset_insert agent (case map_of m port of Some s \<Rightarrow> s | None \<Rightarrow> [])) m"

text \<open>What is known of a key: the info of the previous turn, or the value fetched now.\<close>

definition key_info ::
  "boost_lib \<Rightarrow> (request_t \<Rightarrow> http_outcome) \<Rightarrow> (string \<times> ServiceInfo) list \<Rightarrow> string \<Rightarrow> port_info" where
  "key_info B client prev forwardkey =
     (case map_of prev forwardkey of
        Some si \<Rightarrow> Info_ok (si_service_name si) (si_type si)
      | None \<Rightarrow> getForwardPortInfo B client forwardkey)"

text \<open>The body of the loop over the keys; \<open>None\<close> is an exception.  \<open>bind m\<close> is the port the
  operating system gives a new server when the table is \<open>m\<close>.\<close>

definition handle_key ::
  "boost_lib \<Rightarrow> (request_t \<Rightarrow> http_outcome) \<Rightarrow> (forward_mgr \<Rightarrow> 16 word option) \<Rightarrow>
   (string \<times> ServiceInfo) list \<Rightarrow> string \<Rightarrow> key_loop \<Rightarrow> key_loop option" where
  "handle_key B client bind prev forwardkey kl =
     (if length forwardkey \<le> AGENT_ID_LEN then Some kl
      else
        (let agentid = take AGENT_ID_LEN forwardkey in
         case key_info B client prev forwardkey of
           Info_failed \<Rightarrow> Some kl
         | Info_throw \<Rightarrow> None
         | Info_ok name type \<Rightarrow>
             (let u = service_uniquestr B name type;
                  kl1 = kl\<lparr>kl_new_keys := smap_put forwardkey
                          \<lparr>si_service_name = name, si_type = type\<rparr> (kl_new_keys kl)\<rparr>
              in case map_of (kl_service_port kl1) u of
                   Some port \<Rightarrow> Some (kl1\<lparr>kl_last_ports := add_agent port agentid (kl_last_ports kl1)\<rparr>)
                 | None \<Rightarrow>
                     (case startPortForward (bind (kl_mgr kl1)) name type (kl_mgr kl1) of
                        None \<Rightarrow> None
                      | Some (m', port) \<Rightarrow>
                          Some (kl1\<lparr>kl_mgr := m',
                                  kl_service_port := smap_put u port (kl_service_port kl1),
                                  kl_last_ports := add_agent port agentid (kl_last_ports kl1)\<rparr>)))))"

fun handle_keys ::
  "boost_lib \<Rightarrow> (request_t \<Rightarrow> http_outcome) \<Rightarrow> (forward_mgr \<Rightarrow> 16 word option) \<Rightarrow>
   (string \<times> ServiceInfo) list \<Rightarrow> string list \<Rightarrow> key_loop \<Rightarrow> key_loop option" where
  "handle_keys B client bind prev [] kl = Some kl"
| "handle_keys B client bind prev (k # ks) kl =
     (case handle_key B client bind prev k kl of
        None \<Rightarrow> None | Some kl' \<Rightarrow> handle_keys B client bind prev ks kl')"

text \<open>The loop over the ports: a port that no agent uses is stopped and its service forgotten.\<close>

definition drop_port :: "boost_lib \<Rightarrow> 16 word \<Rightarrow> (string \<times> 16 word) list \<times> forward_mgr \<Rightarrow>
   (string \<times> 16 word) list \<times> forward_mgr" where
  "drop_port B port = (\<lambda>(sp, m).
     ((case getForwardService m port of
         Some info \<Rightarrow> smap_erase (service_uniquestr B (fi_service_name info) (fi_service_type info)) sp
       | None \<Rightarrow> sp),
      stopPortForward port m))"

definition unused_ports :: "(16 word \<times> string list) list \<Rightarrow> 16 word list" where
  "unused_ports lp = map fst (filter (\<lambda>(p, agents). agents = []) lp)"

definition drop_unused :: "boost_lib \<Rightarrow> key_loop \<Rightarrow> key_loop" where
  "drop_unused B kl =
     (case fold (drop_port B) (unused_ports (kl_last_ports kl)) (kl_service_port kl, kl_mgr kl) of
        (sp, m) \<Rightarrow>
          kl\<lparr>kl_service_port := sp, kl_mgr := m,
             kl_last_ports := fold smap_erase (unused_ports (kl_last_ports kl)) (kl_last_ports kl)\<rparr>)"

definition add_agent_port ::
  "16 word \<Rightarrow> string \<Rightarrow> (string \<times> 16 word list) list \<Rightarrow> (string \<times> 16 word list) list" where
  "add_agent_port port agent m =
     smap_put agent (sset_insert port (case map_of m agent of Some s \<Rightarrow> s | None \<Rightarrow> [])) m"

definition record_agents ::
  "(16 word \<times> string list) list \<Rightarrow> (string \<times> 16 word list) list \<Rightarrow> (string \<times> 16 word list) list" where
  "record_agents lp used = fold (\<lambda>(port, agents). fold (add_agent_port port) agents) lp used"

text \<open>What follows a successful poll.\<close>

definition port_keys_arrived ::
  "boost_lib \<Rightarrow> (request_t \<Rightarrow> http_outcome) \<Rightarrow> (forward_mgr \<Rightarrow> 16 word option) \<Rightarrow> string list \<Rightarrow>
   service_mgr \<times> port_watch \<times> forward_mgr \<Rightarrow> (service_mgr \<times> port_watch \<times> forward_mgr) option" where
  "port_keys_arrived B client bind keys = (\<lambda>(sm, pw, m).
     if keys = [] then Some (sm, pw\<lparr>pw_previous_keys := []\<rparr>, m)
     else
       (case handle_keys B client bind (pw_previous_keys pw) keys
               \<lparr>kl_last_ports = map (\<lambda>(p, _). (p, [])) (pw_last_ports pw),
                kl_service_port = pw_service_port pw, kl_new_keys = [], kl_mgr = m\<rparr> of
          None \<Rightarrow> None
        | Some kl \<Rightarrow>
            (let kl' = drop_unused B kl in
             Some (sm\<lparr>ports_used_by_agent :=
                      record_agents (kl_last_ports kl') (ports_used_by_agent sm)\<rparr>,
                   pw\<lparr>pw_last_ports := kl_last_ports kl', pw_service_port := kl_service_port kl',
                      pw_previous_keys := kl_new_keys kl'\<rparr>,
                   kl_mgr kl'))))"

definition watchPortForwardChange_turn ::
  "boost_lib \<Rightarrow> rapidjson \<Rightarrow> (string \<times> string \<Rightarrow> request_t \<Rightarrow> http_outcome) \<Rightarrow>
   (forward_mgr \<Rightarrow> 16 word option) \<Rightarrow>
   service_mgr \<times> port_watch \<times> forward_mgr \<Rightarrow> (service_mgr \<times> port_watch \<times> forward_mgr) option" where
  "watchPortForwardChange_turn B J net bind = (\<lambda>(sm, pw, m).
     let client = net (watch_addr sm (pw_balance pw)) in
     case longPollingRequest B client port_forward_key ''keys'' (pw_indexid pw) 120 of
       Poll_failed \<Rightarrow> Some (sm, pw\<lparr>pw_balance := pw_balance pw + 1\<rparr>, m)
     | Poll_throw \<Rightarrow> None
     | Poll_ok idx json_rsp \<Rightarrow>
         (case parseForwardPortListRsp J json_rsp of
            (False, _) \<Rightarrow> Some (sm, pw\<lparr>pw_indexid := idx\<rparr>, m)
          | (True, keys) \<Rightarrow> port_keys_arrived B client bind keys (sm, pw\<lparr>pw_indexid := idx\<rparr>, m)))"

definition port_watch_new :: port_watch where
  "port_watch_new = \<lparr>pw_indexid = 0, pw_balance = 0, pw_last_ports = [], pw_service_port = [],
     pw_previous_keys = []\<rparr>"

section \<open>Queries\<close>

definition get_related_forward_ports :: "service_mgr \<Rightarrow> string \<Rightarrow> 16 word list \<Rightarrow> 16 word list" where
  "get_related_forward_ports sm agentid port_list =
     (case map_of (ports_used_by_agent sm) agentid of
        None \<Rightarrow> port_list | Some ports \<Rightarrow> port_list @ ports)"

definition getAllPortForwardServices ::
  "service_mgr \<Rightarrow> forward_mgr \<Rightarrow> string \<Rightarrow> ForwardInfoT list \<Rightarrow> ForwardInfoT list" where
  "getAllPortForwardServices sm m agentid services =
     services @ List.map_filter (getForwardService m) (get_related_forward_ports sm agentid [])"

section \<open>The service index is the inverse of the port table\<close>

abbreviation info_key :: "boost_lib \<Rightarrow> ForwardInfoT \<Rightarrow> string" where
  "info_key B info \<equiv> service_uniquestr B (fi_service_name info) (fi_service_type info)"

definition index_of_table :: "boost_lib \<Rightarrow> (string \<Rightarrow> 16 word option) \<Rightarrow> (16 word \<Rightarrow> ForwardInfoT option) \<Rightarrow> bool" where
  "index_of_table B sp table \<longleftrightarrow>
     (\<forall>u p. sp u = Some p \<longleftrightarrow> (\<exists>info. table p = Some info \<and> u = info_key B info))"

lemma index_of_tableD:
  "index_of_table B sp table \<Longrightarrow> table p = Some info \<Longrightarrow> sp (info_key B info) = Some p"
  by (auto simp: index_of_table_def)

locale forward_table =
  fixes start :: "16 word option \<Rightarrow> string \<Rightarrow> int \<Rightarrow> 'm \<Rightarrow> ('m \<times> 16 word) option"
    and stop :: "16 word \<Rightarrow> 'm \<Rightarrow> 'm"
    and look :: "'m \<Rightarrow> 16 word \<Rightarrow> ForwardInfoT option"
    and ok :: "'m \<Rightarrow> bool"
  assumes start_bound: "start bound n t m = Some (m', p) \<Longrightarrow> bound = Some p"
    and start_ok: "ok m \<Longrightarrow> start bound n t m = Some (m', p) \<Longrightarrow> ok m'"
    and start_look: "ok m \<Longrightarrow> start bound n t m = Some (m', p) \<Longrightarrow>
      look m' = (look m)(p \<mapsto> \<lparr>fi_service_name = n, fi_service_type = t, fi_port = p\<rparr>)"
    and stop_ok: "ok m \<Longrightarrow> ok (stop p m)"
    and stop_look: "ok m \<Longrightarrow> look (stop p m) = (look m)(p := None)"
begin

lemma index_start:
  assumes "ok m" "index_of_table B sp (look m)" "sp (service_uniquestr B n t) = None"
    "look m p = None" "start (Some p) n t m = Some (m', p)"
  shows "index_of_table B (sp(service_uniquestr B n t \<mapsto> p)) (look m')"
  unfolding index_of_table_def start_look[OF assms(1,5)]
proof (intro allI)
  fix u q
  have idx: "sp u = Some q \<longleftrightarrow> (\<exists>info. look m q = Some info \<and> u = info_key B info)"
    using assms(2) by (simp add: index_of_table_def)
  show "(sp(service_uniquestr B n t \<mapsto> p)) u = Some q \<longleftrightarrow>
      (\<exists>info. ((look m)(p \<mapsto> \<lparr>fi_service_name = n, fi_service_type = t, fi_port = p\<rparr>)) q = Some info \<and>
        u = info_key B info)"
  proof (cases "q = p")
    case True
    then show ?thesis using idx assms(4) by auto
  next
    case False
    then show ?thesis using idx assms(3) by auto
  qed
qed

lemma index_stop:
  assumes "ok m" "index_of_table B sp (look m)" "look m p = Some info"
  shows "index_of_table B (sp(info_key B info := None)) (look (stop p m))"
  unfolding index_of_table_def stop_look[OF assms(1)]
proof (intro allI)
  fix u q
  have idx: "sp u = Some q \<longleftrightarrow> (\<exists>i. look m q = Some i \<and> u = info_key B i)"
    using assms(2) by (simp add: index_of_table_def)
  have p: "sp (info_key B info) = Some p" using index_of_tableD[OF assms(2,3)] .
  show "(sp(info_key B info := None)) u = Some q \<longleftrightarrow>
      (\<exists>i. ((look m)(p := None)) q = Some i \<and> u = info_key B i)"
  proof (cases "u = info_key B info")
    case True
    then show ?thesis using idx p by auto
  next
    case False
    then show ?thesis using idx assms(3) by auto
  qed
qed

end

interpretation ft: forward_table startPortForward stopPortForward getForwardService forward_tables_ok
proof unfold_locales
  fix bound n t m m' p
  assume s: "startPortForward bound n t m = Some (m', p)"
  show "bound = Some p"
    using s by (auto simp: startPortForward_def start_forward_server_def split: option.splits)
  assume ok: "forward_tables_ok m"
  show "forward_tables_ok m'" using startPortForward_look(2)[OF ok s] .
  show "getForwardService m' = (getForwardService m)
      (p \<mapsto> \<lparr>fi_service_name = n, fi_service_type = t, fi_port = p\<rparr>)"
    using startPortForward_look(3)[OF ok s] by (auto simp: getForwardService_def fun_eq_iff)
next
  fix p m
  assume ok: "forward_tables_ok m"
  show "forward_tables_ok (stopPortForward p m)" using stopPortForward_look(1)[OF ok] .
  show "getForwardService (stopPortForward p m) = (getForwardService m)(p := None)"
    using stopPortForward_look(2)[OF ok, of p] by (auto simp: getForwardService_def fun_eq_iff)
qed

section \<open>The loop over the keys\<close>

definition key_wants ::
  "boost_lib \<Rightarrow> (request_t \<Rightarrow> http_outcome) \<Rightarrow> (string \<times> ServiceInfo) list \<Rightarrow> string \<Rightarrow> string \<Rightarrow> bool" where
  "key_wants B client prev k u \<longleftrightarrow> length k > AGENT_ID_LEN \<and>
     (\<exists>n t. key_info B client prev k = Info_ok n t \<and> u = service_uniquestr B n t)"

definition agents_of :: "(16 word \<times> string list) list \<Rightarrow> 16 word \<Rightarrow> string set" where
  "agents_of lp p = (case map_of lp p of Some s \<Rightarrow> set s | None \<Rightarrow> {})"

lemma agents_of_add:
  "smap_ok lp \<Longrightarrow> agents_of (add_agent p a lp) q = (if q = p then insert a (agents_of lp p) else agents_of lp q)"
  by (auto simp: agents_of_def add_agent_def map_of_smap_put set_sset_insert split: option.split)

lemma dom_add_agent: "smap_ok lp \<Longrightarrow> dom (map_of (add_agent p a lp)) = insert p (dom (map_of lp))"
  by (simp add: add_agent_def map_of_smap_put)

lemma smap_ok_add_agent: "smap_ok lp \<Longrightarrow> smap_ok (add_agent p a lp)"
  by (simp add: add_agent_def smap_ok_put)

definition kl_ok :: "boost_lib \<Rightarrow> key_loop \<Rightarrow> bool" where
  "kl_ok B kl \<longleftrightarrow>
     smap_ok (kl_last_ports kl) \<and> smap_ok (kl_service_port kl) \<and> smap_ok (kl_new_keys kl) \<and>
     forward_tables_ok (kl_mgr kl) \<and>
     index_of_table B (map_of (kl_service_port kl)) (getForwardService (kl_mgr kl)) \<and>
     dom (map_of (kl_last_ports kl)) = dom (getForwardService (kl_mgr kl))"

text \<open>After the keys in \<open>D\<close>: every port's agents are those of the keys that want its service, and
  every wanted service has a port.\<close>

definition kl_done ::
  "boost_lib \<Rightarrow> (request_t \<Rightarrow> http_outcome) \<Rightarrow> (string \<times> ServiceInfo) list \<Rightarrow> string set \<Rightarrow> key_loop \<Rightarrow> bool" where
  "kl_done B client prev D kl \<longleftrightarrow>
     (\<forall>p info. getForwardService (kl_mgr kl) p = Some info \<longrightarrow>
        agents_of (kl_last_ports kl) p =
          {take AGENT_ID_LEN k | k. k \<in> D \<and> key_wants B client prev k (info_key B info)}) \<and>
     (\<forall>k \<in> D. \<forall>u. key_wants B client prev k u \<longrightarrow> map_of (kl_service_port kl) u \<noteq> None)"

definition fresh_bind :: "(forward_mgr \<Rightarrow> 16 word option) \<Rightarrow> bool" where
  "fresh_bind bind \<longleftrightarrow> (\<forall>m p. bind m = Some p \<longrightarrow> map_of (forward_server_list m) p = None)"

lemma fresh_bind_free:
  "fresh_bind bind \<Longrightarrow> forward_tables_ok m \<Longrightarrow> bind m = Some p \<Longrightarrow> getForwardService m p = None"
  by (simp add: fresh_bind_def forward_tables_ok_def getForwardService_def)

lemma handle_key_step:
  assumes fresh: "fresh_bind bind" and ok: "kl_ok B kl" and don: "kl_done B client prev D kl"
    and h: "handle_key B client bind prev k kl = Some kl'"
  shows "kl_ok B kl' \<and> kl_done B client prev (insert k D) kl'"
proof (cases "length k > AGENT_ID_LEN \<and> (\<exists>n t. key_info B client prev k = Info_ok n t)")
  case False
  then have "kl' = kl" using h
    by (auto simp: handle_key_def Let_def split: port_info.splits if_splits)
  moreover have "\<not> key_wants B client prev k u" for u using False by (auto simp: key_wants_def)
  ultimately show ?thesis using ok don by (auto simp: kl_done_def)
next
  case True
  then obtain n t where k: "length k > AGENT_ID_LEN" "key_info B client prev k = Info_ok n t" by blast
  let ?u = "service_uniquestr B n t" and ?a = "take AGENT_ID_LEN k"
  let ?T = "getForwardService (kl_mgr kl)" and ?T' = "getForwardService (kl_mgr kl')"
  have want: "key_wants B client prev k v \<longleftrightarrow> v = ?u" for v using k by (auto simp: key_wants_def)
  have idx: "index_of_table B (map_of (kl_service_port kl)) ?T" using ok by (simp add: kl_ok_def)
  have lp: "smap_ok (kl_last_ports kl)" using ok by (simp add: kl_ok_def)
  show ?thesis
  proof (cases "map_of (kl_service_port kl) ?u")
    case (Some p)
    then have kl': "kl' = kl\<lparr>kl_new_keys := smap_put k \<lparr>si_service_name = n, si_type = t\<rparr> (kl_new_keys kl),
        kl_last_ports := add_agent p ?a (kl_last_ports kl)\<rparr>"
      using h k by (simp add: handle_key_def Let_def)
    from Some idx obtain info where p: "?T p = Some info" "?u = info_key B info"
      by (auto simp: index_of_table_def)
    have only: "?T q = Some i \<Longrightarrow> info_key B i = ?u \<longleftrightarrow> q = p" for q i
      using index_of_tableD[OF idx, of q i] Some p by auto
    have "kl_ok B kl'"
      using ok p(1) by (auto simp: kl_ok_def kl' smap_ok_put smap_ok_add_agent dom_add_agent)
    moreover have "kl_done B client prev (insert k D) kl'"
      using don only want Some by (auto simp: kl_done_def kl' agents_of_add[OF lp])
    ultimately show ?thesis ..
  next
    case None
    then obtain m' p where s: "startPortForward (bind (kl_mgr kl)) n t (kl_mgr kl) = Some (m', p)"
      and kl': "kl' = kl\<lparr>kl_new_keys := smap_put k \<lparr>si_service_name = n, si_type = t\<rparr> (kl_new_keys kl),
        kl_mgr := m', kl_service_port := smap_put ?u p (kl_service_port kl),
        kl_last_ports := add_agent p ?a (kl_last_ports kl)\<rparr>"
      using h k by (auto simp: handle_key_def Let_def split: option.splits)
    have tok: "forward_tables_ok (kl_mgr kl)" using ok by (simp add: kl_ok_def)
    have b: "bind (kl_mgr kl) = Some p" using ft.start_bound[OF s] .
    have free: "?T p = None" using fresh_bind_free[OF fresh tok b] .
    have T': "?T' = ?T(p \<mapsto> \<lparr>fi_service_name = n, fi_service_type = t, fi_port = p\<rparr>)"
      using ft.start_look[OF tok s] by (simp add: kl')
    have "map_of (kl_last_ports kl) p = None"
      using ok free by (auto simp: kl_ok_def)
    then have noag: "agents_of (kl_last_ports kl) p = {}" by (simp add: agents_of_def)
    have idx': "index_of_table B ((map_of (kl_service_port kl))(?u \<mapsto> p)) (getForwardService m')"
      using ft.index_start[OF tok idx None free] s b by simp
    have "kl_ok B kl'"
      using ok idx' ft.start_ok[OF tok s] T'
      by (simp add: kl_ok_def kl' smap_ok_put map_of_smap_put smap_ok_add_agent dom_add_agent)
    moreover have "kl_done B client prev (insert k D) kl'"
      unfolding kl_done_def
    proof (intro conjI allI impI ballI)
      fix q i assume q: "getForwardService (kl_mgr kl') q = Some i"
      show "agents_of (kl_last_ports kl') q =
          {take AGENT_ID_LEN k' | k'. k' \<in> insert k D \<and> key_wants B client prev k' (info_key B i)}"
      proof (cases "q = p")
        case True
        have "\<not> key_wants B client prev k' ?u" if "k' \<in> D" for k'
          using don that None unfolding kl_done_def by blast
        then show ?thesis
          using True q T' want noag by (auto simp: kl' agents_of_add[OF lp])
      next
        case False
        then have qi: "?T q = Some i" using q T' by simp
        have "info_key B i \<noteq> ?u" using index_of_tableD[OF idx qi] None by auto
        then show ?thesis
          using False qi don want by (auto simp: kl' agents_of_add[OF lp] kl_done_def)
      qed
    next
      fix k' u assume "k' \<in> insert k D" "key_wants B client prev k' u"
      then show "map_of (kl_service_port kl') u \<noteq> None"
        using don want ok by (auto simp: kl_done_def kl' kl_ok_def map_of_smap_put)
    qed
    ultimately show ?thesis ..
  qed
qed

lemma handle_keys_steps:
  assumes "fresh_bind bind" "kl_ok B kl" "kl_done B client prev D kl"
    "handle_keys B client bind prev ks kl = Some kl'"
  shows "kl_ok B kl' \<and> kl_done B client prev (set ks \<union> D) kl'"
  using assms(2-4)
proof (induction ks arbitrary: kl D)
  case (Cons k ks)
  then obtain kl1 where 1: "handle_key B client bind prev k kl = Some kl1"
    "handle_keys B client bind prev ks kl1 = Some kl'" by (auto split: option.splits)
  from handle_key_step[OF assms(1) Cons.prems(1,2) 1(1)]
  have "kl_ok B kl1" "kl_done B client prev (insert k D) kl1" by auto
  from Cons.IH[OF this 1(2)] show ?case by simp
qed simp

section \<open>The loop over the ports\<close>

lemma unused_ports_iff: "smap_ok lp \<Longrightarrow> p \<in> set (unused_ports lp) \<longleftrightarrow> map_of lp p = Some []"
  by (auto simp: unused_ports_def smap_in_set[symmetric] image_iff)

lemma drop_port_step:
  assumes "smap_ok sp" "forward_tables_ok m" "index_of_table B (map_of sp) (getForwardService m)"
    "drop_port B p (sp, m) = (sp', m')"
  shows "smap_ok sp'" "forward_tables_ok m'" "index_of_table B (map_of sp') (getForwardService m')"
    "getForwardService m' = (getForwardService m)(p := None)"
proof -
  have m': "m' = stopPortForward p m" using assms(4) by (simp add: drop_port_def)
  show "smap_ok sp'" "forward_tables_ok m'"
    using assms by (auto simp: drop_port_def smap_ok_erase ft.stop_ok split: option.splits)
  show T: "getForwardService m' = (getForwardService m)(p := None)"
    using ft.stop_look[OF assms(2)] by (simp add: m')
  show "index_of_table B (map_of sp') (getForwardService m')"
  proof (cases "getForwardService m p")
    case None
    then have "(getForwardService m)(p := None) = getForwardService m" by (simp add: fun_eq_iff)
    moreover have "sp' = sp" using None assms(4) by (simp add: drop_port_def)
    ultimately show ?thesis using assms(3) unfolding T by simp
  next
    case (Some info)
    then have "map_of sp' = (map_of sp)(info_key B info := None)"
      using assms(4) by (auto simp: drop_port_def map_of_smap_erase)
    then show ?thesis using ft.index_stop[OF assms(2,3) Some] by (simp add: m')
  qed
qed

lemma fold_drop_port:
  assumes "smap_ok sp" "forward_tables_ok m" "index_of_table B (map_of sp) (getForwardService m)"
    "fold (drop_port B) ps (sp, m) = (sp', m')"
  shows "smap_ok sp' \<and> forward_tables_ok m' \<and> index_of_table B (map_of sp') (getForwardService m') \<and>
    (\<forall>p. getForwardService m' p = (if p \<in> set ps then None else getForwardService m p))"
  using assms
proof (induction ps arbitrary: sp m)
  case (Cons p ps)
  obtain sp1 m1 where 1: "drop_port B p (sp, m) = (sp1, m1)" by fastforce
  note s = drop_port_step[OF Cons.prems(1-3) 1]
  from Cons.prems(4) 1 have "fold (drop_port B) ps (sp1, m1) = (sp', m')" by simp
  from Cons.IH[OF s(1-3) this] s(4) show ?case by auto
qed simp

lemma fold_erase_smap_ok: "smap_ok m \<Longrightarrow> smap_ok (fold smap_erase ks m)"
  by (rule smap.fold_erase_ok)

lemma drop_unused_spec:
  assumes "kl_ok B kl"
  shows "kl_ok B (drop_unused B kl) \<and>
    (\<forall>p. getForwardService (kl_mgr (drop_unused B kl)) p =
       (if agents_of (kl_last_ports kl) p = {} then None else getForwardService (kl_mgr kl) p)) \<and>
    (\<forall>p. agents_of (kl_last_ports (drop_unused B kl)) p = agents_of (kl_last_ports kl) p)"
proof -
  let ?lp = "kl_last_ports kl" and ?P = "unused_ports (kl_last_ports kl)"
  obtain sp m where f: "fold (drop_port B) ?P (kl_service_port kl, kl_mgr kl) = (sp, m)" by fastforce
  have ok: "smap_ok ?lp" "smap_ok (kl_service_port kl)" "forward_tables_ok (kl_mgr kl)"
    "index_of_table B (map_of (kl_service_port kl)) (getForwardService (kl_mgr kl))"
    "dom (map_of ?lp) = dom (getForwardService (kl_mgr kl))"
    using assms by (simp_all add: kl_ok_def)
  note d = fold_drop_port[OF ok(2-4) f]
  have P: "p \<in> set ?P \<longleftrightarrow> p \<in> dom (map_of ?lp) \<and> agents_of ?lp p = {}" for p
    by (auto simp: unused_ports_iff[OF ok(1)] agents_of_def)
  have lp': "map_of (fold smap_erase ?P ?lp) p = (if p \<in> set ?P then None else map_of ?lp p)" for p
    by (rule smap.look_fold_erase[OF ok(1)])
  have eq: "drop_unused B kl = kl\<lparr>kl_service_port := sp, kl_mgr := m, kl_last_ports := fold smap_erase ?P ?lp\<rparr>"
    by (simp add: drop_unused_def f)
  have T: "getForwardService m p = (if agents_of ?lp p = {} then None else getForwardService (kl_mgr kl) p)" for p
    using d P[of p] ok(5) by (auto simp: domIff)
  have "dom (map_of (fold smap_erase ?P ?lp)) = dom (getForwardService m)"
    using ok(5) P d by (auto simp: dom_def lp')
  then have "kl_ok B (drop_unused B kl)"
    using assms d ok(1) by (simp add: kl_ok_def eq fold_erase_smap_ok)
  moreover have "agents_of (fold smap_erase ?P ?lp) p = agents_of ?lp p" for p
    using lp'[of p] P[of p] by (auto simp: agents_of_def)
  ultimately show ?thesis using T by (simp add: eq)
qed

section \<open>Correctness of the watcher\<close>

definition port_watch_ok :: "boost_lib \<Rightarrow> port_watch \<Rightarrow> forward_mgr \<Rightarrow> bool" where
  "port_watch_ok B pw m \<longleftrightarrow>
     smap_ok (pw_last_ports pw) \<and> smap_ok (pw_service_port pw) \<and> smap_ok (pw_previous_keys pw) \<and>
     forward_tables_ok m \<and> index_of_table B (map_of (pw_service_port pw)) (getForwardService m) \<and>
     dom (map_of (pw_last_ports pw)) = dom (getForwardService m)"

lemma port_watch_ok_new: "port_watch_ok B port_watch_new forward_mgr_new"
proof -
  have "getForwardService forward_mgr_new = Map.empty"
    by (simp add: getForwardService_def forward_mgr_new_def fun_eq_iff)
  then show ?thesis
    by (simp add: port_watch_ok_def port_watch_new_def forward_tables_new index_of_table_def)
qed

lemma map_of_clear: "map_of (map (\<lambda>(p, _). (p, [])) lp) p = map_option (\<lambda>_. []) (map_of lp p)"
  by (induction lp) auto

lemma smap_ok_clear: "smap_ok lp \<Longrightarrow> smap_ok (map (\<lambda>(p, _). (p, [])) lp)"
  by (simp add: smap_ok_def comp_def case_prod_beta')

lemma key_loop_start:
  assumes "port_watch_ok B pw m"
  shows "kl_ok B \<lparr>kl_last_ports = map (\<lambda>(p, _). (p, [])) (pw_last_ports pw),
      kl_service_port = pw_service_port pw, kl_new_keys = [], kl_mgr = m\<rparr>"
    "kl_done B client prev {} \<lparr>kl_last_ports = map (\<lambda>(p, _). (p, [])) (pw_last_ports pw),
      kl_service_port = pw_service_port pw, kl_new_keys = [], kl_mgr = m\<rparr>"
proof -
  have "dom (map_of (map (\<lambda>(p, _). (p, [])) (pw_last_ports pw))) = dom (map_of (pw_last_ports pw))"
    by (auto simp: dom_def map_of_clear)
  then show "kl_ok B \<lparr>kl_last_ports = map (\<lambda>(p, _). (p, [])) (pw_last_ports pw),
      kl_service_port = pw_service_port pw, kl_new_keys = [], kl_mgr = m\<rparr>"
    using assms by (simp add: kl_ok_def port_watch_ok_def smap_ok_clear)
  show "kl_done B client prev {} \<lparr>kl_last_ports = map (\<lambda>(p, _). (p, [])) (pw_last_ports pw),
      kl_service_port = pw_service_port pw, kl_new_keys = [], kl_mgr = m\<rparr>"
    by (auto simp: kl_done_def agents_of_def map_of_clear split: option.splits)
qed

lemma port_keys_arrived_spec:
  assumes "port_watch_ok B pw m" "fresh_bind bind" "keys \<noteq> []"
    "port_keys_arrived B client bind keys (sm, pw, m) = Some (sm', pw', m')"
  shows "port_watch_ok B pw' m'"
    "getForwardService m' p = Some info \<Longrightarrow>
       agents_of (pw_last_ports pw') p =
         {take AGENT_ID_LEN k | k. k \<in> set keys \<and> key_wants B client (pw_previous_keys pw) k (info_key B info)} \<and>
       agents_of (pw_last_ports pw') p \<noteq> {}"
    "k \<in> set keys \<Longrightarrow> key_wants B client (pw_previous_keys pw) k u \<Longrightarrow>
       \<exists>p info. getForwardService m' p = Some info \<and> info_key B info = u"
proof -
  let ?kl0 = "\<lparr>kl_last_ports = map (\<lambda>(p, _). (p, [])) (pw_last_ports pw),
      kl_service_port = pw_service_port pw, kl_new_keys = [], kl_mgr = m\<rparr>"
  obtain kl where h: "handle_keys B client bind (pw_previous_keys pw) keys ?kl0 = Some kl"
    and r: "pw' = pw\<lparr>pw_last_ports := kl_last_ports (drop_unused B kl),
        pw_service_port := kl_service_port (drop_unused B kl),
        pw_previous_keys := kl_new_keys (drop_unused B kl)\<rparr>" "m' = kl_mgr (drop_unused B kl)"
    using assms(3,4) by (auto simp: port_keys_arrived_def Let_def split: option.splits)
  from handle_keys_steps[OF assms(2) key_loop_start[OF assms(1)] h]
  have kl: "kl_ok B kl" "kl_done B client (pw_previous_keys pw) (set keys) kl" by auto
  note d = drop_unused_spec[OF kl(1)]
  show "port_watch_ok B pw' m'" using d by (simp add: kl_ok_def port_watch_ok_def r)
  show "agents_of (pw_last_ports pw') p =
         {take AGENT_ID_LEN k | k. k \<in> set keys \<and> key_wants B client (pw_previous_keys pw) k (info_key B info)} \<and>
       agents_of (pw_last_ports pw') p \<noteq> {}" if "getForwardService m' p = Some info"
  proof -
    have "getForwardService (kl_mgr kl) p = Some info" "agents_of (kl_last_ports kl) p \<noteq> {}"
      using d that by (auto simp: r split: if_splits)
    with kl(2) d show ?thesis by (simp add: kl_done_def r)
  qed
  show "\<exists>p info. getForwardService m' p = Some info \<and> info_key B info = u"
    if k: "k \<in> set keys" "key_wants B client (pw_previous_keys pw) k u"
  proof -
    obtain p where "map_of (kl_service_port kl) u = Some p" using kl(2) k unfolding kl_done_def by blast
    then obtain info where i: "getForwardService (kl_mgr kl) p = Some info" "u = info_key B info"
      using kl(1) by (auto simp: kl_ok_def index_of_table_def)
    then have "take AGENT_ID_LEN k \<in> agents_of (kl_last_ports kl) p"
      using kl(2) k unfolding kl_done_def by auto
    then have "getForwardService m' p = Some info" using d i by (auto simp: r)
    with i show ?thesis by blast
  qed
qed

section \<open>Properties\<close>

text \<open>\<^bold>\<open>C2\<close>.  A turn of the watcher that receives a non-empty list of keys brings the forwarded ports
  in step with it: the forwarded services are exactly those some key asks for, no two ports forward
  to the same service, every forwarded port is listened on and has at least one agent, and the
  agents of a port are those of the keys that ask for its service.  The turn starts in a state in which
  the watcher's records agree with the table of forwards (\<open>port_watch_ok\<close>), as in the first one, and every
  turn keeps it so.  The only assumption on the operating system is that a new server is not given a
  port that a running server has.\<close>

theorem port_forwards_match_keys:
  assumes "port_watch_ok B pw m" "fresh_bind bind" "keys \<noteq> []"
    "longPollingRequest B (net (watch_addr sm (pw_balance pw))) port_forward_key ''keys'' (pw_indexid pw) 120 =
       Poll_ok idx js"
    "parseForwardPortListRsp J js = (True, keys)"
    "watchPortForwardChange_turn B J net bind (sm, pw, m) = Some (sm', pw', m')"
  shows "(\<forall>u. (\<exists>p info. getForwardService m' p = Some info \<and> info_key B info = u) \<longleftrightarrow>
           (\<exists>k \<in> set keys. key_wants B (net (watch_addr sm (pw_balance pw))) (pw_previous_keys pw) k u)) \<and>
    (\<forall>p q i j. getForwardService m' p = Some i \<and> getForwardService m' q = Some j \<and>
       info_key B i = info_key B j \<longrightarrow> p = q) \<and>
    (\<forall>p info. getForwardService m' p = Some info \<longrightarrow>
       map_of (forward_server_list m') p \<noteq> None \<and>
       agents_of (pw_last_ports pw') p \<noteq> {} \<and>
       agents_of (pw_last_ports pw') p =
         {take AGENT_ID_LEN k | k. k \<in> set keys \<and>
            key_wants B (net (watch_addr sm (pw_balance pw))) (pw_previous_keys pw) k (info_key B info)})"
proof -
  let ?c = "net (watch_addr sm (pw_balance pw))" and ?pw = "pw\<lparr>pw_indexid := idx\<rparr>"
  have a: "port_keys_arrived B ?c bind keys (sm, ?pw, m) = Some (sm', pw', m')"
    using assms(4-6) by (simp add: watchPortForwardChange_turn_def)
  have ok: "port_watch_ok B ?pw m" using assms(1) by (simp add: port_watch_ok_def)
  note spec = port_keys_arrived_spec[OF ok assms(2,3) a, simplified]
  have idx: "index_of_table B (map_of (pw_service_port pw')) (getForwardService m')"
    and tab: "forward_tables_ok m'" using spec(1) by (simp_all add: port_watch_ok_def)
  have "\<exists>k \<in> set keys. key_wants B ?c (pw_previous_keys pw) k (info_key B info)"
    if "getForwardService m' p = Some info" for p info
    using spec(2)[OF that] by auto
  moreover have "p = q" if "getForwardService m' p = Some i" "getForwardService m' q = Some j"
    "info_key B i = info_key B j" for p q i j
    using index_of_tableD[OF idx that(1)] index_of_tableD[OF idx that(2)] that(3) by simp
  moreover have "map_of (forward_server_list m') p \<noteq> None" if "getForwardService m' p = Some info" for p info
    using forward_tables_server[OF tab, of p] that by simp
  ultimately show ?thesis using spec(2,3) by (intro conjI allI impI iffI) blast+
qed

lemma port_watch_turn_keeps:
  assumes "port_watch_ok B pw m" "fresh_bind bind"
    "watchPortForwardChange_turn B J net bind (sm, pw, m) = Some (sm', pw', m')"
  shows "port_watch_ok B pw' m'"
proof -
  let ?c = "net (watch_addr sm (pw_balance pw))"
  consider (skip) "m' = m" "pw_last_ports pw' = pw_last_ports pw" "pw_service_port pw' = pw_service_port pw"
      "pw_previous_keys pw' \<in> {pw_previous_keys pw, []}"
    | (keys) idx keys where "keys \<noteq> []"
      "port_keys_arrived B ?c bind keys (sm, pw\<lparr>pw_indexid := idx\<rparr>, m) = Some (sm', pw', m')"
  proof (cases "longPollingRequest B ?c port_forward_key ''keys'' (pw_indexid pw) 120")
    case Poll_failed
    then show thesis using assms(3) by (intro skip) (auto simp: watchPortForwardChange_turn_def)
  next
    case Poll_throw
    then show thesis using assms(3) by (simp add: watchPortForwardChange_turn_def)
  next
    case (Poll_ok idx js)
    obtain r keys where p: "parseForwardPortListRsp J js = (r, keys)" by fastforce
    show thesis
    proof (cases "r \<and> keys \<noteq> []")
      case True
      then show thesis using assms(3) Poll_ok p
        by (intro keys[of keys idx]) (auto simp: watchPortForwardChange_turn_def)
    next
      case False
      then show thesis using assms(3) Poll_ok p
        by (intro skip) (auto simp: watchPortForwardChange_turn_def port_keys_arrived_def split: bool.splits)
    qed
  qed
  then show ?thesis
  proof cases
    case skip
    then show ?thesis using assms(1) by (auto simp: port_watch_ok_def)
  next
    case keys
    have "port_watch_ok B (pw\<lparr>pw_indexid := idx\<rparr>) m" using assms(1) by (simp add: port_watch_ok_def)
    from port_keys_arrived_spec(1)[OF this assms(2) keys] show ?thesis .
  qed
qed

text \<open>\<^bold>\<open>C8\<close>.  Every turn of the watcher, whatever the discovery server answers, keeps the bookkeeping
  consistent: the index of services is the inverse of the port table, exactly the forwarded ports
  are tracked, and a port is forwarded exactly if a server listens on it.\<close>

theorem port_watch_turn_invariant:
  assumes "port_watch_ok B pw m" "fresh_bind bind"
    "watchPortForwardChange_turn B J net bind (sm, pw, m) = Some (sm', pw', m')"
  shows "port_watch_ok B pw' m'"
  by (rule port_watch_turn_keeps[OF assms])

text \<open>A concrete answer: two agents ask for \<open>web\<close> over HTTP and one for \<open>db\<close> over RPC.\<close>

definition wit_key_json :: rapidjson where
  "wit_key_json = ref_json (\<lambda>s. Some (JArray (map JString
     [''fibp-forward-port/'', ''fibp-forward-port/agent00001w'', ''fibp-forward-port/agent00002w'',
      ''fibp-forward-port/agent00001d''])))"

definition wit_key_net :: "string \<times> string \<Rightarrow> request_t \<Rightarrow> http_outcome" where
  "wit_key_net addr rq = Rsp_ok (response_new\<lparr>rp_headers := [(''X-Consul-Index'', ''9'')],
     rp_body := (if last (rq_path rq) = CHR ''d'' then ''db,RPC'' else ''web,http'')\<rparr>)"

definition wit_bind :: "forward_mgr \<Rightarrow> 16 word option" where
  "wit_bind m = (if map_of (forward_server_list m) 5000 = None then Some 5000
     else if map_of (forward_server_list m) 5001 = None then Some 5001 else None)"

lemma wit_bind_fresh: "fresh_bind wit_bind"
  by (auto simp: fresh_bind_def wit_bind_def split: if_splits)

definition wit_pw1 :: port_watch where
  "wit_pw1 = \<lparr>pw_indexid = 9, pw_balance = 0,
     pw_last_ports = [(5000, [''agent00001'', ''agent00002'']), (5001, [''agent00001''])],
     pw_service_port = [(''db1'', 5001), (''web0'', 5000)],
     pw_previous_keys = [(''agent00001d'', \<lparr>si_service_name = ''db'', si_type = 1\<rparr>),
       (''agent00001w'', \<lparr>si_service_name = ''web'', si_type = 0\<rparr>),
       (''agent00002w'', \<lparr>si_service_name = ''web'', si_type = 0\<rparr>)]\<rparr>"

definition wit_fm1 :: forward_mgr where
  "wit_fm1 = \<lparr>forward_service_list =
       [(5000, \<lparr>fi_service_name = ''web'', fi_service_type = 0, fi_port = 5000\<rparr>),
        (5001, \<lparr>fi_service_name = ''db'', fi_service_type = 1, fi_port = 5001\<rparr>)],
     forward_server_list = [(5000, \<lparr>fsi_bound_port = 5000, fsi_pool_size = 4\<rparr>),
        (5001, \<lparr>fsi_bound_port = 5001, fsi_pool_size = 4\<rparr>)]\<rparr>"

definition wit_sm2 :: service_mgr where
  "wit_sm2 = wit_sm\<lparr>ports_used_by_agent := [(''agent00001'', [5000, 5001]), (''agent00002'', [5000])]\<rparr>"

lemma wit_port_turn:
  "watchPortForwardChange_turn ref_boost wit_key_json wit_key_net wit_bind
     (wit_sm, port_watch_new, forward_mgr_new) = Some (wit_sm2, wit_pw1, wit_fm1)"
  by code_simp

lemma wit_port_keys:
  "longPollingRequest ref_boost (wit_key_net (watch_addr wit_sm (pw_balance port_watch_new)))
     port_forward_key ''keys'' (pw_indexid port_watch_new) 120 = Poll_ok 9 ''web,http''"
  "parseForwardPortListRsp wit_key_json ''web,http'' = (True, [''agent00001w'', ''agent00002w'', ''agent00001d''])"
  by code_simp+

theorem port_forwards_match_keys_witness:
  "getForwardService wit_fm1 5000 = Some \<lparr>fi_service_name = ''web'', fi_service_type = 0, fi_port = 5000\<rparr> \<and>
   map_of (forward_server_list wit_fm1) 5000 \<noteq> None \<and>
   agents_of (pw_last_ports wit_pw1) 5000 =
     {take AGENT_ID_LEN k | k. k \<in> set [''agent00001w'', ''agent00002w'', ''agent00001d''] \<and>
        key_wants ref_boost (wit_key_net (watch_addr wit_sm (pw_balance port_watch_new)))
          (pw_previous_keys port_watch_new) k ''web0''}"
proof -
  have w: "getForwardService wit_fm1 5000 = Some \<lparr>fi_service_name = ''web'', fi_service_type = 0, fi_port = 5000\<rparr>"
    by code_simp
  moreover have "service_uniquestr ref_boost ''web'' 0 = ''web0''" by code_simp
  ultimately show ?thesis
    using port_forwards_match_keys[OF port_watch_ok_new wit_bind_fresh _ wit_port_keys wit_port_turn] by auto
qed

theorem port_watch_turn_invariant_witness: "port_watch_ok ref_boost wit_pw1 wit_fm1"
  by (rule port_watch_turn_invariant[OF port_watch_ok_new wit_bind_fresh wit_port_turn])

text \<open>The ports recorded for an agent.\<close>

definition ports_of_agent :: "(string \<times> 16 word list) list \<Rightarrow> string \<Rightarrow> 16 word set" where
  "ports_of_agent used a = (case map_of used a of Some ps \<Rightarrow> set ps | None \<Rightarrow> {})"

lemma add_agent_port_spec:
  "smap_ok used \<Longrightarrow> smap_ok (add_agent_port p a used) \<and>
     ports_of_agent (add_agent_port p a used) b = ports_of_agent used b \<union> {q. q = p \<and> b = a}"
  by (auto simp: add_agent_port_def smap_ok_put ports_of_agent_def map_of_smap_put set_sset_insert
      split: option.split)

lemma fold_add_agent_port:
  "smap_ok used \<Longrightarrow> smap_ok (fold (add_agent_port p) as used) \<and>
     ports_of_agent (fold (add_agent_port p) as used) b = ports_of_agent used b \<union> {q. q = p \<and> b \<in> set as}"
proof (induction as arbitrary: used)
  case (Cons a as)
  then show ?case using add_agent_port_spec[OF Cons.prems, of p a] by auto
qed simp

lemma record_agents_spec:
  "smap_ok used \<Longrightarrow> smap_ok (record_agents lp used) \<and>
     ports_of_agent (record_agents lp used) b = ports_of_agent used b \<union> {p. \<exists>as. (p, as) \<in> set lp \<and> b \<in> set as}"
proof (induction lp arbitrary: used)
  case (Cons e lp)
  obtain p as where e: "e = (p, as)" by (cases e)
  have "smap_ok (fold (add_agent_port p) as used)"
    "\<And>b. ports_of_agent (fold (add_agent_port p) as used) b = ports_of_agent used b \<union> {q. q = p \<and> b \<in> set as}"
    using fold_add_agent_port[OF Cons.prems] by auto
  with Cons.IH[of "fold (add_agent_port p) as used"] e show ?case
    by (auto simp: record_agents_def)
qed (simp add: record_agents_def)

lemma set_getAllPortForwardServices:
  "set (getAllPortForwardServices sm m a []) =
     {info. \<exists>p \<in> ports_of_agent (ports_used_by_agent sm) a. getForwardService m p = Some info}"
  by (auto simp: getAllPortForwardServices_def get_related_forward_ports_def ports_of_agent_def
      set_map_filter_eq split: option.splits)

text \<open> After a turn with keys, the forward services listed for an agent are those of the ports
  recorded for it earlier that are still forwarded, and those of the ports it uses now; so every
  service that a key of the agent asks for is listed.  Earlier records are never removed, so a
  service the agent no longer asks for stays listed as long as another agent keeps its port open.\<close>

theorem agent_services_listed:
  assumes "port_watch_ok B pw m" "fresh_bind bind" "keys \<noteq> []" "smap_ok (ports_used_by_agent sm)"
    "port_keys_arrived B client bind keys (sm, pw, m) = Some (sm', pw', m')"
  shows "set (getAllPortForwardServices sm' m' a []) =
      {info. \<exists>p. getForwardService m' p = Some info \<and>
         (p \<in> ports_of_agent (ports_used_by_agent sm) a \<or>
          (\<exists>k \<in> set keys. a = take AGENT_ID_LEN k \<and>
             key_wants B client (pw_previous_keys pw) k (info_key B info)))}"
proof -
  note spec = port_keys_arrived_spec[OF assms(1-3,5)]
  have lp: "smap_ok (pw_last_ports pw')" using spec(1) by (simp add: port_watch_ok_def)
  have used: "ports_used_by_agent sm' = record_agents (pw_last_ports pw') (ports_used_by_agent sm)"
    using assms(3,5) by (auto simp: port_keys_arrived_def Let_def split: option.splits)
  have now: "(\<exists>as. (p, as) \<in> set (pw_last_ports pw') \<and> a \<in> set as) \<longleftrightarrow> a \<in> agents_of (pw_last_ports pw') p" for p
    by (auto simp: smap_in_set[OF lp] agents_of_def split: option.split)
  have "a \<in> agents_of (pw_last_ports pw') p \<longleftrightarrow>
      (\<exists>k \<in> set keys. a = take AGENT_ID_LEN k \<and> key_wants B client (pw_previous_keys pw) k (info_key B info))"
    if "getForwardService m' p = Some info" for p info
    using spec(2)[OF that] by auto
  then show ?thesis
    unfolding set_getAllPortForwardServices used
    using record_agents_spec[OF assms(4), of "pw_last_ports pw'" a] now by auto
qed

lemma wit_keys_arrived:
  "port_keys_arrived ref_boost (wit_key_net (''127.0.0.1'', ''8500'')) wit_bind [''agent00002w''] (wit_sm2, wit_pw1, wit_fm1) =
     Some (wit_sm2, wit_pw1\<lparr>pw_last_ports := [(5000, [''agent00002''])], pw_service_port := [(''web0'', 5000)],
        pw_previous_keys := [(''agent00002w'', \<lparr>si_service_name = ''web'', si_type = 0\<rparr>)]\<rparr>,
       \<lparr>forward_service_list = [(5000, \<lparr>fi_service_name = ''web'', fi_service_type = 0, fi_port = 5000\<rparr>)],
        forward_server_list = [(5000, \<lparr>fsi_bound_port = 5000, fsi_pool_size = 4\<rparr>)]\<rparr>)"
  by code_simp

theorem agent_services_listed_witness:
  "\<lparr>fi_service_name = ''web'', fi_service_type = 0, fi_port = 5000\<rparr> \<in>
     set (getAllPortForwardServices wit_sm2
       \<lparr>forward_service_list = [(5000, \<lparr>fi_service_name = ''web'', fi_service_type = 0, fi_port = 5000\<rparr>)],
        forward_server_list = [(5000, \<lparr>fsi_bound_port = 5000, fsi_pool_size = 4\<rparr>)]\<rparr> ''agent00001'' [])"
proof -
  have "port_watch_ok ref_boost wit_pw1 wit_fm1"
    by (rule port_watch_turn_keeps[OF port_watch_ok_new wit_bind_fresh wit_port_turn])
  moreover have "smap_ok (ports_used_by_agent wit_sm2)" by code_simp
  moreover have "(5000 :: 16 word) \<in> ports_of_agent (ports_used_by_agent wit_sm2) ''agent00001''" by code_simp
  ultimately show ?thesis
    using agent_services_listed[OF _ wit_bind_fresh _ _ wit_keys_arrived, of "''agent00001''"]
    by (auto simp: getForwardService_def)
qed

text \<open> The string under which a service is filed, its name followed by its type in decimal, is
  unambiguous for the types the watcher produces, whatever the names are.\<close>

theorem service_uniquestr_injective:
  assumes "boost_ok B" "0 \<le> t" "t < 10" "0 \<le> t'" "t' < 10"
    "service_uniquestr B n t = service_uniquestr B n' t'"
  shows "n = n' \<and> t = t'"
proof -
  have one: "0 \<le> x \<Longrightarrow> x < 10 \<Longrightarrow> dec_of_int x = [digit_char (nat x)]" for x
    by (simp add: dec_of_int_def dec_of_nat.simps)
  have "n @ [digit_char (nat t)] = n' @ [digit_char (nat t')]"
    using assms by (simp add: service_uniquestr_def boost_okD one)
  then have eq: "n = n'" "digit_char (nat t) = digit_char (nat t')" by simp_all
  have "nat t < 10" "nat t' < 10" using assms(2-5) by simp_all
  from digit_char_val[OF this(1)] digit_char_val[OF this(2)] have "nat t = nat t'"
    unfolding eq(2) by (rule trans[OF sym])
  with eq(1) assms(2,4) show ?thesis by simp
qed

theorem service_uniquestr_injective_witness:
  "(''db'' :: string) = ''db'' \<and> (1 :: int) = 1"
  by (rule service_uniquestr_injective[of ref_boost]) simp_all

end
