(* ===== verification/Service_Api.thy ===== *)
theory Service_Api
  imports Forward_Mgr Port_Forward_Watch
begin

text \<open>
  The entrances for clients: \<open>process/controllers\<close> (\<open>RequestParser\<close>, \<open>ResponseRender\<close>, \<open>CommandsController\<close>,
  \<open>APIController\<close>) and \<open>fiber-server/FibpRpcServer.cpp\<close>.  The JSON values of the driver library and msgpack are the
  arguments \<open>driver_values\<close> and \<open>msgpack_lib\<close>; an exception of theirs is \<open>None\<close>.  A handler is split where the code is:
  what it does before the call of the services, and the callback after it.
\<close>

section \<open>Parsing requests\<close>

record 'v driver_values =
  dv_is_object :: "'v \<Rightarrow> bool"
  dv_is_array :: "'v \<Rightarrow> bool"
  dv_has_key :: "'v \<Rightarrow> string \<Rightarrow> bool"
  dv_get :: "'v \<Rightarrow> string \<Rightarrow> 'v"
  dv_size :: "'v \<Rightarrow> nat"
  dv_at :: "'v \<Rightarrow> nat \<Rightarrow> 'v"
  dv_string :: "'v \<Rightarrow> string option"
  dv_int :: "'v \<Rightarrow> int option"
  dv_bool :: "'v \<Rightarrow> bool option"

record 'p msgpack_lib =
  mp_pack_string :: "string \<Rightarrow> string"
  mp_unpack_string :: "string \<Rightarrow> string + string"
  mp_unpack :: "string \<Rightarrow> 'p option"
  mp_pack :: "'p \<Rightarrow> string"
  mp_services :: "'p \<Rightarrow> ServiceCallReq list option"

definition parse_list_forward_service :: "'v driver_values \<Rightarrow> 'v \<Rightarrow> string option" where
  "parse_list_forward_service V req =
     (if \<not> dv_is_object V req then None
      else if dv_has_key V req ''ID'' then dv_string V (dv_get V req ''ID'') else Some '''')"

definition GetReqMethod :: "string \<Rightarrow> http_method" where
  "GetReqMethod m =
     (if m = ''DELETE'' then DELETE else if m = ''GET'' then GET else if m = ''PUT'' then PUT
      else if m = ''HEAD'' then HEAD else POST)"

text \<open>\<open>substr(pos)\<close>; past the end it throws, which is \<open>None\<close>.\<close>

definition substr :: "nat \<Rightarrow> string \<Rightarrow> string option" where
  "substr pos s = (if pos \<le> length s then Some (drop pos s) else None)"

definition parse_single_api_request :: "boost_lib \<Rightarrow> int \<Rightarrow> string \<Rightarrow> string \<Rightarrow> ServiceCallReq list option" where
  "parse_single_api_request B meth raw_req path =
     (let temp = b_trim_if B ''/'' path; elems = b_split_compress B ''/'' temp
      in if length elems < 4 then None
         else (let api_pos = length (elems ! 0) + 1 + (length (elems ! 1) + 1) + length (elems ! 2)
               in case substr api_pos temp of
                    None \<Rightarrow> None
                  | Some api \<Rightarrow>
                      Some [call_req_new\<lparr>req_service_name := elems ! 2, req_service_api := api, req_data := raw_req,
                              req_service_type := 0, req_method := meth\<rparr>]))"

definition parse_api :: "'v driver_values \<Rightarrow> 'p msgpack_lib \<Rightarrow> 'v \<Rightarrow> ServiceCallReq option" where
  "parse_api V M api_data =
     (case (dv_string V (dv_get V api_data ''service_name''), dv_string V (dv_get V api_data ''service_api''),
            dv_string V (dv_get V api_data ''service_method''), dv_string V (dv_get V api_data ''service_req_data''),
            dv_string V (dv_get V api_data ''service_cluster''), dv_int V (dv_get V api_data ''service_type''),
            dv_bool V (dv_get V api_data ''enable_cache'')) of
        (Some name, Some api, Some meth, Some body, Some cluster, Some type, Some cache) \<Rightarrow>
          Some \<lparr>req_service_name = name, req_service_api = api, req_method = method_code (GetReqMethod meth),
                req_data = (if type = service_type_val RPC_Service then mp_pack_string M body else body),
                req_cluster = cluster, req_service_type = type, req_enable_cache = cache\<rparr>
      | _ \<Rightarrow> None)"

definition parse_api_request :: "'v driver_values \<Rightarrow> 'p msgpack_lib \<Rightarrow> 'v \<Rightarrow> ServiceCallReq list option" where
  "parse_api_request V M api_list =
     (if \<not> dv_is_array V api_list then None
      else those (map (\<lambda>i. parse_api V M (dv_at V api_list i)) [0..<dv_size V api_list]))"

section \<open>Rendering responses\<close>

record rsp_row =
  row_service_name :: string
  row_rsp :: string
  row_is_cached :: bool
  row_error :: "string option"

definition conversion_error :: string where
  "conversion_error = ''Convert Service Rpc Response to Json String Failed.''"

definition render_row :: "'p msgpack_lib \<Rightarrow> ServiceCallReq \<Rightarrow> ServiceCallRsp \<Rightarrow> rsp_row" where
  "render_row M req r =
     (let (rsp, error) =
        (if req_service_type req = service_type_val RPC_Service \<and> rsp_rsp r \<noteq> ''''
         then (case mp_unpack_string M (rsp_rsp r) of Inr s \<Rightarrow> (s, rsp_error r) | Inl what \<Rightarrow> ('''', conversion_error @ what))
         else (rsp_rsp r, rsp_error r))
      in \<lparr>row_service_name = rsp_service_name r, row_rsp = rsp, row_is_cached = rsp_is_cached r,
          row_error = (if error = '''' then None else Some error)\<rparr>)"

text \<open>\<open>req_list[i++]\<close> past the end is undefined.\<close>

fun generate_rsp :: "'p msgpack_lib \<Rightarrow> ServiceCallReq list \<Rightarrow> ServiceCallRsp list \<Rightarrow> rsp_row list option" where
  "generate_rsp M reqs [] = Some []"
| "generate_rsp M [] (r # rs) = None"
| "generate_rsp M (q # qs) (r # rs) = map_option ((#) (render_row M q r)) (generate_rsp M qs rs)"

text \<open>\<open>Inl\<close> is an error of the response, \<open>Inr\<close> its raw body; without exactly one response the assertion fails.\<close>

definition generate_single_rsp :: "ServiceCallRsp list \<Rightarrow> (string + string) option" where
  "generate_single_rsp rsps =
     (case rsps of [r] \<Rightarrow> Some (if rsp_error r \<noteq> '''' then Inl (rsp_error r) else Inr (rsp_rsp r)) | _ \<Rightarrow> None)"

definition generate_port_forward_services_rsp :: "ForwardInfoT list \<Rightarrow> (string \<times> int \<times> 16 word) list" where
  "generate_port_forward_services_rsp infos = map (\<lambda>i. (fi_service_name i, fi_service_type i, fi_port i)) infos"

section \<open>Controllers\<close>

datatype command =
  Refused string
| Calls "64 word" "ServiceCallReq list" bool

definition commands_call_single ::
  "boost_lib \<Rightarrow> 64 word \<Rightarrow> int \<Rightarrow> string \<Rightarrow> string \<Rightarrow> logger \<Rightarrow> logger \<times> command" where
  "commands_call_single B now meth raw_req path lg =
     (case startServiceCall now lg of
        (lg', i) \<Rightarrow>
          (case parse_single_api_request B meth raw_req path of
             None \<Rightarrow> (lg', Refused ''parser request data failed.'')
           | Some reqs \<Rightarrow> (lg', Calls i reqs False)))"

definition commands_call_services ::
  "'v driver_values \<Rightarrow> 'p msgpack_lib \<Rightarrow> 64 word \<Rightarrow> 'v \<Rightarrow> logger \<Rightarrow> logger \<times> command option" where
  "commands_call_services V M now req lg =
     (case startServiceCall now lg of
        (lg', i) \<Rightarrow>
          (case dv_bool V (dv_get V req ''do_transaction'') of
             None \<Rightarrow> (lg', None)
           | Some do_transaction \<Rightarrow>
               (case parse_api_request V M (dv_get V req ''call_api_list'') of
                  None \<Rightarrow> (lg', Some (Refused ''parser request data failed.''))
                | Some reqs \<Rightarrow> (lg', Some (Calls i reqs do_transaction)))))"

definition after_call_single_service :: "64 word \<Rightarrow> 64 word \<Rightarrow> ServiceCallRsp list \<Rightarrow> logger \<Rightarrow> ((string + string) \<times> logger) option" where
  "after_call_single_service now i rsps lg = map_option (\<lambda>r. (r, endServiceCall now i lg)) (generate_single_rsp rsps)"

definition after_call_services ::
  "'p msgpack_lib \<Rightarrow> 64 word \<Rightarrow> 64 word \<Rightarrow> ServiceCallReq list \<Rightarrow> ServiceCallRsp list \<Rightarrow> logger \<Rightarrow> (rsp_row list \<times> logger) option" where
  "after_call_services M now i reqs rsps lg = map_option (\<lambda>rows. (rows, endServiceCall now i lg)) (generate_rsp M reqs rsps)"

definition list_port_forward_services ::
  "'v driver_values \<Rightarrow> service_mgr \<Rightarrow> forward_mgr \<Rightarrow> 'v \<Rightarrow> string + (string \<times> int \<times> 16 word) list" where
  "list_port_forward_services V sm m req =
     (case parse_list_forward_service V req of
        None \<Rightarrow> Inl ''parser request failed.''
      | Some agentid \<Rightarrow> Inr (generate_port_forward_services_rsp (getAllPortForwardServices sm m agentid [])))"

section \<open>The RPC server\<close>

definition method_test :: string where "method_test = ''test''"
definition method_call_services :: string where "method_call_services = ''call_services_async''"
definition method_call_single :: string where "method_call_single = ''call_single_service_async''"

datatype rpc_outcome =
  Rpc_true
| Rpc_error string
| Rpc_exception
| Rpc_calls "64 word" "ServiceCallReq list" bool

text \<open>\<open>None\<close> for the method is one that is no string.  \<open>Rpc_exception\<close> answers with the text of a standard exception.\<close>

definition dispatch ::
  "'p msgpack_lib \<Rightarrow> 64 word \<Rightarrow> string option \<Rightarrow> 'p \<Rightarrow> logger \<Rightarrow> logger \<times> rpc_outcome" where
  "dispatch M now meth params lg =
     (case meth of
        None \<Rightarrow> (lg, Rpc_error ''ARGUMENT_ERROR'')
      | Some m \<Rightarrow>
          if m = method_test then (lg, Rpc_true)
          else if m = method_call_services
          then (case startServiceCall now lg of
                  (lg', i) \<Rightarrow>
                    (case mp_services M params of
                       None \<Rightarrow> (lg', Rpc_error ''ARGUMENT_ERROR'')
                     | Some reqs \<Rightarrow> (lg', Rpc_calls i reqs False)))
          else if find_sub method_call_single m = Some 0
          then (case substr (length method_call_single + 1) m of
                  None \<Rightarrow> (lg, Rpc_exception)
                | Some server_method \<Rightarrow>
                    (case find_sub ''/'' server_method of
                       None \<Rightarrow> (lg, Rpc_error ''ARGUMENT_ERROR'')
                     | Some split_pos \<Rightarrow>
                         (case startServiceCall now lg of
                            (lg', i) \<Rightarrow>
                              (lg', Rpc_calls i
                                 [call_req_new\<lparr>req_service_name := take split_pos server_method,
                                    req_service_api := drop (split_pos + 1) server_method, req_data := mp_pack M params,
                                    req_cluster := ''dev'', req_service_type := service_type_val RPC_Service\<rparr>] True))))
          else (lg, Rpc_error ''NO_METHOD_ERROR''))"

datatype 'p rpc_reply = Reply_error string | Reply_value 'p | Reply_list "ServiceCallRsp list"

definition rpc_callback :: "64 word \<Rightarrow> 64 word \<Rightarrow> ServiceCallRsp list \<Rightarrow> logger \<Rightarrow> 'p rpc_reply \<times> logger" where
  "rpc_callback now i rsps lg = (Reply_list rsps, endServiceCall now i lg)"

text \<open>An answer that msgpack cannot read throws out of the callback: nothing is replied and the call is not ended.\<close>

definition rpc_single_service_callback ::
  "'p msgpack_lib \<Rightarrow> 64 word \<Rightarrow> 64 word \<Rightarrow> ServiceCallRsp list \<Rightarrow> logger \<Rightarrow> 'p rpc_reply option \<times> logger" where
  "rpc_single_service_callback M now i rsps lg =
     (case rsps of
        [r] \<Rightarrow>
          if rsp_error r = ''''
          then (case mp_unpack M (rsp_rsp r) of
                  None \<Rightarrow> (None, lg)
                | Some v \<Rightarrow> (Some (Reply_value v), endServiceCall now i lg))
          else (Some (Reply_error (rsp_error r)), endServiceCall now i lg)
      | _ \<Rightarrow> (Some (Reply_error ''SERVER_RETURN_ERROR''), endServiceCall now i lg))"

section \<open>Paths\<close>

lemma trim_any_around:
  assumes "set lead \<subseteq> set seps" "set trail \<subseteq> set seps" "s \<noteq> []" "hd s \<notin> set seps" "last s \<notin> set seps"
  shows "trim_any seps (lead @ s @ trail) = s"
proof -
  have "dropWhile (\<lambda>d. d \<in> set seps) (lead @ s @ trail) = s @ trail"
    using assms(1,3,4) by (cases s) (auto simp: dropWhile_append2 subset_iff)
  moreover have "dropWhile (\<lambda>d. d \<in> set seps) (rev (s @ trail)) = dropWhile (\<lambda>d. d \<in> set seps) (rev s)"
    unfolding rev_append using assms(2) by (intro dropWhile_append2) auto
  moreover have "dropWhile (\<lambda>d. d \<in> set seps) (rev s) = rev s"
    using assms(3,5) by (cases s rule: rev_cases) auto
  ultimately show ?thesis by (simp add: trim_any_def)
qed

lemma split_on_slashes:
  assumes "CHR ''/'' \<notin> set t" "s \<noteq> []" "hd s \<noteq> CHR ''/''"
  shows "split_on ''/'' (t @ replicate (Suc k) (CHR ''/'') @ s) = t # split_on ''/'' s"
proof -
  have "dropWhile (\<lambda>d. d \<in> set ''/'') (replicate k (CHR ''/'') @ s) = s"
    using assms(2,3) by (induction k; cases s) simp_all
  then show ?thesis using split_on_sep[of t "''/''" "CHR ''/''" "replicate k (CHR ''/'') @ s"] assms(1) by simp
qed

text \<open>The four parts of a path, with runs of slashes around them and a run between the first two.\<close>

lemma single_path:
  fixes k :: nat
  assumes "boost_ok B" "set lead \<subseteq> {CHR ''/''}" "set trail \<subseteq> {CHR ''/''}"
    "t0 \<noteq> []" "t1 \<noteq> []" "t2 \<noteq> []" "rest \<noteq> []" "CHR ''/'' \<notin> set t0 \<union> set t1 \<union> set t2"
    "hd rest \<noteq> CHR ''/''" "last rest \<noteq> CHR ''/''"
  defines "temp \<equiv> t0 @ replicate (Suc k) (CHR ''/'') @ t1 @ ''/'' @ t2 @ ''/'' @ rest"
  shows "b_trim_if B ''/'' (lead @ temp @ trail) = temp"
    "b_split_compress B ''/'' temp = t0 # t1 # t2 # split_on ''/'' rest"
proof -
  have hd: "hd t0 \<noteq> CHR ''/''" "hd t1 \<noteq> CHR ''/''" "hd t2 \<noteq> CHR ''/''"
    using assms(4-6,8) by (cases t0; cases t1; cases t2; auto)+
  have "trim_any ''/'' (lead @ temp @ trail) = temp"
    using assms(2,3,4,7,10) hd(1) by (intro trim_any_around) (simp_all add: temp_def)
  then show "b_trim_if B ''/'' (lead @ temp @ trail) = temp" using assms(1) by (simp add: boost_ok_def)
  have "split_on ''/'' temp = t0 # split_on ''/'' (t1 @ ''/'' @ t2 @ ''/'' @ rest)"
    unfolding temp_def using split_on_slashes[of t0 "t1 @ ''/'' @ t2 @ ''/'' @ rest" k] assms(5,8) hd(2) by simp
  also have "split_on ''/'' (t1 @ ''/'' @ t2 @ ''/'' @ rest) = t1 # split_on ''/'' (t2 @ ''/'' @ rest)"
    using split_on_slashes[of t1 "t2 @ ''/'' @ rest" 0] assms(6,8) hd(3) by simp
  also have "split_on ''/'' (t2 @ ''/'' @ rest) = t2 # split_on ''/'' rest"
    using split_on_slashes[of t2 rest 0] assms(7-9) by simp
  finally show "b_split_compress B ''/'' temp = t0 # t1 # t2 # split_on ''/'' rest" using assms(1) by (simp add: boost_ok_def)
qed

lemma generate_rsp_spec:
  "length rsps \<le> length reqs \<Longrightarrow> generate_rsp M reqs rsps = Some (map2 (render_row M) reqs rsps)"
  by (induction M reqs rsps rule: generate_rsp.induct) auto

lemma services_one_rsp_each:
  assumes "call_services_in_fiber C junk i reqs do_transaction fw rsps trs fw'"
  shows "length rsps = length reqs"
  using services_answered[OF assms] by (auto simp: refuse_transaction_def split: if_splits dest: list_all2_lengthD)

text \<open>An answer that does not come from the cache carries the name of the requested service.\<close>

lemma answer_of_name:
  assumes "answer_of C i req r" "\<not> rsp_is_cached r"
  shows "rsp_service_name r = req_service_name req"
proof -
  obtain E rnd fw st where st: "call_single_service C E rnd i req call_rsp_new fw = Some st" "r = cs_rsp st"
    using assms(1) by (auto simp: answer_of_def)
  show ?thesis
  proof (cases "req_service_name req = local_test")
    case True
    then show ?thesis using st by (auto simp: call_single_service_def Let_def call_start_state_def)
  next
    case False
    then obtain s where s: "call_attempts E i req MAX_RETRY rnd (call_start_state req call_rsp_new fw) = Some s" "st = call_finish C req s"
      using st(1) by (auto simp: call_single_service_def Let_def)
    have "rsp_service_name (cs_rsp s) = req_service_name req"
      using attempts_uncached[OF s(1)] by (simp add: call_start_state_def call_rsp_new_def)
    then show ?thesis
      using assms(2) unfolding st(2) s(2)
      by (auto simp: call_finish_def FibpServiceCache_get_def split: if_splits option.splits prod.splits)
  qed
qed

text \<open>A msgpack with strings only, packed as they are, for the examples.\<close>

definition ref_msgpack :: "string msgpack_lib" where
  "ref_msgpack = \<lparr>mp_pack_string = id, mp_unpack_string = Inr, mp_unpack = Some, mp_pack = id, mp_services = (\<lambda>_. None)\<rparr>"

section \<open>Properties\<close>

text \<open>\<^bold>\<open>C22\<close>. A call of a single service is read off the path \<open>/controller/action/service/api\<close>: the third part is
  the service, and what follows it, with its slash, is the path the service is asked for; slashes at both ends do not
  matter.\<close>

theorem single_call_parsed:
  assumes "boost_ok B" "set lead \<subseteq> {CHR ''/''}" "set trail \<subseteq> {CHR ''/''}"
    "t0 \<noteq> []" "t1 \<noteq> []" "t2 \<noteq> []" "rest \<noteq> []" "CHR ''/'' \<notin> set t0 \<union> set t1 \<union> set t2"
    "hd rest \<noteq> CHR ''/''" "last rest \<noteq> CHR ''/''"
  shows "parse_single_api_request B meth raw_req (lead @ t0 @ ''/'' @ t1 @ ''/'' @ t2 @ ''/'' @ rest @ trail) =
    Some [call_req_new\<lparr>req_service_name := t2, req_service_api := ''/'' @ rest, req_data := raw_req, req_service_type := 0,
            req_method := meth\<rparr>]"
proof -
  let ?temp = "t0 @ ''/'' @ t1 @ ''/'' @ t2 @ ''/'' @ rest"
  have "b_trim_if B ''/'' (lead @ ?temp @ trail) = ?temp"
    "b_split_compress B ''/'' ?temp = t0 # t1 # t2 # split_on ''/'' rest"
    using single_path[OF assms, of 0] by simp_all
  moreover have "0 < length (split_on ''/'' rest)" by simp
  ultimately show ?thesis by (simp add: parse_single_api_request_def Let_def substr_def)
qed

theorem single_call_parsed_witness:
  "parse_single_api_request ref_boost 1 ''body'' ''/commands/call_single_service_async/users/v1/list/'' =
    Some [call_req_new\<lparr>req_service_name := ''users'', req_service_api := ''/v1/list'', req_data := ''body'',
            req_service_type := 0, req_method := 1\<rparr>]"
  using single_call_parsed[OF ref_boost_ok, of "''/''" "''/''" "''commands''" "''call_single_service_async''" "''users''" "''v1/list''"]
  by simp

text \<open>A doubled slash before the service shifts the path the service is asked for: the parts are found
  although the slashes are doubled, but the position of the rest counts one slash each, so the request starts with the
  last character of the service's name.\<close>

theorem doubled_slash_shifts_api:
  assumes "boost_ok B" "set lead \<subseteq> {CHR ''/''}" "set trail \<subseteq> {CHR ''/''}"
    "t0 \<noteq> []" "t1 \<noteq> []" "rest \<noteq> []" "CHR ''/'' \<notin> set t0 \<union> set t1 \<union> set (t2 @ [c])"
    "hd rest \<noteq> CHR ''/''" "last rest \<noteq> CHR ''/''"
  shows "parse_single_api_request B meth raw_req (lead @ t0 @ ''//'' @ t1 @ ''/'' @ (t2 @ [c]) @ ''/'' @ rest @ trail) =
    Some [call_req_new\<lparr>req_service_name := t2 @ [c], req_service_api := c # ''/'' @ rest, req_data := raw_req,
            req_service_type := 0, req_method := meth\<rparr>]"
proof -
  let ?temp = "t0 @ ''//'' @ t1 @ ''/'' @ (t2 @ [c]) @ ''/'' @ rest"
  have "b_trim_if B ''/'' (lead @ ?temp @ trail) = ?temp"
    "b_split_compress B ''/'' ?temp = t0 # t1 # (t2 @ [c]) # split_on ''/'' rest"
    using single_path[OF assms(1-5) _ assms(6-9), of 1] by simp_all
  moreover have "0 < length (split_on ''/'' rest)" by simp
  ultimately show ?thesis by (simp add: parse_single_api_request_def Let_def substr_def eval_nat_numeral)
qed

theorem doubled_slash_shifts_api_witness:
  "parse_single_api_request ref_boost 1 '''' ''/commands//call_single_service_async/users/v1'' =
    Some [call_req_new\<lparr>req_service_name := ''users'', req_service_api := ''s/v1'', req_data := '''',
            req_service_type := 0, req_method := 1\<rparr>]"
  using doubled_slash_shifts_api[OF ref_boost_ok, of "''/''" "[]" "''commands''" "''call_single_service_async''" "''v1''" "''user''" "CHR ''s''"]
  by simp

text \<open>\<^bold>\<open>C18\<close>. The answer to a call of several services has one row per request, in the order of the requests: row \<open>k\<close> renders
  the answer of a call of the service of request \<open>k\<close>, under the name of that service unless the answer comes from the
  cache, or the refusal of a transaction that is not allowed.  Rendering never reads past the request list, and
  the call is ended on the log.\<close>

theorem rendered_row_per_request:
  assumes "call_services_in_fiber C junk i reqs do_transaction fw rsps trs fw'"
  shows "\<exists>rows. after_call_services M now i reqs rsps lg = Some (rows, endServiceCall now i lg) \<and> length rows = length reqs \<and>
    (\<forall>k < length reqs. \<exists>r. rows ! k = render_row M (reqs ! k) r \<and>
       (row_is_cached (rows ! k) \<or> row_service_name (rows ! k) = req_service_name (reqs ! k)) \<and>
       (if transaction_allowed do_transaction reqs then answer_of C i (reqs ! k) r else rsp_error r = tran_error))"
proof -
  have len: "length rsps = length reqs" using services_one_rsp_each[OF assms] .
  let ?rows = "map2 (render_row M) reqs rsps"
  have row: "?rows ! k = render_row M (reqs ! k) (rsps ! k)" if "k < length reqs" for k using that len by simp
  have fields: "row_is_cached (render_row M q r) = rsp_is_cached r" "row_service_name (render_row M q r) = rsp_service_name r" for q r
    by (simp_all add: render_row_def Let_def split: prod.split)
  have "\<exists>r. ?rows ! k = render_row M (reqs ! k) r \<and>
      (row_is_cached (?rows ! k) \<or> row_service_name (?rows ! k) = req_service_name (reqs ! k)) \<and>
      (if transaction_allowed do_transaction reqs then answer_of C i (reqs ! k) r else rsp_error r = tran_error)"
    if k: "k < length reqs" for k
  proof (cases "transaction_allowed do_transaction reqs")
    case True
    then have "answer_of C i (reqs ! k) (rsps ! k)" using services_answered[OF assms] k by (simp add: list_all2_nthD)
    then show ?thesis using True row[OF k] answer_of_name fields by (intro exI[of _ "rsps ! k"]) auto
  next
    case False
    then have "rsps ! k = call_rsp_new\<lparr>rsp_service_name := req_service_name (reqs ! k), rsp_error := tran_error\<rparr>"
      using services_answered[OF assms] k by (simp add: refuse_transaction_def)
    then show ?thesis using False row[OF k] fields by (intro exI[of _ "rsps ! k"]) simp
  qed
  then show ?thesis using generate_rsp_spec[of rsps reqs M] len
    by (intro exI[of _ ?rows]) (simp add: after_call_services_def)
qed

theorem rendered_row_per_request_witness:
  "\<exists>rsps fw' rows. call_services_in_fiber ref_cache '''' 5 [wit_req, wit_local] False wit_fw rsps [] fw' \<and>
     map rsp_rsp rsps = [''pong'', ''local_test''] \<and>
     after_call_services ref_msgpack 9 5 [wit_req, wit_local] rsps logger_new = Some (rows, endServiceCall 9 5 logger_new) \<and>
     length rows = 2 \<and> (\<exists>r. rows ! 1 = render_row ref_msgpack wit_local r \<and> answer_of ref_cache 5 wit_local r)"
proof -
  obtain rsps fw' where w: "call_services_in_fiber ref_cache '''' 5 [wit_req, wit_local] False wit_fw rsps [] fw'"
    "map rsp_rsp rsps = [''pong'', ''local_test'']" using wit_two_calls by (elim exE conjE)
  obtain rows where rows: "after_call_services ref_msgpack 9 5 [wit_req, wit_local] rsps logger_new = Some (rows, endServiceCall 9 5 logger_new)"
    "length rows = length [wit_req, wit_local]"
    "\<forall>k < length [wit_req, wit_local]. \<exists>r. rows ! k = render_row ref_msgpack ([wit_req, wit_local] ! k) r \<and>
       (row_is_cached (rows ! k) \<or> row_service_name (rows ! k) = req_service_name ([wit_req, wit_local] ! k)) \<and>
       (if transaction_allowed False [wit_req, wit_local] then answer_of ref_cache 5 ([wit_req, wit_local] ! k) r else rsp_error r = tran_error)"
    using rendered_row_per_request[OF w(1), of ref_msgpack 9 logger_new] by (elim exE conjE)
  have "\<exists>r. rows ! 1 = render_row ref_msgpack wit_local r \<and> answer_of ref_cache 5 wit_local r"
    using rows(3)[rule_format, of 1] by (auto simp: transaction_allowed_def)
  then show ?thesis using w rows(1,2) by (intro exI[of _ rsps] exI[of _ fw'] exI[of _ rows]) simp
qed

text \<open>The RPC method \<open>call_single_service_async/service/api\<close> calls the API of the service with the
  parameters packed as they came; without an API it is an argument error, and the bare method name an exception.\<close>

theorem rpc_single_dispatch:
  assumes "CHR ''/'' \<notin> set name" "startServiceCall now lg = (lg', i)"
  shows "dispatch M now (Some (method_call_single @ ''/'' @ name @ ''/'' @ api)) params lg =
      (lg', Rpc_calls i [call_req_new\<lparr>req_service_name := name, req_service_api := api, req_data := mp_pack M params,
         req_cluster := ''dev'', req_service_type := service_type_val RPC_Service\<rparr>] True) \<and>
    dispatch M now (Some (method_call_single @ ''/'' @ name)) params lg = (lg, Rpc_error ''ARGUMENT_ERROR'') \<and>
    dispatch M now (Some method_call_single) params lg = (lg, Rpc_exception)"
proof -
  have pre: "find_sub method_call_single (method_call_single @ t) = Some 0" for t by (simp add: method_call_single_def)
  have other: "method_call_single @ t \<noteq> method_test" "method_call_single @ t \<noteq> method_call_services" for t
    by (simp_all add: method_call_single_def method_test_def method_call_services_def)
  have found: "find_sub ''/'' (name @ ''/'' @ api) = Some (length name)" using assms(1) by (induction name) (auto simp: prefix_Cons)
  have none: "find_sub ''/'' name = None" using assms(1) by (induction name) auto
  show ?thesis
    using pre[of "''/'' @ name @ ''/'' @ api"] pre[of "''/'' @ name"] pre[of "[]"] other[of "''/'' @ name @ ''/'' @ api"]
      other[of "''/'' @ name"] other[of "[]"] found none assms(2)
    by (simp add: dispatch_def substr_def)
qed

theorem rpc_single_dispatch_witness:
  "dispatch ref_msgpack 7 (Some (''call_single_service_async'' @ ''/users/list'')) ''p'' logger_new =
     (fst (startServiceCall 7 logger_new), Rpc_calls 1 [call_req_new\<lparr>req_service_name := ''users'', req_service_api := ''list'',
        req_data := ''p'', req_cluster := ''dev'', req_service_type := service_type_val RPC_Service\<rparr>] True)"
proof -
  have "snd (startServiceCall 7 logger_new) = 1"
    by (simp add: startServiceCall_def logger_new_def log_data_new_def Let_def)
  then show ?thesis
    using rpc_single_dispatch[of "''users''" 7 logger_new "fst (startServiceCall 7 logger_new)" 1 ref_msgpack "''list''" "''p''"]
    by (cases "startServiceCall 7 logger_new") (simp add: method_call_single_def ref_msgpack_def)
qed

text \<open>\<^bold>\<open>C25\<close>. One malformed request stops the log: when everything logged so far has been sent, a request for a single
  service with a path that is refused leaves its entry open, and from then on the sender keeps its
  position and sends nothing, whatever the handlers do.\<close>

theorem malformed_request_stalls_log:
  assumes "log_run log_sys_new s" "ls_next s = lg_auto_inc_id (ls_log s) + 1" "ls_next s \<noteq> 0"
    "commands_call_single B now meth raw_req path (ls_log s) = (lg', Refused e)" "log_run (s\<lparr>ls_log := lg'\<rparr>) s'"
  shows "log_run s (s\<lparr>ls_log := lg'\<rparr>) \<and> ls_next s' = ls_next s \<and> ls_sent s' = ls_sent s \<and> sender_step lim s' = None"
proof -
  let ?i = "lg_auto_inc_id (ls_log s) + 1"
  have inv: "log_inv s" using assms(1) by (rule log_inv_reachable)
  have "unat ?i = Suc (unat (lg_auto_inc_id (ls_log s)))" using assms(2,3) unat_succ by simp
  then have free: "ld_id (lg_slots (ls_log s) k) = 0" "\<not> ld_wait_send (lg_slots (ls_log s) k)" for k
    using inv assms(2) by (auto simp: log_inv_def slot_ok_def word_le_nat_alt split: if_splits dest: spec[of _ k])
  then have idle: "ls_open s = {}" using inv by (auto simp: log_inv_def)
  have start: "startServiceCall now (ls_log s) = (lg', ?i)" and slot: "ld_id (lg_slots lg' (slot_of ?i)) = ?i"
    "\<not> ld_wait_send (lg_slots lg' (slot_of ?i))"
    using assms(4) free[of "slot_of ?i"] by (auto simp: commands_call_single_def startServiceCall_def Let_def split: option.splits)
  let ?t = "s\<lparr>ls_log := lg', ls_open := {?i}\<rparr>"
  have "log_step s ?t" using log_step.call_start[OF _ start] assms(2,3) idle by simp
  moreover have "log_step ?t (s\<lparr>ls_log := lg'\<rparr>)" using log_step.call_abandon[of ?i ?t] idle by (cases s) simp
  ultimately have run: "log_run s (s\<lparr>ls_log := lg'\<rparr>)" by (meson r_into_rtranclp rtranclp_trans)
  have "log_inv (s\<lparr>ls_log := lg'\<rparr>)" using log_inv_run[OF run inv] .
  from stuck_run[OF this assms(5)] show ?thesis
    using run slot idle assms(2,3) by (simp add: sender_step_def drain_one_def)
qed

theorem malformed_request_stalls_log_witness:
  "\<exists>lg' e. commands_call_single ref_boost 8 1 '''' ''/commands/call_single_service_async'' (ls_log log_drained) = (lg', Refused e) \<and>
     ls_next log_drained = 2 \<and> log_run log_drained (log_drained\<lparr>ls_log := lg'\<rparr>) \<and>
     sender_step lim_db (log_drained\<lparr>ls_log := lg'\<rparr>) = None"
proof -
  let ?lg = "fst (startServiceCall 8 (ls_log log_drained))"
  have "b_split_compress ref_boost ''/'' (b_trim_if ref_boost ''/'' ''/commands/call_single_service_async'') =
      [''commands'', ''call_single_service_async'']"
    by (simp add: ref_boost_def trim_any_def)
  then have "parse_single_api_request ref_boost 1 '''' ''/commands/call_single_service_async'' = None"
    by (simp add: parse_single_api_request_def)
  then have r: "commands_call_single ref_boost 8 1 '''' ''/commands/call_single_service_async'' (ls_log log_drained) =
      (?lg, Refused ''parser request data failed.'')"
    by (cases "startServiceCall 8 (ls_log log_drained)") (simp add: commands_call_single_def)
  have n: "ls_next log_drained = 2" "lg_auto_inc_id (ls_log log_drained) = 1" by (simp_all add: log_witness_defs)
  have "log_run log_drained (log_drained\<lparr>ls_log := ?lg\<rparr>) \<and> sender_step lim_db (log_drained\<lparr>ls_log := ?lg\<rparr>) = None"
    using malformed_request_stalls_log[OF log_drained_run _ _ r rtranclp.rtrancl_refl, of lim_db] n by simp
  then show ?thesis using r n by (intro exI[of _ ?lg] exI[of _ "''parser request data failed.''"] conjI) simp_all
qed

end
