(* ===== verification/Url_Parser.thy ===== *)
theory Url_Parser
  imports Fibp_Prelude
begin

text \<open>
  The character classes, the states and the URL part of \<open>fiber-server/http_parser.cpp\<close>, compiled in its
  default strict mode: the byte-wise URL automaton that the request parser runs, and
  \<open>http_parser_parse_url\<close>, which splits a complete URL.

  A byte is a \<^typ>\<open>char\<close>; \<open>LOWER\<close> sets bit 5.  Offsets and lengths of URL parts are \<open>uint16_t\<close>: they are
  natural numbers reduced by \<open>u16\<close>.  The structure that receives the parts is not initialised by the
  caller, so its contents on entry are an argument; a read outside of the buffer is the value \<open>None\<close>.
\<close>

section \<open>Character classes\<close>

abbreviation code :: "char \<Rightarrow> nat" where "code c \<equiv> of_char c"

fun LOWER :: "char \<Rightarrow> char" where
  "LOWER (Char b0 b1 b2 b3 b4 b5 b6 b7) = Char b0 b1 b2 b3 b4 True b6 b7"

definition IS_ALPHA :: "char \<Rightarrow> bool" where
  "IS_ALPHA c \<longleftrightarrow> code (CHR ''a'') \<le> code (LOWER c) \<and> code (LOWER c) \<le> code (CHR ''z'')"

definition IS_NUM :: "char \<Rightarrow> bool" where
  "IS_NUM c \<longleftrightarrow> code (CHR ''0'') \<le> code c \<and> code c \<le> code (CHR ''9'')"

definition IS_ALPHANUM :: "char \<Rightarrow> bool" where
  "IS_ALPHANUM c \<longleftrightarrow> IS_ALPHA c \<or> IS_NUM c"

definition IS_HEX :: "char \<Rightarrow> bool" where
  "IS_HEX c \<longleftrightarrow> IS_NUM c \<or> (code (CHR ''a'') \<le> code (LOWER c) \<and> code (LOWER c) \<le> code (CHR ''f''))"

definition IS_MARK :: "char \<Rightarrow> bool" where
  "IS_MARK c \<longleftrightarrow> c \<in> set [CHR ''-'', CHR ''_'', CHR ''.'', CHR ''!'', CHR ''~'', CHR ''*'', CHR 0x27, CHR ''('', CHR '')'']"

definition IS_USERINFO_CHAR :: "char \<Rightarrow> bool" where
  "IS_USERINFO_CHAR c \<longleftrightarrow> IS_ALPHANUM c \<or> IS_MARK c \<or>
     c \<in> set [CHR ''%'', CHR '';'', CHR '':'', CHR ''&'', CHR ''='', CHR ''+'', CHR ''$'', CHR '','']"

text \<open>The table \<open>tokens\<close>: NUL for everything that is not a token character, letters in lower case.\<close>

definition TOKEN :: "char \<Rightarrow> char" where
  "TOKEN c =
     (if code c \<ge> 128 then CHR 0x00
      else if IS_ALPHA c then LOWER c
      else if IS_NUM c \<or> c \<in> set [CHR ''!'', CHR ''#'', CHR ''$'', CHR ''%'', CHR ''&'', CHR 0x27, CHR ''*'', CHR ''+'',
                 CHR ''-'', CHR ''.'', CHR ''^'', CHR ''_'', CHR 0x60, CHR ''|'', CHR ''~'']
      then c else CHR 0x00)"

text \<open>The table \<open>unhex\<close> lists 128 entries for an array of 256: the upper half is zero, not \<open>-1\<close>.\<close>

definition unhex :: "char \<Rightarrow> int" where
  "unhex c =
     (if code c \<ge> 128 then 0
      else if IS_NUM c then int (code c) - 48
      else if IS_HEX c then int (code (LOWER c)) - 87
      else -1)"

text \<open>The bit table \<open>normal_url_char\<close> in strict mode: the visible characters without \<open>#\<close> and \<open>?\<close>.\<close>

definition IS_URL_CHAR :: "char \<Rightarrow> bool" where
  "IS_URL_CHAR c \<longleftrightarrow> 33 \<le> code c \<and> code c \<le> 126 \<and> c \<noteq> CHR ''#'' \<and> c \<noteq> CHR ''?''"

definition IS_HOST_CHAR :: "char \<Rightarrow> bool" where
  "IS_HOST_CHAR c \<longleftrightarrow> IS_ALPHANUM c \<or> c = CHR ''.'' \<or> c = CHR ''-''"

abbreviation CR :: char where "CR \<equiv> CHR 0x0D"
abbreviation LF :: char where "LF \<equiv> CHR 0x0A"
abbreviation SP :: char where "SP \<equiv> CHR '' ''"
abbreviation TAB :: char where "TAB \<equiv> CHR 0x09"
abbreviation NUL :: char where "NUL \<equiv> CHR 0x00"

section \<open>States\<close>

datatype state =
    s_dead
  | s_start_req_or_res | s_res_or_resp_H | s_start_res | s_res_H | s_res_HT | s_res_HTT | s_res_HTTP
  | s_res_first_http_major | s_res_http_major | s_res_first_http_minor | s_res_http_minor
  | s_res_first_status_code | s_res_status_code | s_res_status_start | s_res_status | s_res_line_almost_done
  | s_start_req
  | s_req_method | s_req_spaces_before_url | s_req_schema | s_req_schema_slash | s_req_schema_slash_slash
  | s_req_server_start | s_req_server | s_req_server_with_at | s_req_path | s_req_query_string_start
  | s_req_query_string | s_req_fragment_start | s_req_fragment
  | s_req_http_start | s_req_http_H | s_req_http_HT | s_req_http_HTT | s_req_http_HTTP
  | s_req_first_http_major | s_req_http_major | s_req_first_http_minor | s_req_http_minor | s_req_line_almost_done
  | s_header_field_start | s_header_field | s_header_value_discard_ws | s_header_value_discard_ws_almost_done
  | s_header_value_discard_lws | s_header_value_start | s_header_value | s_header_value_lws
  | s_header_almost_done
  | s_chunk_size_start | s_chunk_size | s_chunk_parameters | s_chunk_size_almost_done
  | s_headers_almost_done | s_headers_done
  | s_chunk_data | s_chunk_data_almost_done | s_chunk_data_done
  | s_body_identity | s_body_identity_eof
  | s_message_done

text \<open>\<open>PARSING_HEADER\<close>: the states up to \<open>s_headers_done\<close> in the order of the enumeration.\<close>

definition PARSING_HEADER :: "state \<Rightarrow> bool" where
  "PARSING_HEADER s \<longleftrightarrow> s \<notin> set [s_chunk_data, s_chunk_data_almost_done, s_chunk_data_done, s_body_identity,
     s_body_identity_eof, s_message_done]"

section \<open>The URL automaton\<close>

definition url_server_char :: "char \<Rightarrow> state" where
  "url_server_char ch =
     (if ch = CHR ''/'' then s_req_path
      else if ch = CHR ''?'' then s_req_query_string_start
      else if ch = CHR ''@'' then s_req_server_with_at
      else if IS_USERINFO_CHAR ch \<or> ch = CHR ''['' \<or> ch = CHR '']'' then s_req_server
      else s_dead)"

definition parse_url_char :: "state \<Rightarrow> char \<Rightarrow> state" where
  "parse_url_char s ch =
     (if ch \<in> set [SP, CR, LF, TAB, CHR 0x0C] then s_dead
      else
        (case s of
           s_req_spaces_before_url \<Rightarrow>
             if ch = CHR ''/'' \<or> ch = CHR ''*'' then s_req_path
             else if IS_ALPHA ch then s_req_schema else s_dead
         | s_req_schema \<Rightarrow>
             if IS_ALPHA ch then s else if ch = CHR '':'' then s_req_schema_slash else s_dead
         | s_req_schema_slash \<Rightarrow> if ch = CHR ''/'' then s_req_schema_slash_slash else s_dead
         | s_req_schema_slash_slash \<Rightarrow> if ch = CHR ''/'' then s_req_server_start else s_dead
         | s_req_server_with_at \<Rightarrow> if ch = CHR ''@'' then s_dead else url_server_char ch
         | s_req_server_start \<Rightarrow> url_server_char ch
         | s_req_server \<Rightarrow> url_server_char ch
         | s_req_path \<Rightarrow>
             if IS_URL_CHAR ch then s
             else if ch = CHR ''?'' then s_req_query_string_start
             else if ch = CHR ''#'' then s_req_fragment_start else s_dead
         | s_req_query_string_start \<Rightarrow>
             if IS_URL_CHAR ch \<or> ch = CHR ''?'' then s_req_query_string
             else if ch = CHR ''#'' then s_req_fragment_start else s_dead
         | s_req_query_string \<Rightarrow>
             if IS_URL_CHAR ch \<or> ch = CHR ''?'' then s_req_query_string
             else if ch = CHR ''#'' then s_req_fragment_start else s_dead
         | s_req_fragment_start \<Rightarrow>
             if IS_URL_CHAR ch \<or> ch = CHR ''?'' then s_req_fragment
             else if ch = CHR ''#'' then s else s_dead
         | s_req_fragment \<Rightarrow> if IS_URL_CHAR ch \<or> ch = CHR ''?'' \<or> ch = CHR ''#'' then s else s_dead
         | _ \<Rightarrow> s_dead))"

section \<open>Hosts\<close>

datatype http_host_state =
    s_http_host_dead | s_http_userinfo_start | s_http_userinfo | s_http_host_start | s_http_host_v6_start
  | s_http_host | s_http_host_v6 | s_http_host_v6_end | s_http_host_port_start | s_http_host_port

definition http_parse_host_char :: "http_host_state \<Rightarrow> char \<Rightarrow> http_host_state" where
  "http_parse_host_char s ch =
     (case s of
        s_http_userinfo \<Rightarrow>
          if ch = CHR ''@'' then s_http_host_start else if IS_USERINFO_CHAR ch then s_http_userinfo else s_http_host_dead
      | s_http_userinfo_start \<Rightarrow>
          if ch = CHR ''@'' then s_http_host_start else if IS_USERINFO_CHAR ch then s_http_userinfo else s_http_host_dead
      | s_http_host_start \<Rightarrow>
          if ch = CHR ''['' then s_http_host_v6_start else if IS_HOST_CHAR ch then s_http_host else s_http_host_dead
      | s_http_host \<Rightarrow>
          if IS_HOST_CHAR ch then s_http_host else if ch = CHR '':'' then s_http_host_port_start else s_http_host_dead
      | s_http_host_v6_end \<Rightarrow> if ch = CHR '':'' then s_http_host_port_start else s_http_host_dead
      | s_http_host_v6 \<Rightarrow>
          if ch = CHR '']'' then s_http_host_v6_end
          else if IS_HEX ch \<or> ch = CHR '':'' \<or> ch = CHR ''.'' then s_http_host_v6 else s_http_host_dead
      | s_http_host_v6_start \<Rightarrow>
          if IS_HEX ch \<or> ch = CHR '':'' \<or> ch = CHR ''.'' then s_http_host_v6 else s_http_host_dead
      | s_http_host_port \<Rightarrow> if IS_NUM ch then s_http_host_port else s_http_host_dead
      | s_http_host_port_start \<Rightarrow> if IS_NUM ch then s_http_host_port else s_http_host_dead
      | s_http_host_dead \<Rightarrow> s_http_host_dead)"

section \<open>Splitting a URL\<close>

datatype url_part = UF_SCHEMA | UF_HOST | UF_PORT | UF_PATH | UF_QUERY | UF_FRAGMENT | UF_USERINFO

record url_field =
  uf_off :: nat
  uf_len :: nat

record http_parser_url =
  u_field_set :: "url_part \<Rightarrow> bool"
  u_port :: nat
  u_field_data :: "url_part \<Rightarrow> url_field"

definition u16 :: "nat \<Rightarrow> nat" where "u16 n = n mod 2 ^ 16"

definition start_field :: "url_part \<Rightarrow> nat \<Rightarrow> nat \<Rightarrow> http_parser_url \<Rightarrow> http_parser_url" where
  "start_field f off len u =
     u\<lparr>u_field_data := (u_field_data u)(f := \<lparr>uf_off = u16 off, uf_len = len\<rparr>), u_field_set := (u_field_set u)(f := True)\<rparr>"

definition grow_field :: "url_part \<Rightarrow> http_parser_url \<Rightarrow> http_parser_url" where
  "grow_field f u =
     u\<lparr>u_field_data := (u_field_data u)(f := (u_field_data u f)\<lparr>uf_len := u16 (uf_len (u_field_data u f) + 1)\<rparr>)\<rparr>"

definition set_off :: "url_part \<Rightarrow> nat \<Rightarrow> http_parser_url \<Rightarrow> http_parser_url" where
  "set_off f off u = u\<lparr>u_field_data := (u_field_data u)(f := (u_field_data u f)\<lparr>uf_off := u16 off\<rparr>)\<rparr>"

text \<open>The effect of one byte at position \<open>p\<close> on the parts, given the old and the new state.\<close>

definition host_char_effect :: "http_host_state \<Rightarrow> http_host_state \<Rightarrow> nat \<Rightarrow> http_parser_url \<Rightarrow> http_parser_url" where
  "host_char_effect s new_s p u =
     (case new_s of
        s_http_host \<Rightarrow> grow_field UF_HOST (if s \<noteq> s_http_host then set_off UF_HOST p u else u)
      | s_http_host_v6 \<Rightarrow> grow_field UF_HOST (if s \<noteq> s_http_host_v6 then set_off UF_HOST p u else u)
      | s_http_host_port \<Rightarrow> grow_field UF_PORT (if s \<noteq> s_http_host_port then start_field UF_PORT p 0 u else u)
      | s_http_userinfo \<Rightarrow> grow_field UF_USERINFO (if s \<noteq> s_http_userinfo then start_field UF_USERINFO p 0 u else u)
      | _ \<Rightarrow> u)"

text \<open>The byte at position \<open>p\<close> of a C string: its NUL is readable, nothing behind it.\<close>

definition byte_at :: "string \<Rightarrow> nat \<Rightarrow> char option" where
  "byte_at buf p = (if p < length buf then Some (buf ! p) else if p = length buf then Some NUL else None)"

text \<open>The loop of \<open>http_parse_host\<close> with \<open>n\<close> bytes to go; \<open>Some (True, _)\<close> is the result 1.\<close>

fun host_loop :: "string \<Rightarrow> nat \<Rightarrow> nat \<Rightarrow> http_host_state \<Rightarrow> http_parser_url \<Rightarrow> (bool \<times> http_parser_url) option" where
  "host_loop buf p 0 s u =
     Some (s \<in> set [s_http_host_start, s_http_host_v6_start, s_http_host_v6, s_http_host_port_start, s_http_userinfo,
       s_http_userinfo_start], u)"
| "host_loop buf p (Suc n) s u =
     (case byte_at buf p of
        None \<Rightarrow> None
      | Some ch \<Rightarrow>
          let new_s = http_parse_host_char s ch in
          if new_s = s_http_host_dead then Some (True, u)
          else host_loop buf (Suc p) n new_s (host_char_effect s new_s p u))"

definition http_parse_host :: "string \<Rightarrow> bool \<Rightarrow> http_parser_url \<Rightarrow> (bool \<times> http_parser_url) option" where
  "http_parse_host buf found_at u =
     (let f = u_field_data u UF_HOST;
          u1 = u\<lparr>u_field_data := (u_field_data u)(UF_HOST := f\<lparr>uf_len := 0\<rparr>)\<rparr>
      in host_loop buf (uf_off f) (uf_len f) (if found_at then s_http_userinfo_start else s_http_host_start) u1)"

text \<open>The part that a state belongs to; delimiters belong to none.\<close>

datatype url_class = Url_dead | Url_delimiter | Url_in url_part

definition url_class_of :: "state \<Rightarrow> url_class" where
  "url_class_of s =
     (case s of
        s_req_schema_slash \<Rightarrow> Url_delimiter
      | s_req_schema_slash_slash \<Rightarrow> Url_delimiter
      | s_req_server_start \<Rightarrow> Url_delimiter
      | s_req_query_string_start \<Rightarrow> Url_delimiter
      | s_req_fragment_start \<Rightarrow> Url_delimiter
      | s_req_schema \<Rightarrow> Url_in UF_SCHEMA
      | s_req_server_with_at \<Rightarrow> Url_in UF_HOST
      | s_req_server \<Rightarrow> Url_in UF_HOST
      | s_req_path \<Rightarrow> Url_in UF_PATH
      | s_req_query_string \<Rightarrow> Url_in UF_QUERY
      | s_req_fragment \<Rightarrow> Url_in UF_FRAGMENT
      | _ \<Rightarrow> Url_dead)"

text \<open>The loop of \<open>http_parser_parse_url\<close>: whether it failed, whether an \<open>@\<close> was seen, and the parts.\<close>

fun url_loop :: "state \<Rightarrow> url_part option \<Rightarrow> bool \<Rightarrow> nat \<Rightarrow> string \<Rightarrow> http_parser_url \<Rightarrow> bool \<times> bool \<times> http_parser_url" where
  "url_loop s old_uf found_at p [] u = (False, found_at, u)"
| "url_loop s old_uf found_at p (ch # rest) u =
     (let s' = parse_url_char s ch in
      case url_class_of s' of
        Url_dead \<Rightarrow> (True, found_at, u)
      | Url_delimiter \<Rightarrow> url_loop s' old_uf found_at (Suc p) rest u
      | Url_in uf \<Rightarrow>
          url_loop s' (Some uf) (found_at \<or> s' = s_req_server_with_at) (Suc p) rest
            (if Some uf = old_uf then grow_field uf u else start_field uf p 1 u))"

text \<open>\<open>strtoul\<close> in base 10, saturating at \<open>ULONG_MAX\<close>.\<close>

definition c_strtoul :: "string \<Rightarrow> nat" where
  "c_strtoul s =
     (let t = dropWhile (\<lambda>c. c \<in> set [SP, TAB, LF, CHR 0x0B, CHR 0x0C, CR]) s;
          minus = (t \<noteq> [] \<and> hd t = CHR ''-'');
          d = (if t \<noteq> [] \<and> (hd t = CHR ''-'' \<or> hd t = CHR ''+'') then tl t else t);
          n = nat_of_dec (takeWhile is_digit d)
      in if n \<ge> 2 ^ 64 then 2 ^ 64 - 1 else if minus then (2 ^ 64 - n) mod 2 ^ 64 else n)"

definition url_only :: "url_part list \<Rightarrow> http_parser_url \<Rightarrow> bool" where
  "url_only fs u \<longleftrightarrow> (\<forall>f \<in> set [UF_SCHEMA, UF_HOST, UF_PORT, UF_PATH, UF_QUERY, UF_FRAGMENT, UF_USERINFO].
     u_field_set u f = (f \<in> set fs))"

text \<open>\<open>Some (True, u)\<close> is the result 1, with the parts found so far in \<open>u\<close>; the structure on entry is \<open>u0\<close>.\<close>

definition http_parser_parse_url :: "http_parser_url \<Rightarrow> string \<Rightarrow> bool \<Rightarrow> (bool \<times> http_parser_url) option" where
  "http_parser_parse_url u0 buf is_connect =
     (let u1 = u0\<lparr>u_port := 0, u_field_set := (\<lambda>_. False)\<rparr> in
      case url_loop (if is_connect then s_req_server_start else s_req_spaces_before_url) None False 0 buf u1 of
        (True, _, u2) \<Rightarrow> Some (True, u2)
      | (False, found_at, u2) \<Rightarrow>
          (case (if u_field_set u2 UF_SCHEMA \<or> u_field_set u2 UF_HOST then http_parse_host buf found_at u2 else Some (False, u2)) of
             None \<Rightarrow> None
           | Some (True, u3) \<Rightarrow> Some (True, u3)
           | Some (False, u3) \<Rightarrow>
               if is_connect \<and> \<not> url_only [UF_HOST, UF_PORT] u3 then Some (True, u3)
               else if u_field_set u3 UF_PORT
               then
                 (let v = c_strtoul (drop (uf_off (u_field_data u3 UF_PORT)) buf) in
                  if v > 65535 then Some (True, u3) else Some (False, u3\<lparr>u_port := v\<rparr>))
               else Some (False, u3)))"

definition url_text :: "string \<Rightarrow> http_parser_url \<Rightarrow> url_part \<Rightarrow> string" where
  "url_text buf u f = take (uf_len (u_field_data u f)) (drop (uf_off (u_field_data u f)) buf)"


section \<open>What the automaton accepts\<close>

lemma not_ws_url_char: "IS_URL_CHAR c \<Longrightarrow> c \<notin> set [SP, CR, LF, TAB, CHR 0x0C]"
  by (auto simp: IS_URL_CHAR_def)

lemma parse_url_path [simp]: "IS_URL_CHAR c \<Longrightarrow> parse_url_char s_req_path c = s_req_path"
  using not_ws_url_char[of c] by (simp add: parse_url_char_def)

lemma parse_url_query [simp]:
  "IS_URL_CHAR c \<or> c = CHR ''?'' \<Longrightarrow> s = s_req_query_string_start \<or> s = s_req_query_string \<Longrightarrow>
     parse_url_char s c = s_req_query_string"
  using not_ws_url_char[of c] by (elim disjE) (simp_all add: parse_url_char_def)

definition path_ok :: "string \<Rightarrow> bool" where
  "path_ok path \<longleftrightarrow> path \<noteq> [] \<and> hd path = CHR ''/'' \<and> list_all IS_URL_CHAR path"

definition query_ok :: "string \<Rightarrow> bool" where
  "query_ok q \<longleftrightarrow> list_all (\<lambda>c. IS_URL_CHAR c \<or> c = CHR ''?'') q"

text \<open>A run inside one part only counts its bytes, modulo \<open>2^16\<close>.\<close>

definition grown :: "url_part \<Rightarrow> nat \<Rightarrow> http_parser_url \<Rightarrow> http_parser_url" where
  "grown f n u = u\<lparr>u_field_data := (u_field_data u)(f := (u_field_data u f)\<lparr>uf_len := u16 (uf_len (u_field_data u f) + n)\<rparr>)\<rparr>"

lemma u16_less: "n < 2 ^ 16 \<Longrightarrow> u16 n = n"
  by (simp add: u16_def)

lemma grown_Suc: "grown f n (grow_field f u) = grown f (Suc n) u"
  by (simp add: grown_def grow_field_def u16_def mod_simps)

lemma grown_0: "uf_len (u_field_data u f) < 2 ^ 16 \<Longrightarrow> grown f 0 u = u"
  by (simp add: grown_def u16_less)

lemma uf_len_grow [simp]: "uf_len (u_field_data (grow_field f u) f) < 65536"
  by (simp add: grow_field_def u16_def)

lemma url_loop_path:
  "list_all IS_URL_CHAR cs \<Longrightarrow> uf_len (u_field_data u UF_PATH) < 2 ^ 16 \<Longrightarrow>
   url_loop s_req_path (Some UF_PATH) at p (cs @ rest) u =
     url_loop s_req_path (Some UF_PATH) at (p + length cs) rest (grown UF_PATH (length cs) u)"
proof (induction cs arbitrary: p u)
  case Nil
  then show ?case by (simp add: grown_0)
next
  case (Cons c cs)
  then show ?case by (simp add: Let_def url_class_of_def grown_Suc)
qed

lemma url_loop_query:
  "query_ok cs \<Longrightarrow> uf_len (u_field_data u UF_QUERY) < 2 ^ 16 \<Longrightarrow>
   url_loop s_req_query_string (Some UF_QUERY) at p cs u = (False, at, grown UF_QUERY (length cs) u)"
proof (induction cs arbitrary: p u)
  case Nil
  then show ?case by (simp add: grown_0)
next
  case (Cons c cs)
  then show ?case by (simp add: Let_def url_class_of_def grown_Suc query_ok_def)
qed

lemma url_loop_slash:
  "url_loop s_req_spaces_before_url None False 0 (CHR ''/'' # cs) u =
   url_loop s_req_path (Some UF_PATH) False (Suc 0) cs (start_field UF_PATH 0 1 u)"
  by (simp add: Let_def parse_url_char_def url_class_of_def)

lemma url_loop_origin:
  assumes "path_ok path" "query_ok query"
  shows "url_loop s_req_spaces_before_url None False 0 (path @ (if query = [] then [] else CHR ''?'' # query)) u =
    (False, False,
     (if query = [] then grown UF_PATH (length path - 1) (start_field UF_PATH 0 1 u)
      else grown UF_QUERY (length query - 1) (start_field UF_QUERY (Suc (length path)) 1
             (grown UF_PATH (length path - 1) (start_field UF_PATH 0 1 u)))))"
proof -
  obtain cs where path: "path = CHR ''/'' # cs" and cs: "list_all IS_URL_CHAR cs"
    using assms(1) by (cases path) (auto simp: path_ok_def)
  have l: "uf_len (u_field_data (start_field f i 1 u) f) < 2 ^ 16" for f i and u :: http_parser_url
    by (simp add: start_field_def)
  show ?thesis
  proof (cases query)
    case Nil
    have "url_loop s_req_path (Some UF_PATH) False (Suc 0) (cs @ []) (start_field UF_PATH 0 1 u) =
        (False, False, grown UF_PATH (length cs) (start_field UF_PATH 0 1 u))"
      by (subst url_loop_path[OF cs l]) simp
    then show ?thesis using Nil path by (simp only: append_Nil2 url_loop_slash append_Cons if_True list.size) simp
  next
    case (Cons q qs)
    have q: "IS_URL_CHAR q \<or> q = CHR ''?''" "query_ok qs" using assms(2) Cons by (auto simp: query_ok_def)
    have d: "parse_url_char s_req_path (CHR ''?'') = s_req_query_string_start"
      by (simp add: parse_url_char_def IS_URL_CHAR_def)
    have "url_loop s_req_path (Some UF_PATH) False (Suc 0) (cs @ CHR ''?'' # query) (start_field UF_PATH 0 1 u) =
        url_loop s_req_path (Some UF_PATH) False (Suc 0 + length cs) (CHR ''?'' # query)
          (grown UF_PATH (length cs) (start_field UF_PATH 0 1 u))"
      by (rule url_loop_path[OF cs l])
    also have "\<dots> = url_loop s_req_query_string (Some UF_QUERY) False (Suc (Suc (Suc (length cs)))) qs
          (start_field UF_QUERY (Suc (Suc (length cs))) 1 (grown UF_PATH (length cs) (start_field UF_PATH 0 1 u)))"
      using q(1) Cons d by (simp add: Let_def url_class_of_def)
    also have "\<dots> = (False, False, grown UF_QUERY (length qs) (start_field UF_QUERY (Suc (Suc (length cs))) 1
          (grown UF_PATH (length cs) (start_field UF_PATH 0 1 u))))"
      by (rule url_loop_query[OF q(2) l])
    finally show ?thesis using Cons path by (simp only: append_Cons url_loop_slash) simp
  qed
qed

text \<open>The parts of an origin-form URL, as \<open>http_parser_parse_url\<close> reports them: offsets and lengths modulo
  \<open>2^16\<close>, and no other part.\<close>

lemma parse_url_origin:
  assumes "path_ok path" "query_ok query"
    and "url = path @ (if query = [] then [] else CHR ''?'' # query)"
  shows "\<exists>u. http_parser_parse_url u0 url False = Some (False, u) \<and> u_port u = 0 \<and>
    url_only (if query = [] then [UF_PATH] else [UF_PATH, UF_QUERY]) u \<and>
    uf_off (u_field_data u UF_PATH) = 0 \<and> uf_len (u_field_data u UF_PATH) = u16 (length path) \<and>
    (if query = [] then True else uf_off (u_field_data u UF_QUERY) = u16 (Suc (length path)) \<and>
       uf_len (u_field_data u UF_QUERY) = u16 (length query))"
proof -
  have "path \<noteq> []" using assms(1) by (simp add: path_ok_def)
  then have "Suc (length path - 1) = length path" "query \<noteq> [] \<Longrightarrow> Suc (length query - 1) = length query"
    by simp_all
  then show ?thesis
    unfolding http_parser_parse_url_def assms(3) Let_def if_False url_loop_origin[OF assms(1,2)]
    by (simp add: grown_def start_field_def url_only_def u16_def)
qed


section \<open>Reads outside of the buffer\<close>

lemma http_parse_host_char_NUL [simp]: "http_parse_host_char s NUL = s_http_host_dead"
  by (cases s) (simp_all add: http_parse_host_char_def IS_USERINFO_CHAR_def IS_ALPHANUM_def IS_ALPHA_def IS_NUM_def
      IS_MARK_def IS_HOST_CHAR_def IS_HEX_def)

lemma host_loop_None: "host_loop buf p n s u = None \<longleftrightarrow> 0 < n \<and> length buf < p"
proof (induction buf p n s u rule: host_loop.induct)
  case (2 buf p n s u)
  then show ?case by (auto simp: byte_at_def Let_def split: option.splits)
qed simp

lemma url_loop_host:
  "url_loop s old at p buf u = (r, at', u') \<Longrightarrow> p + length buf = n \<Longrightarrow>
   (if u_field_set u UF_HOST then uf_off (u_field_data u UF_HOST) < n else u_field_data u UF_HOST = f0) \<Longrightarrow>
   (old = Some UF_HOST \<longrightarrow> u_field_set u UF_HOST) \<Longrightarrow>
   (if u_field_set u' UF_HOST then uf_off (u_field_data u' UF_HOST) < n else u_field_data u' UF_HOST = f0)"
proof (induction s old at p buf u arbitrary: r at' u' rule: url_loop.induct)
  case (2 s old at p ch rest u)
  let ?s = "parse_url_char s ch"
  show ?case
  proof (cases "url_class_of ?s")
    case Url_dead
    then show ?thesis using "2.prems" by (auto simp: Let_def split: if_splits)
  next
    case Url_delimiter
    then show ?thesis using "2.IH"(1)[OF refl Url_delimiter] "2.prems" by simp
  next
    case (Url_in uf)
    let ?u = "if Some uf = old then grow_field uf u else start_field uf p 1 u"
    have le: "u16 p < n" using "2.prems"(2) by (simp add: u16_def)
    have inv: "if u_field_set ?u UF_HOST then uf_off (u_field_data ?u UF_HOST) < n else u_field_data ?u UF_HOST = f0"
      using "2.prems"(3,4) le by (auto simp: grow_field_def start_field_def)
    have old: "Some uf = Some UF_HOST \<longrightarrow> u_field_set ?u UF_HOST"
      using "2.prems"(4) by (auto simp: grow_field_def start_field_def)
    have run: "url_loop ?s (Some uf) (at \<or> ?s = s_req_server_with_at) (Suc p) rest ?u = (r, at', u')"
      using "2.prems"(1) Url_in by (simp add: Let_def)
    show ?thesis
      by (rule "2.IH"(2)[OF refl Url_in run _ inv old]) (use "2.prems"(2) in simp)
  qed
qed simp

text \<open>The parse reads outside of the URL exactly when the URL has a schema but no host and the
  uninitialised structure happens to hold a non-empty host beyond the URL.\<close>

lemma parse_url_None:
  "http_parser_parse_url u0 buf False = None \<longleftrightarrow>
     (\<exists>at u. url_loop s_req_spaces_before_url None False 0 buf (u0\<lparr>u_port := 0, u_field_set := (\<lambda>_. False)\<rparr>) = (False, at, u) \<and>
        u_field_set u UF_SCHEMA \<and> \<not> u_field_set u UF_HOST) \<and>
     length buf < uf_off (u_field_data u0 UF_HOST) \<and> 0 < uf_len (u_field_data u0 UF_HOST)"
proof -
  let ?u1 = "u0\<lparr>u_port := 0, u_field_set := (\<lambda>_. False)\<rparr>"
  obtain r at u where l: "url_loop s_req_spaces_before_url None False 0 buf ?u1 = (r, at, u)"
    by (metis prod_cases3)
  have inv: "if u_field_set u UF_HOST then uf_off (u_field_data u UF_HOST) < length buf
      else u_field_data u UF_HOST = u_field_data u0 UF_HOST"
    by (rule url_loop_host[OF l]) simp_all
  have h: "http_parse_host buf at u = None \<longleftrightarrow>
      length buf < uf_off (u_field_data u UF_HOST) \<and> 0 < uf_len (u_field_data u UF_HOST)"
    by (auto simp: http_parse_host_def Let_def host_loop_None)
  show ?thesis
  proof (cases r)
    case True
    then show ?thesis using l by (simp add: http_parser_parse_url_def Let_def)
  next
    case False
    have "http_parser_parse_url u0 buf False = None \<longleftrightarrow>
        (u_field_set u UF_SCHEMA \<or> u_field_set u UF_HOST) \<and> http_parse_host buf at u = None"
      using l False by (auto simp: http_parser_parse_url_def Let_def split: option.splits bool.splits)
    then show ?thesis using l False inv h by (auto split: if_splits)
  qed
qed

section \<open>Properties\<close>

text \<open>\<^bold>\<open>C40\<close>. A URL in origin form, a path with an optional query, of less than 65536 bytes is split into exactly this path
  and this query, whatever the uninitialised structure held.\<close>

theorem origin_url_split:
  assumes "path_ok path" "query_ok query" "url = path @ (if query = [] then [] else CHR ''?'' # query)"
    "length url < 2 ^ 16"
  shows "\<exists>u. http_parser_parse_url u0 url False = Some (False, u) \<and> u_port u = 0 \<and>
    url_only (if query = [] then [UF_PATH] else [UF_PATH, UF_QUERY]) u \<and>
    url_text url u UF_PATH = path \<and> (query = [] \<or> url_text url u UF_QUERY = query)"
proof -
  obtain u where u: "http_parser_parse_url u0 url False = Some (False, u)" "u_port u = 0"
    "url_only (if query = [] then [UF_PATH] else [UF_PATH, UF_QUERY]) u"
    "uf_off (u_field_data u UF_PATH) = 0" "uf_len (u_field_data u UF_PATH) = u16 (length path)"
    "if query = [] then True else uf_off (u_field_data u UF_QUERY) = u16 (Suc (length path)) \<and>
       uf_len (u_field_data u UF_QUERY) = u16 (length query)"
    using parse_url_origin[OF assms(1-3), of u0] by blast
  have "length path < 2 ^ 16" "query \<noteq> [] \<Longrightarrow> Suc (length path) < 2 ^ 16 \<and> length query < 2 ^ 16"
    using assms(3,4) by (auto split: if_splits)
  then have "url_text url u UF_PATH = path" "query = [] \<or> url_text url u UF_QUERY = query"
    using u(4-6) assms(3) by (auto simp: url_text_def u16_less)
  then show ?thesis using u by blast
qed

definition garbage_url :: http_parser_url where
  "garbage_url = \<lparr>u_field_set = (\<lambda>_. True), u_port = 7, u_field_data = (\<lambda>_. \<lparr>uf_off = 5000, uf_len = 9\<rparr>)\<rparr>"

theorem origin_url_split_witness:
  "\<exists>u. http_parser_parse_url garbage_url ''/a/b?x=1'' False = Some (False, u) \<and>
     url_text ''/a/b?x=1'' u UF_PATH = ''/a/b'' \<and> url_text ''/a/b?x=1'' u UF_QUERY = ''x=1''"
  using origin_url_split[of "''/a/b''" "''x=1''" "''/a/b?x=1''" garbage_url]
  by (auto simp: path_ok_def query_ok_def IS_URL_CHAR_def)

text \<open>The lengths are counted in 16 bits: the path that is reported for a longer one is only its first bytes, as
  many as the length modulo 65536.  The parser accepts request lines of up to 80 kB.\<close>

theorem long_path_truncated:
  assumes "path_ok path" "2 ^ 16 \<le> length path"
  shows "\<exists>u. http_parser_parse_url u0 path False = Some (False, u) \<and>
    url_text path u UF_PATH = take (length path mod 65536) path \<and> url_text path u UF_PATH \<noteq> path"
proof -
  obtain u where u: "http_parser_parse_url u0 path False = Some (False, u)"
    "uf_off (u_field_data u UF_PATH) = 0" "uf_len (u_field_data u UF_PATH) = u16 (length path)"
    using parse_url_origin[OF assms(1), of "[]" path u0] by (auto simp: query_ok_def)
  have t: "url_text path u UF_PATH = take (length path mod 65536) path" using u by (simp add: url_text_def u16_def)
  have "65536 \<le> length path" using assms(2) by simp
  then have "length path mod 65536 < length path"
    using mod_less_divisor[of 65536 "length path"] by linarith
  then have "length (take (length path mod 65536) path) \<noteq> length path" by simp
  then have "url_text path u UF_PATH \<noteq> path" using t by metis
  then show ?thesis using u(1) t by blast
qed

theorem long_path_truncated_witness:
  "\<exists>u. http_parser_parse_url garbage_url (CHR ''/'' # replicate 65536 (CHR ''a'')) False = Some (False, u) \<and>
     url_text (CHR ''/'' # replicate 65536 (CHR ''a'')) u UF_PATH = ''/''"
proof -
  define n :: nat where n: "n = 65536"
  let ?path = "CHR ''/'' # replicate n (CHR ''a'')"
  have l: "length ?path = Suc n" by (simp only: list.size length_replicate add_Suc_right add_0_right)
  have m: "Suc n mod 65536 = 1" "2 ^ 16 \<le> Suc n" by (simp_all add: n)
  have "path_ok ?path" by (simp add: path_ok_def list_all_iff IS_URL_CHAR_def)
  moreover have "2 ^ 16 \<le> length ?path" using l m by metis
  ultimately obtain u where "http_parser_parse_url garbage_url ?path False = Some (False, u)"
    "url_text ?path u UF_PATH = take (length ?path mod 65536) ?path"
    using long_path_truncated by blast
  moreover have "take (length ?path mod 65536) ?path = ''/''" unfolding l m by simp
  ultimately show ?thesis unfolding n[symmetric] by auto
qed

text \<open>The only read outside of the URL: a schema without a host makes the parser read the host range of the
  uninitialised structure, which is undefined when that range is non-empty and starts behind the URL.\<close>

theorem hostless_url_reads_garbage:
  "http_parser_parse_url u0 ''http:///x'' False = None \<longleftrightarrow>
     9 < uf_off (u_field_data u0 UF_HOST) \<and> 0 < uf_len (u_field_data u0 UF_HOST)"
proof -
  have "\<exists>at u. url_loop s_req_spaces_before_url None False 0 ''http:///x'' (u0\<lparr>u_port := 0, u_field_set := (\<lambda>_. False)\<rparr>) =
      (False, at, u) \<and> u_field_set u UF_SCHEMA \<and> \<not> u_field_set u UF_HOST"
    by (rule exI[of _ False])
       (simp add: Let_def parse_url_char_def url_class_of_def IS_ALPHA_def url_server_char_def grow_field_def
        start_field_def IS_URL_CHAR_def)
  moreover have "length ''http:///x'' = 9" by simp
  ultimately show ?thesis unfolding parse_url_None by (simp only: simp_thms)
qed

end
