(* ===== verification/Http_Parser.thy ===== *)
theory Http_Parser
  imports Url_Parser
begin

text \<open>
  \<open>http_parser_execute\<close> of \<open>fiber-server/http_parser.cpp\<close>, compiled in its default strict mode.

  The pointer \<open>p\<close> is the pair of the bytes from \<open>p\<close> on (\<open>cx_rest\<close>) and the offset \<open>p - data\<close> (\<open>cx_n\<close>).  A mark is
  the text from the marked byte up to \<open>p\<close>, so the text of a data callback is the mark itself.  Every state has
  its handler; its result says how the C code leaves the switch: \<open>Break\<close> (to the next byte), \<open>Reexec\<close> (\<open>goto
  reexecute_byte\<close>), \<open>Error\<close> (\<open>goto error\<close>), \<open>Return\<close>, or \<open>Abort\<close>, a failed \<open>assert\<close>.

  The callbacks are functions on a user state; a result other than 0 is their failure.  They read the parser
  and do not change it, as the ones of this repository.  All of them are set.  Counters are natural numbers
  reduced to their widths.
\<close>

section \<open>The parser structure\<close>

datatype http_errno =
    HPE_OK
  | HPE_CB_message_begin | HPE_CB_url | HPE_CB_header_field | HPE_CB_header_value | HPE_CB_headers_complete
  | HPE_CB_body | HPE_CB_message_complete | HPE_CB_status
  | HPE_INVALID_EOF_STATE | HPE_HEADER_OVERFLOW | HPE_CLOSED_CONNECTION | HPE_INVALID_VERSION | HPE_INVALID_STATUS
  | HPE_INVALID_METHOD | HPE_INVALID_URL | HPE_LF_EXPECTED | HPE_INVALID_HEADER_TOKEN | HPE_INVALID_CONTENT_LENGTH
  | HPE_INVALID_CHUNK_SIZE | HPE_INVALID_CONSTANT | HPE_STRICT | HPE_PAUSED

datatype header_states =
    h_general | h_C | h_CO | h_CON
  | h_matching_connection | h_matching_proxy_connection | h_matching_content_length
  | h_matching_transfer_encoding | h_matching_upgrade
  | h_connection | h_content_length | h_transfer_encoding | h_upgrade
  | h_matching_transfer_encoding_chunked | h_matching_connection_keep_alive | h_matching_connection_close
  | h_transfer_encoding_chunked | h_connection_keep_alive | h_connection_close

datatype http_parser_type = HTTP_REQUEST | HTTP_RESPONSE | HTTP_BOTH

definition method_strings :: "string list" where
  "method_strings = [''DELETE'', ''GET'', ''HEAD'', ''POST'', ''PUT'', ''CONNECT'', ''OPTIONS'', ''TRACE'', ''COPY'', ''LOCK'',
     ''MKCOL'', ''MOVE'', ''PROPFIND'', ''PROPPATCH'', ''SEARCH'', ''UNLOCK'', ''REPORT'', ''MKACTIVITY'', ''CHECKOUT'',
     ''MERGE'', ''M-SEARCH'', ''NOTIFY'', ''SUBSCRIBE'', ''UNSUBSCRIBE'', ''PATCH'', ''PURGE'', ''MKCALENDAR'']"

abbreviation "HTTP_DELETE \<equiv> 0 :: nat"
abbreviation "HTTP_GET \<equiv> 1 :: nat"
abbreviation "HTTP_HEAD \<equiv> 2 :: nat"
abbreviation "HTTP_POST \<equiv> 3 :: nat"
abbreviation "HTTP_PUT \<equiv> 4 :: nat"
abbreviation "HTTP_CONNECT \<equiv> 5 :: nat"
abbreviation "HTTP_OPTIONS \<equiv> 6 :: nat"
abbreviation "HTTP_TRACE \<equiv> 7 :: nat"
abbreviation "HTTP_COPY \<equiv> 8 :: nat"
abbreviation "HTTP_LOCK \<equiv> 9 :: nat"
abbreviation "HTTP_MKCOL \<equiv> 10 :: nat"
abbreviation "HTTP_MOVE \<equiv> 11 :: nat"
abbreviation "HTTP_PROPFIND \<equiv> 12 :: nat"
abbreviation "HTTP_PROPPATCH \<equiv> 13 :: nat"
abbreviation "HTTP_SEARCH \<equiv> 14 :: nat"
abbreviation "HTTP_UNLOCK \<equiv> 15 :: nat"
abbreviation "HTTP_REPORT \<equiv> 16 :: nat"
abbreviation "HTTP_MKACTIVITY \<equiv> 17 :: nat"
abbreviation "HTTP_CHECKOUT \<equiv> 18 :: nat"
abbreviation "HTTP_MERGE \<equiv> 19 :: nat"
abbreviation "HTTP_MSEARCH \<equiv> 20 :: nat"
abbreviation "HTTP_NOTIFY \<equiv> 21 :: nat"
abbreviation "HTTP_SUBSCRIBE \<equiv> 22 :: nat"
abbreviation "HTTP_UNSUBSCRIBE \<equiv> 23 :: nat"
abbreviation "HTTP_PATCH \<equiv> 24 :: nat"
abbreviation "HTTP_PURGE \<equiv> 25 :: nat"
abbreviation "HTTP_MKCALENDAR \<equiv> 26 :: nat"

definition HTTP_MAX_HEADER_SIZE :: nat where "HTTP_MAX_HEADER_SIZE = 80 * 1024"

definition ULLONG_MAX :: nat where "ULLONG_MAX = 2 ^ 64 - 1"

text \<open>The bit field \<open>flags\<close> is one truth value per bit.\<close>

record http_parser =
  ps_type :: http_parser_type
  f_chunked :: bool
  f_keep_alive :: bool
  f_close :: bool
  f_trailing :: bool
  f_upgrade :: bool
  f_skipbody :: bool
  ps_state :: state
  ps_header_state :: header_states
  ps_index :: nat
  ps_nread :: nat
  ps_content_length :: nat
  ps_http_major :: nat
  ps_http_minor :: nat
  ps_status_code :: nat
  ps_method :: nat
  ps_errno :: http_errno
  ps_upgrade :: bool

definition http_parser_init :: "http_parser_type \<Rightarrow> http_parser" where
  "http_parser_init t = \<lparr>ps_type = t, f_chunked = False, f_keep_alive = False, f_close = False, f_trailing = False,
     f_upgrade = False, f_skipbody = False,
     ps_state = (if t = HTTP_REQUEST then s_start_req else if t = HTTP_RESPONSE then s_start_res else s_start_req_or_res),
     ps_header_state = h_general, ps_index = 0, ps_nread = 0, ps_content_length = 0, ps_http_major = 0,
     ps_http_minor = 0, ps_status_code = 0, ps_method = 0, ps_errno = HPE_OK, ps_upgrade = False\<rparr>"

definition http_message_needs_eof :: "http_parser \<Rightarrow> bool" where
  "http_message_needs_eof q =
     (if ps_type q = HTTP_REQUEST then False
      else if ps_status_code q div 100 = 1 \<or> ps_status_code q = 204 \<or> ps_status_code q = 304 \<or> f_skipbody q then False
      else if f_chunked q \<or> ps_content_length q \<noteq> ULLONG_MAX then False
      else True)"

definition http_should_keep_alive :: "http_parser \<Rightarrow> bool" where
  "http_should_keep_alive q =
     (if ps_http_major q > 0 \<and> ps_http_minor q > 0
      then (if f_close q then False else \<not> http_message_needs_eof q)
      else (if \<not> f_keep_alive q then False else \<not> http_message_needs_eof q))"

definition start_state :: "http_parser \<Rightarrow> state" where
  "start_state q = (if ps_type q = HTTP_REQUEST then s_start_req else s_start_res)"

definition NEW_MESSAGE :: "http_parser \<Rightarrow> state" where
  "NEW_MESSAGE q = (if http_should_keep_alive q then start_state q else s_dead)"

section \<open>Callbacks and marks\<close>

datatype mark = M_header_field | M_header_value | M_url | M_body | M_status

datatype notification = N_message_begin | N_headers_complete | N_message_complete

record 'u settings =
  on_data :: "mark \<Rightarrow> http_parser \<Rightarrow> string \<Rightarrow> 'u \<Rightarrow> 'u \<times> int"
  on_notify :: "notification \<Rightarrow> http_parser \<Rightarrow> 'u \<Rightarrow> 'u \<times> int"

primrec data_error :: "mark \<Rightarrow> http_errno" where
  "data_error M_header_field = HPE_CB_header_field"
| "data_error M_header_value = HPE_CB_header_value"
| "data_error M_url = HPE_CB_url"
| "data_error M_body = HPE_CB_body"
| "data_error M_status = HPE_CB_status"

primrec notify_error :: "notification \<Rightarrow> http_errno" where
  "notify_error N_message_begin = HPE_CB_message_begin"
| "notify_error N_headers_complete = HPE_CB_headers_complete"
| "notify_error N_message_complete = HPE_CB_message_complete"

record 'u cfg =
  cx_parser :: http_parser
  cx_user :: 'u
  cx_marks :: "mark \<Rightarrow> string option"
  cx_rest :: string
  cx_n :: nat

datatype 'u outcome =
    Break "'u cfg"
  | Reexec "'u cfg"
  | Error http_errno "'u cfg"
  | Return nat "'u cfg"
  | Abort

definition upd :: "(http_parser \<Rightarrow> http_parser) \<Rightarrow> 'u cfg \<Rightarrow> 'u cfg" where
  "upd f c = c\<lparr>cx_parser := f (cx_parser c)\<rparr>"

definition goto :: "state \<Rightarrow> 'u cfg \<Rightarrow> 'u cfg" where
  "goto s c = upd (\<lambda>q. q\<lparr>ps_state := s\<rparr>) c"

definition set_errno :: "http_errno \<Rightarrow> 'u cfg \<Rightarrow> 'u cfg" where
  "set_errno e c = upd (\<lambda>q. q\<lparr>ps_errno := e\<rparr>) c"

text \<open>\<open>p += k\<close>.\<close>

definition advance :: "nat \<Rightarrow> 'u cfg \<Rightarrow> 'u cfg" where
  "advance k c = c\<lparr>cx_rest := drop k (cx_rest c), cx_n := cx_n c + k,
     cx_marks := (\<lambda>m. map_option (\<lambda>s. s @ take k (cx_rest c)) (cx_marks c m))\<rparr>"

definition set_mark :: "mark \<Rightarrow> 'u cfg \<Rightarrow> 'u cfg" where
  "set_mark m c = (if cx_marks c m = None then c\<lparr>cx_marks := (cx_marks c)(m := Some [])\<rparr> else c)"

text \<open>\<open>CALLBACK_NOTIFY_\<close> and \<open>CALLBACK_DATA_\<close> with the value to return on failure; \<open>extra\<close> are bytes from \<open>p\<close> on
  that belong to the text as well.\<close>

definition notify :: "'u settings \<Rightarrow> notification \<Rightarrow> nat \<Rightarrow> 'u cfg \<Rightarrow> ('u cfg \<Rightarrow> 'u outcome) \<Rightarrow> 'u outcome" where
  "notify S n er c k =
     (if ps_errno (cx_parser c) \<noteq> HPE_OK then Abort
      else
        (case on_notify S n (cx_parser c) (cx_user c) of
           (u, r) \<Rightarrow>
             let c1 = c\<lparr>cx_user := u\<rparr> in
             if r \<noteq> 0 then Return er (set_errno (notify_error n) c1) else k c1))"

definition callback_data :: "'u settings \<Rightarrow> mark \<Rightarrow> string \<Rightarrow> nat \<Rightarrow> 'u cfg \<Rightarrow> ('u cfg \<Rightarrow> 'u outcome) \<Rightarrow> 'u outcome" where
  "callback_data S m extra er c k =
     (if ps_errno (cx_parser c) \<noteq> HPE_OK then Abort
      else
        (case cx_marks c m of
           None \<Rightarrow> k c
         | Some s \<Rightarrow>
             (case on_data S m (cx_parser c) (s @ extra) (cx_user c) of
                (u, r) \<Rightarrow>
                  let c1 = c\<lparr>cx_user := u\<rparr> in
                  if r \<noteq> 0 then Return er (set_errno (data_error m) c1)
                  else k (c1\<lparr>cx_marks := (cx_marks c1)(m := None)\<rparr>))))"

definition digit :: "char \<Rightarrow> nat" where "digit ch = code ch - 48"

definition strict_char :: "char \<Rightarrow> state \<Rightarrow> char \<Rightarrow> 'u cfg \<Rightarrow> 'u outcome" where
  "strict_char expected next_s ch c = (if ch \<noteq> expected then Error HPE_STRICT c else Break (goto next_s c))"

definition new_headers :: "'u cfg \<Rightarrow> 'u cfg" where
  "new_headers c = upd (\<lambda>q. q\<lparr>f_chunked := False, f_keep_alive := False, f_close := False, f_trailing := False,
     f_upgrade := False, f_skipbody := False, ps_content_length := ULLONG_MAX\<rparr>) c"

section \<open>Start of a message\<close>

definition exec_dead :: "char \<Rightarrow> 'u cfg \<Rightarrow> 'u outcome" where
  "exec_dead ch c = (if ch = CR \<or> ch = LF then Break c else Error HPE_CLOSED_CONNECTION c)"

definition exec_start_req_or_res :: "'u settings \<Rightarrow> char \<Rightarrow> 'u cfg \<Rightarrow> 'u outcome" where
  "exec_start_req_or_res S ch c =
     (if ch = CR \<or> ch = LF then Break c
      else
        (let c1 = new_headers c in
         if ch = CHR ''H'' then notify S N_message_begin (cx_n c + 1) (goto s_res_or_resp_H c1) Break
         else Reexec (goto s_start_req (upd (\<lambda>q. q\<lparr>ps_type := HTTP_REQUEST\<rparr>) c1))))"

definition exec_res_or_resp_H :: "char \<Rightarrow> 'u cfg \<Rightarrow> 'u outcome" where
  "exec_res_or_resp_H ch c =
     (if ch = CHR ''T'' then Break (goto s_res_HT (upd (\<lambda>q. q\<lparr>ps_type := HTTP_RESPONSE\<rparr>) c))
      else if ch \<noteq> CHR ''E'' then Error HPE_INVALID_CONSTANT c
      else Break (goto s_req_method (upd (\<lambda>q. q\<lparr>ps_type := HTTP_REQUEST, ps_method := HTTP_HEAD, ps_index := 2\<rparr>) c)))"

definition exec_start_res :: "'u settings \<Rightarrow> char \<Rightarrow> 'u cfg \<Rightarrow> 'u outcome" where
  "exec_start_res S ch c =
     (let c1 = new_headers c in
      if ch = CHR ''H'' then notify S N_message_begin (cx_n c + 1) (goto s_res_H c1) Break
      else if ch = CR \<or> ch = LF then notify S N_message_begin (cx_n c + 1) c1 Break
      else Error HPE_INVALID_CONSTANT c1)"

definition start_method :: "char \<Rightarrow> nat option" where
  "start_method ch =
     map_of [(CHR ''C'', HTTP_CONNECT), (CHR ''D'', HTTP_DELETE), (CHR ''G'', HTTP_GET), (CHR ''H'', HTTP_HEAD),
       (CHR ''L'', HTTP_LOCK), (CHR ''M'', HTTP_MKCOL), (CHR ''N'', HTTP_NOTIFY), (CHR ''O'', HTTP_OPTIONS),
       (CHR ''P'', HTTP_POST), (CHR ''R'', HTTP_REPORT), (CHR ''S'', HTTP_SUBSCRIBE), (CHR ''T'', HTTP_TRACE),
       (CHR ''U'', HTTP_UNLOCK)] ch"

definition exec_start_req :: "'u settings \<Rightarrow> char \<Rightarrow> 'u cfg \<Rightarrow> 'u outcome" where
  "exec_start_req S ch c =
     (if ch = CR \<or> ch = LF then Break c
      else
        (let c1 = new_headers c in
         if \<not> IS_ALPHA ch then Error HPE_INVALID_METHOD c1
         else
           (let c2 = upd (\<lambda>q. q\<lparr>ps_method := 0, ps_index := 1\<rparr>) c1 in
            case start_method ch of
              None \<Rightarrow> Error HPE_INVALID_METHOD c2
            | Some m \<Rightarrow>
                notify S N_message_begin (cx_n c + 1) (goto s_req_method (upd (\<lambda>q. q\<lparr>ps_method := m\<rparr>) c2)) Break)))"

section \<open>Version numbers and the status line\<close>

definition exec_first_major :: "nat \<Rightarrow> state \<Rightarrow> char \<Rightarrow> 'u cfg \<Rightarrow> 'u outcome" where
  "exec_first_major least next_s ch c =
     (if \<not> IS_NUM ch \<or> digit ch < least then Error HPE_INVALID_VERSION c
      else Break (goto next_s (upd (\<lambda>q. q\<lparr>ps_http_major := digit ch\<rparr>) c)))"

definition exec_major :: "state \<Rightarrow> char \<Rightarrow> 'u cfg \<Rightarrow> 'u outcome" where
  "exec_major next_s ch c =
     (if ch = CHR ''.'' then Break (goto next_s c)
      else if \<not> IS_NUM ch then Error HPE_INVALID_VERSION c
      else
        (let v = (ps_http_major (cx_parser c) * 10 + digit ch) mod 2 ^ 16;
             c1 = upd (\<lambda>q. q\<lparr>ps_http_major := v\<rparr>) c
         in if v > 999 then Error HPE_INVALID_VERSION c1 else Break c1))"

definition exec_first_minor :: "state \<Rightarrow> char \<Rightarrow> 'u cfg \<Rightarrow> 'u outcome" where
  "exec_first_minor next_s ch c =
     (if \<not> IS_NUM ch then Error HPE_INVALID_VERSION c
      else Break (goto next_s (upd (\<lambda>q. q\<lparr>ps_http_minor := digit ch\<rparr>) c)))"

definition add_minor :: "char \<Rightarrow> 'u cfg \<Rightarrow> 'u outcome" where
  "add_minor ch c =
     (if \<not> IS_NUM ch then Error HPE_INVALID_VERSION c
      else
        (let v = (ps_http_minor (cx_parser c) * 10 + digit ch) mod 2 ^ 16;
             c1 = upd (\<lambda>q. q\<lparr>ps_http_minor := v\<rparr>) c
         in if v > 999 then Error HPE_INVALID_VERSION c1 else Break c1))"

definition exec_res_http_minor :: "char \<Rightarrow> 'u cfg \<Rightarrow> 'u outcome" where
  "exec_res_http_minor ch c = (if ch = SP then Break (goto s_res_first_status_code c) else add_minor ch c)"

definition exec_res_first_status_code :: "char \<Rightarrow> 'u cfg \<Rightarrow> 'u outcome" where
  "exec_res_first_status_code ch c =
     (if \<not> IS_NUM ch then (if ch = SP then Break c else Error HPE_INVALID_STATUS c)
      else Break (goto s_res_status_code (upd (\<lambda>q. q\<lparr>ps_status_code := digit ch\<rparr>) c)))"

definition exec_res_status_code :: "char \<Rightarrow> 'u cfg \<Rightarrow> 'u outcome" where
  "exec_res_status_code ch c =
     (if \<not> IS_NUM ch
      then
        (if ch = SP then Break (goto s_res_status_start c)
         else if ch = CR then Break (goto s_res_line_almost_done c)
         else if ch = LF then Break (goto s_header_field_start c)
         else Error HPE_INVALID_STATUS c)
      else
        (let v = (ps_status_code (cx_parser c) * 10 + digit ch) mod 2 ^ 16;
             c1 = upd (\<lambda>q. q\<lparr>ps_status_code := v\<rparr>) c
         in if v > 999 then Error HPE_INVALID_STATUS c1 else Break c1))"

definition exec_res_status_start :: "char \<Rightarrow> 'u cfg \<Rightarrow> 'u outcome" where
  "exec_res_status_start ch c =
     (if ch = CR then Break (goto s_res_line_almost_done c)
      else if ch = LF then Break (goto s_header_field_start c)
      else Break (goto s_res_status (upd (\<lambda>q. q\<lparr>ps_index := 0\<rparr>) (set_mark M_status c))))"

definition exec_res_status :: "'u settings \<Rightarrow> char \<Rightarrow> 'u cfg \<Rightarrow> 'u outcome" where
  "exec_res_status S ch c =
     (if ch = CR then callback_data S M_status [] (cx_n c + 1) (goto s_res_line_almost_done c) Break
      else if ch = LF then callback_data S M_status [] (cx_n c + 1) (goto s_header_field_start c) Break
      else Break c)"

section \<open>The request line\<close>

text \<open>A character of a C string; \<open>None\<close> is a read behind its NUL.\<close>

definition char_at :: "string \<Rightarrow> nat \<Rightarrow> char option" where
  "char_at s i = (if i < length s then Some (s ! i) else if i = length s then Some NUL else None)"

text \<open>The method to go on with when the byte is not the next one of the current method.\<close>

definition other_method :: "nat \<Rightarrow> nat \<Rightarrow> char \<Rightarrow> nat option" where
  "other_method m i ch =
     (if m = HTTP_CONNECT then
        (if i = 1 \<and> ch = CHR ''H'' then Some HTTP_CHECKOUT
         else if i = 2 \<and> ch = CHR ''P'' then Some HTTP_COPY else None)
      else if m = HTTP_MKCOL then
        (if i = 1 \<and> ch = CHR ''O'' then Some HTTP_MOVE
         else if i = 1 \<and> ch = CHR ''E'' then Some HTTP_MERGE
         else if i = 1 \<and> ch = CHR ''-'' then Some HTTP_MSEARCH
         else if i = 2 \<and> ch = CHR ''A'' then Some HTTP_MKACTIVITY
         else if i = 3 \<and> ch = CHR ''A'' then Some HTTP_MKCALENDAR else None)
      else if m = HTTP_SUBSCRIBE then
        (if i = 1 \<and> ch = CHR ''E'' then Some HTTP_SEARCH else None)
      else if i = 1 \<and> m = HTTP_POST then
        (if ch = CHR ''R'' then Some HTTP_PROPFIND
         else if ch = CHR ''U'' then Some HTTP_PUT
         else if ch = CHR ''A'' then Some HTTP_PATCH else None)
      else if i = 2 then
        (if m = HTTP_PUT then (if ch = CHR ''R'' then Some HTTP_PURGE else None)
         else if m = HTTP_UNLOCK then (if ch = CHR ''S'' then Some HTTP_UNSUBSCRIBE else None)
         else None)
      else if i = 4 \<and> m = HTTP_PROPFIND \<and> ch = CHR ''P'' then Some HTTP_PROPPATCH
      else None)"

definition exec_req_method :: "char \<Rightarrow> 'u cfg \<Rightarrow> 'u outcome" where
  "exec_req_method ch c =
     (let q = cx_parser c; i = ps_index q;
          next_c = (\<lambda>f. Break (upd (\<lambda>q. (f q)\<lparr>ps_index := (ps_index q + 1) mod 2 ^ 8\<rparr>) c))
      in if ch = NUL then Error HPE_INVALID_METHOD c
         else if ps_method q \<ge> length method_strings then Abort
         else
           (case char_at (method_strings ! ps_method q) i of
              None \<Rightarrow> Abort
            | Some e \<Rightarrow>
                if ch = SP \<and> e = NUL then next_c (\<lambda>q. q\<lparr>ps_state := s_req_spaces_before_url\<rparr>)
                else if ch = e then next_c (\<lambda>q. q)
                else
                  (case other_method (ps_method q) i ch of
                     None \<Rightarrow> Error HPE_INVALID_METHOD c
                   | Some m \<Rightarrow> next_c (\<lambda>q. q\<lparr>ps_method := m\<rparr>))))"

definition url_char :: "state \<Rightarrow> char \<Rightarrow> 'u cfg \<Rightarrow> 'u outcome" where
  "url_char s ch c =
     (let s' = parse_url_char s ch; c1 = goto s' c in
      if s' = s_dead then Error HPE_INVALID_URL c1 else Break c1)"

definition exec_req_spaces_before_url :: "char \<Rightarrow> 'u cfg \<Rightarrow> 'u outcome" where
  "exec_req_spaces_before_url ch c =
     (if ch = SP then Break c
      else url_char (if ps_method (cx_parser c) = HTTP_CONNECT then s_req_server_start else s_req_spaces_before_url)
        ch (set_mark M_url c))"

definition exec_req_schema :: "char \<Rightarrow> 'u cfg \<Rightarrow> 'u outcome" where
  "exec_req_schema ch c =
     (if ch = SP \<or> ch = CR \<or> ch = LF then Error HPE_INVALID_URL c else url_char (ps_state (cx_parser c)) ch c)"

definition exec_req_url :: "'u settings \<Rightarrow> char \<Rightarrow> 'u cfg \<Rightarrow> 'u outcome" where
  "exec_req_url S ch c =
     (if ch = SP then callback_data S M_url [] (cx_n c + 1) (goto s_req_http_start c) Break
      else if ch = CR \<or> ch = LF
      then callback_data S M_url [] (cx_n c + 1)
             (goto (if ch = CR then s_req_line_almost_done else s_header_field_start)
               (upd (\<lambda>q. q\<lparr>ps_http_major := 0, ps_http_minor := 9\<rparr>) c)) Break
      else url_char (ps_state (cx_parser c)) ch c)"

definition exec_req_http_start :: "char \<Rightarrow> 'u cfg \<Rightarrow> 'u outcome" where
  "exec_req_http_start ch c =
     (if ch = CHR ''H'' then Break (goto s_req_http_H c) else if ch = SP then Break c else Error HPE_INVALID_CONSTANT c)"

definition exec_req_http_minor :: "char \<Rightarrow> 'u cfg \<Rightarrow> 'u outcome" where
  "exec_req_http_minor ch c =
     (if ch = CR then Break (goto s_req_line_almost_done c)
      else if ch = LF then Break (goto s_header_field_start c)
      else add_minor ch c)"

definition exec_req_line_almost_done :: "char \<Rightarrow> 'u cfg \<Rightarrow> 'u outcome" where
  "exec_req_line_almost_done ch c = (if ch \<noteq> LF then Error HPE_LF_EXPECTED c else Break (goto s_header_field_start c))"

section \<open>Header fields\<close>

definition first_header_state :: "char \<Rightarrow> header_states" where
  "first_header_state t =
     (if t = CHR ''c'' then h_C
      else if t = CHR ''p'' then h_matching_proxy_connection
      else if t = CHR ''t'' then h_matching_transfer_encoding
      else if t = CHR ''u'' then h_matching_upgrade
      else h_general)"

definition exec_header_field_start :: "char \<Rightarrow> 'u cfg \<Rightarrow> 'u outcome" where
  "exec_header_field_start ch c =
     (if ch = CR then Break (goto s_headers_almost_done c)
      else if ch = LF then Reexec (goto s_headers_almost_done c)
      else if TOKEN ch = NUL then Error HPE_INVALID_HEADER_TOKEN c
      else Break (upd (\<lambda>q. q\<lparr>ps_index := 0, ps_state := s_header_field, ps_header_state := first_header_state (TOKEN ch)\<rparr>)
             (set_mark M_header_field c)))"

text \<open>\<open>index++\<close> and the comparison with the next character of a name.\<close>

definition match_char :: "string \<Rightarrow> header_states \<Rightarrow> char \<Rightarrow> http_parser \<Rightarrow> http_parser" where
  "match_char lit full t q =
     (let i = (ps_index q + 1) mod 2 ^ 8; q1 = q\<lparr>ps_index := i\<rparr> in
      if i > length lit \<or> char_at lit i \<noteq> Some t then q1\<lparr>ps_header_state := h_general\<rparr>
      else if i = length lit - 1 then q1\<lparr>ps_header_state := full\<rparr>
      else q1)"

definition step_char :: "(char \<Rightarrow> header_states) \<Rightarrow> char \<Rightarrow> http_parser \<Rightarrow> http_parser" where
  "step_char f t q = q\<lparr>ps_index := (ps_index q + 1) mod 2 ^ 8, ps_header_state := f t\<rparr>"

definition header_field_token :: "char \<Rightarrow> char \<Rightarrow> http_parser \<Rightarrow> http_parser option" where
  "header_field_token ch t q =
     (case ps_header_state q of
        h_general \<Rightarrow> Some q
      | h_C \<Rightarrow> Some (step_char (\<lambda>t. if t = CHR ''o'' then h_CO else h_general) t q)
      | h_CO \<Rightarrow> Some (step_char (\<lambda>t. if t = CHR ''n'' then h_CON else h_general) t q)
      | h_CON \<Rightarrow> Some (step_char (\<lambda>t. if t = CHR ''n'' then h_matching_connection
                                 else if t = CHR ''t'' then h_matching_content_length else h_general) t q)
      | h_matching_connection \<Rightarrow> Some (match_char ''connection'' h_connection t q)
      | h_matching_proxy_connection \<Rightarrow> Some (match_char ''proxy-connection'' h_connection t q)
      | h_matching_content_length \<Rightarrow> Some (match_char ''content-length'' h_content_length t q)
      | h_matching_transfer_encoding \<Rightarrow> Some (match_char ''transfer-encoding'' h_transfer_encoding t q)
      | h_matching_upgrade \<Rightarrow> Some (match_char ''upgrade'' h_upgrade t q)
      | h_connection \<Rightarrow> Some (if ch \<noteq> SP then q\<lparr>ps_header_state := h_general\<rparr> else q)
      | h_content_length \<Rightarrow> Some (if ch \<noteq> SP then q\<lparr>ps_header_state := h_general\<rparr> else q)
      | h_transfer_encoding \<Rightarrow> Some (if ch \<noteq> SP then q\<lparr>ps_header_state := h_general\<rparr> else q)
      | h_upgrade \<Rightarrow> Some (if ch \<noteq> SP then q\<lparr>ps_header_state := h_general\<rparr> else q)
      | _ \<Rightarrow> None)"

definition exec_header_field :: "'u settings \<Rightarrow> char \<Rightarrow> 'u cfg \<Rightarrow> 'u outcome" where
  "exec_header_field S ch c =
     (if TOKEN ch \<noteq> NUL
      then (case header_field_token ch (TOKEN ch) (cx_parser c) of None \<Rightarrow> Abort | Some q \<Rightarrow> Break (upd (\<lambda>_. q) c))
      else if ch = CHR '':'' then callback_data S M_header_field [] (cx_n c + 1) (goto s_header_value_discard_ws c) Break
      else if ch = CR then callback_data S M_header_field [] (cx_n c + 1) (goto s_header_almost_done c) Break
      else if ch = LF then callback_data S M_header_field [] (cx_n c + 1) (goto s_header_field_start c) Break
      else Error HPE_INVALID_HEADER_TOKEN c)"

section \<open>Header values\<close>

definition exec_header_value_start :: "char \<Rightarrow> 'u cfg \<Rightarrow> 'u outcome" where
  "exec_header_value_start ch c =
     (let c1 = upd (\<lambda>q. q\<lparr>ps_state := s_header_value, ps_index := 0\<rparr>) (set_mark M_header_value c);
          t = LOWER ch;
          hs = (\<lambda>h. upd (\<lambda>q. q\<lparr>ps_header_state := h\<rparr>) c1)
      in case ps_header_state (cx_parser c) of
           h_upgrade \<Rightarrow> Break (upd (\<lambda>q. q\<lparr>f_upgrade := True, ps_header_state := h_general\<rparr>) c1)
         | h_transfer_encoding \<Rightarrow>
             Break (hs (if t = CHR ''c'' then h_matching_transfer_encoding_chunked else h_general))
         | h_content_length \<Rightarrow>
             if \<not> IS_NUM ch then Error HPE_INVALID_CONTENT_LENGTH c1
             else Break (upd (\<lambda>q. q\<lparr>ps_content_length := digit ch\<rparr>) c1)
         | h_connection \<Rightarrow>
             Break (hs (if t = CHR ''k'' then h_matching_connection_keep_alive
                        else if t = CHR ''c'' then h_matching_connection_close else h_general))
         | _ \<Rightarrow> Break (hs h_general))"

definition exec_header_value_discard_ws :: "char \<Rightarrow> 'u cfg \<Rightarrow> 'u outcome" where
  "exec_header_value_discard_ws ch c =
     (if ch = SP \<or> ch = TAB then Break c
      else if ch = CR then Break (goto s_header_value_discard_ws_almost_done c)
      else if ch = LF then Break (goto s_header_value_discard_lws c)
      else exec_header_value_start ch c)"

text \<open>The digits of \<open>Content-Length\<close>; the test against overflow uses the value before the digit.\<close>

definition content_length_digit :: "char \<Rightarrow> 'u cfg \<Rightarrow> 'u outcome" where
  "content_length_digit ch c =
     (let cl = ps_content_length (cx_parser c); t = (cl * 10 + digit ch) mod 2 ^ 64 in
      if ch = SP then Break c
      else if \<not> IS_NUM ch then Error HPE_INVALID_CONTENT_LENGTH c
      else if (ULLONG_MAX - 10) div 10 < cl then Error HPE_INVALID_CONTENT_LENGTH c
      else Break (upd (\<lambda>q. q\<lparr>ps_content_length := t\<rparr>) c))"

definition exec_header_value :: "'u settings \<Rightarrow> char \<Rightarrow> 'u cfg \<Rightarrow> 'u outcome" where
  "exec_header_value S ch c =
     (if ch = CR then callback_data S M_header_value [] (cx_n c + 1) (goto s_header_almost_done c) Break
      else if ch = LF then callback_data S M_header_value [] (cx_n c) (goto s_header_almost_done c) Reexec
      else
        (let t = LOWER ch;
             after = Break (if ch \<noteq> SP then upd (\<lambda>q. q\<lparr>ps_header_state := h_general\<rparr>) c else c)
         in case ps_header_state (cx_parser c) of
              h_general \<Rightarrow> Break c
            | h_connection \<Rightarrow> Abort
            | h_transfer_encoding \<Rightarrow> Abort
            | h_content_length \<Rightarrow> content_length_digit ch c
            | h_matching_transfer_encoding_chunked \<Rightarrow> Break (upd (match_char ''chunked'' h_transfer_encoding_chunked t) c)
            | h_matching_connection_keep_alive \<Rightarrow> Break (upd (match_char ''keep-alive'' h_connection_keep_alive t) c)
            | h_matching_connection_close \<Rightarrow> Break (upd (match_char ''close'' h_connection_close t) c)
            | h_transfer_encoding_chunked \<Rightarrow> after
            | h_connection_keep_alive \<Rightarrow> after
            | h_connection_close \<Rightarrow> after
            | _ \<Rightarrow> Break (upd (\<lambda>q. q\<lparr>ps_state := s_header_value, ps_header_state := h_general\<rparr>) c)))"

definition finish_header :: "http_parser \<Rightarrow> http_parser" where
  "finish_header q =
     (case ps_header_state q of
        h_connection_keep_alive \<Rightarrow> q\<lparr>f_keep_alive := True\<rparr>
      | h_connection_close \<Rightarrow> q\<lparr>f_close := True\<rparr>
      | h_transfer_encoding_chunked \<Rightarrow> q\<lparr>f_chunked := True\<rparr>
      | _ \<Rightarrow> q)"

definition exec_header_value_lws :: "char \<Rightarrow> 'u cfg \<Rightarrow> 'u outcome" where
  "exec_header_value_lws ch c =
     (if ch = SP \<or> ch = TAB then Reexec (goto s_header_value_start c)
      else Reexec (goto s_header_field_start (upd finish_header c)))"

definition exec_header_value_discard_lws :: "'u settings \<Rightarrow> char \<Rightarrow> 'u cfg \<Rightarrow> 'u outcome" where
  "exec_header_value_discard_lws S ch c =
     (if ch = SP \<or> ch = TAB then Break (goto s_header_value_discard_ws c)
      else callback_data S M_header_value [] (cx_n c) (goto s_header_field_start (set_mark M_header_value c)) Reexec)"

section \<open>End of the headers\<close>

definition message_complete :: "'u settings \<Rightarrow> nat \<Rightarrow> 'u cfg \<Rightarrow> ('u cfg \<Rightarrow> 'u outcome) \<Rightarrow> 'u outcome" where
  "message_complete S er c k = notify S N_message_complete er (goto (NEW_MESSAGE (cx_parser c)) c) k"

definition exec_headers_almost_done :: "'u settings \<Rightarrow> char \<Rightarrow> 'u cfg \<Rightarrow> 'u outcome" where
  "exec_headers_almost_done S ch c =
     (if ch \<noteq> LF then Error HPE_STRICT c
      else if f_trailing (cx_parser c) then message_complete S (cx_n c + 1) c Break
      else
        (let c1 = upd (\<lambda>q. q\<lparr>ps_state := s_headers_done, ps_upgrade := (f_upgrade q \<or> ps_method q = HTTP_CONNECT)\<rparr>) c in
         case on_notify S N_headers_complete (cx_parser c1) (cx_user c1) of
           (u, r) \<Rightarrow>
             let c2 = c1\<lparr>cx_user := u\<rparr> in
             if r = 0 then (if ps_errno (cx_parser c2) \<noteq> HPE_OK then Return (cx_n c) c2 else Reexec c2)
             else if r = 1
             then (let c3 = upd (\<lambda>q. q\<lparr>f_skipbody := True\<rparr>) c2 in
                   if ps_errno (cx_parser c3) \<noteq> HPE_OK then Return (cx_n c) c3 else Reexec c3)
             else Return (cx_n c) (set_errno HPE_CB_headers_complete c2)))"

definition exec_headers_done :: "'u settings \<Rightarrow> char \<Rightarrow> 'u cfg \<Rightarrow> 'u outcome" where
  "exec_headers_done S ch c =
     (if ch \<noteq> LF then Error HPE_STRICT c
      else
        (let c1 = upd (\<lambda>q. q\<lparr>ps_nread := 0\<rparr>) c; q = cx_parser c1 in
         if ps_upgrade q then message_complete S (cx_n c + 1) c1 (Return (cx_n c + 1))
         else if f_skipbody q then message_complete S (cx_n c + 1) c1 Break
         else if f_chunked q then Break (goto s_chunk_size_start c1)
         else if ps_content_length q = 0 then message_complete S (cx_n c + 1) c1 Break
         else if ps_content_length q \<noteq> ULLONG_MAX then Break (goto s_body_identity c1)
         else if ps_type q = HTTP_REQUEST \<or> \<not> http_message_needs_eof q then message_complete S (cx_n c + 1) c1 Break
         else Break (goto s_body_identity_eof c1)))"

section \<open>Bodies\<close>

text \<open>\<open>content_length -= to_read; p += to_read - 1\<close>.\<close>

definition take_body :: "'u cfg \<Rightarrow> 'u cfg" where
  "take_body c =
     (let to_read = min (ps_content_length (cx_parser c)) (length (cx_rest c)) in
      advance (to_read - 1) (upd (\<lambda>q. q\<lparr>ps_content_length := ps_content_length q - to_read\<rparr>) (set_mark M_body c)))"

definition exec_body_identity :: "'u settings \<Rightarrow> 'u cfg \<Rightarrow> 'u outcome" where
  "exec_body_identity S c =
     (if ps_content_length (cx_parser c) = 0 \<or> ps_content_length (cx_parser c) = ULLONG_MAX then Abort
      else
        (let c1 = take_body c in
         if ps_content_length (cx_parser c1) = 0
         then callback_data S M_body (take 1 (cx_rest c1)) (cx_n c1) (goto s_message_done c1) Reexec
         else Break c1))"

definition exec_body_identity_eof :: "'u cfg \<Rightarrow> 'u outcome" where
  "exec_body_identity_eof c = Break (advance (length (cx_rest c) - 1) (set_mark M_body c))"

definition exec_message_done :: "'u settings \<Rightarrow> 'u cfg \<Rightarrow> 'u outcome" where
  "exec_message_done S c = message_complete S (cx_n c + 1) c Break"

definition exec_chunk_size_start :: "char \<Rightarrow> 'u cfg \<Rightarrow> 'u outcome" where
  "exec_chunk_size_start ch c =
     (if ps_nread (cx_parser c) \<noteq> 1 \<or> \<not> f_chunked (cx_parser c) then Abort
      else if unhex ch = -1 then Error HPE_INVALID_CHUNK_SIZE c
      else Break (goto s_chunk_size (upd (\<lambda>q. q\<lparr>ps_content_length := nat (unhex ch)\<rparr>) c)))"

definition exec_chunk_size :: "char \<Rightarrow> 'u cfg \<Rightarrow> 'u outcome" where
  "exec_chunk_size ch c =
     (let cl = ps_content_length (cx_parser c) in
      if \<not> f_chunked (cx_parser c) then Abort
      else if ch = CR then Break (goto s_chunk_size_almost_done c)
      else if unhex ch = -1
      then (if ch = CHR '';'' \<or> ch = SP then Break (goto s_chunk_parameters c) else Error HPE_INVALID_CHUNK_SIZE c)
      else if (ULLONG_MAX - 16) div 16 < cl then Error HPE_INVALID_CONTENT_LENGTH c
      else Break (upd (\<lambda>q. q\<lparr>ps_content_length := (cl * 16 + nat (unhex ch)) mod 2 ^ 64\<rparr>) c))"

definition exec_chunk_parameters :: "char \<Rightarrow> 'u cfg \<Rightarrow> 'u outcome" where
  "exec_chunk_parameters ch c =
     (if \<not> f_chunked (cx_parser c) then Abort
      else if ch = CR then Break (goto s_chunk_size_almost_done c) else Break c)"

definition exec_chunk_size_almost_done :: "char \<Rightarrow> 'u cfg \<Rightarrow> 'u outcome" where
  "exec_chunk_size_almost_done ch c =
     (if \<not> f_chunked (cx_parser c) then Abort
      else if ch \<noteq> LF then Error HPE_STRICT c
      else
        (let c1 = upd (\<lambda>q. q\<lparr>ps_nread := 0\<rparr>) c in
         if ps_content_length (cx_parser c1) = 0
         then Break (goto s_header_field_start (upd (\<lambda>q. q\<lparr>f_trailing := True\<rparr>) c1))
         else Break (goto s_chunk_data c1)))"

definition exec_chunk_data :: "'u cfg \<Rightarrow> 'u outcome" where
  "exec_chunk_data c =
     (let q = cx_parser c in
      if \<not> f_chunked q \<or> ps_content_length q = 0 \<or> ps_content_length q = ULLONG_MAX then Abort
      else
        (let c1 = take_body c in
         if ps_content_length (cx_parser c1) = 0 then Break (goto s_chunk_data_almost_done c1) else Break c1))"

definition exec_chunk_data_almost_done :: "'u settings \<Rightarrow> char \<Rightarrow> 'u cfg \<Rightarrow> 'u outcome" where
  "exec_chunk_data_almost_done S ch c =
     (if \<not> f_chunked (cx_parser c) \<or> ps_content_length (cx_parser c) \<noteq> 0 then Abort
      else if ch \<noteq> CR then Error HPE_STRICT c
      else callback_data S M_body [] (cx_n c + 1) (goto s_chunk_data_done c) Break)"

definition exec_chunk_data_done :: "char \<Rightarrow> 'u cfg \<Rightarrow> 'u outcome" where
  "exec_chunk_data_done ch c =
     (if \<not> f_chunked (cx_parser c) then Abort
      else if ch \<noteq> LF then Error HPE_STRICT c
      else Break (goto s_chunk_size_start (upd (\<lambda>q. q\<lparr>ps_nread := 0\<rparr>) c)))"

section \<open>The switch\<close>

definition exec_switch :: "'u settings \<Rightarrow> char \<Rightarrow> 'u cfg \<Rightarrow> 'u outcome" where
  "exec_switch S ch c =
     (case ps_state (cx_parser c) of
        s_dead \<Rightarrow> exec_dead ch c
      | s_start_req_or_res \<Rightarrow> exec_start_req_or_res S ch c
      | s_res_or_resp_H \<Rightarrow> exec_res_or_resp_H ch c
      | s_start_res \<Rightarrow> exec_start_res S ch c
      | s_res_H \<Rightarrow> strict_char (CHR ''T'') s_res_HT ch c
      | s_res_HT \<Rightarrow> strict_char (CHR ''T'') s_res_HTT ch c
      | s_res_HTT \<Rightarrow> strict_char (CHR ''P'') s_res_HTTP ch c
      | s_res_HTTP \<Rightarrow> strict_char (CHR ''/'') s_res_first_http_major ch c
      | s_res_first_http_major \<Rightarrow> exec_first_major 0 s_res_http_major ch c
      | s_res_http_major \<Rightarrow> exec_major s_res_first_http_minor ch c
      | s_res_first_http_minor \<Rightarrow> exec_first_minor s_res_http_minor ch c
      | s_res_http_minor \<Rightarrow> exec_res_http_minor ch c
      | s_res_first_status_code \<Rightarrow> exec_res_first_status_code ch c
      | s_res_status_code \<Rightarrow> exec_res_status_code ch c
      | s_res_status_start \<Rightarrow> exec_res_status_start ch c
      | s_res_status \<Rightarrow> exec_res_status S ch c
      | s_res_line_almost_done \<Rightarrow> strict_char LF s_header_field_start ch c
      | s_start_req \<Rightarrow> exec_start_req S ch c
      | s_req_method \<Rightarrow> exec_req_method ch c
      | s_req_spaces_before_url \<Rightarrow> exec_req_spaces_before_url ch c
      | s_req_schema \<Rightarrow> exec_req_schema ch c
      | s_req_schema_slash \<Rightarrow> exec_req_schema ch c
      | s_req_schema_slash_slash \<Rightarrow> exec_req_schema ch c
      | s_req_server_start \<Rightarrow> exec_req_schema ch c
      | s_req_server \<Rightarrow> exec_req_url S ch c
      | s_req_server_with_at \<Rightarrow> exec_req_url S ch c
      | s_req_path \<Rightarrow> exec_req_url S ch c
      | s_req_query_string_start \<Rightarrow> exec_req_url S ch c
      | s_req_query_string \<Rightarrow> exec_req_url S ch c
      | s_req_fragment_start \<Rightarrow> exec_req_url S ch c
      | s_req_fragment \<Rightarrow> exec_req_url S ch c
      | s_req_http_start \<Rightarrow> exec_req_http_start ch c
      | s_req_http_H \<Rightarrow> strict_char (CHR ''T'') s_req_http_HT ch c
      | s_req_http_HT \<Rightarrow> strict_char (CHR ''T'') s_req_http_HTT ch c
      | s_req_http_HTT \<Rightarrow> strict_char (CHR ''P'') s_req_http_HTTP ch c
      | s_req_http_HTTP \<Rightarrow> strict_char (CHR ''/'') s_req_first_http_major ch c
      | s_req_first_http_major \<Rightarrow> exec_first_major 1 s_req_http_major ch c
      | s_req_http_major \<Rightarrow> exec_major s_req_first_http_minor ch c
      | s_req_first_http_minor \<Rightarrow> exec_first_minor s_req_http_minor ch c
      | s_req_http_minor \<Rightarrow> exec_req_http_minor ch c
      | s_req_line_almost_done \<Rightarrow> exec_req_line_almost_done ch c
      | s_header_field_start \<Rightarrow> exec_header_field_start ch c
      | s_header_field \<Rightarrow> exec_header_field S ch c
      | s_header_value_discard_ws \<Rightarrow> exec_header_value_discard_ws ch c
      | s_header_value_start \<Rightarrow> exec_header_value_start ch c
      | s_header_value \<Rightarrow> exec_header_value S ch c
      | s_header_almost_done \<Rightarrow> strict_char LF s_header_value_lws ch c
      | s_header_value_lws \<Rightarrow> exec_header_value_lws ch c
      | s_header_value_discard_ws_almost_done \<Rightarrow> strict_char LF s_header_value_discard_lws ch c
      | s_header_value_discard_lws \<Rightarrow> exec_header_value_discard_lws S ch c
      | s_headers_almost_done \<Rightarrow> exec_headers_almost_done S ch c
      | s_headers_done \<Rightarrow> exec_headers_done S ch c
      | s_body_identity \<Rightarrow> exec_body_identity S c
      | s_body_identity_eof \<Rightarrow> exec_body_identity_eof c
      | s_message_done \<Rightarrow> exec_message_done S c
      | s_chunk_size_start \<Rightarrow> exec_chunk_size_start ch c
      | s_chunk_size \<Rightarrow> exec_chunk_size ch c
      | s_chunk_parameters \<Rightarrow> exec_chunk_parameters ch c
      | s_chunk_size_almost_done \<Rightarrow> exec_chunk_size_almost_done ch c
      | s_chunk_data \<Rightarrow> exec_chunk_data c
      | s_chunk_data_almost_done \<Rightarrow> exec_chunk_data_almost_done S ch c
      | s_chunk_data_done \<Rightarrow> exec_chunk_data_done ch c)"


section \<open>The loop\<close>

text \<open>A state that repeats the byte goes to one of smaller rank, so \<open>reexecute_byte\<close> is taken at most four times.\<close>

definition rank :: "state \<Rightarrow> nat" where
  "rank s =
     (case s of
        s_start_req_or_res \<Rightarrow> 1 | s_header_value \<Rightarrow> 1 | s_body_identity \<Rightarrow> 1
      | s_headers_almost_done \<Rightarrow> 2 | s_header_field_start \<Rightarrow> 3
      | s_header_value_lws \<Rightarrow> 4 | s_header_value_discard_lws \<Rightarrow> 4
      | _ \<Rightarrow> 0)"

text \<open>What a handler may do to the bytes and the rank.\<close>

definition outcome_ok :: "nat \<Rightarrow> nat \<Rightarrow> 'u outcome \<Rightarrow> bool" where
  "outcome_ok len r out =
     (case out of
        Break c \<Rightarrow> length (cx_rest c) \<le> len
      | Reexec c \<Rightarrow> length (cx_rest c) \<le> len \<and> rank (ps_state (cx_parser c)) < r
      | _ \<Rightarrow> True)"

lemma cfg_simps [simp]:
  "cx_parser (upd f c) = f (cx_parser c)" "cx_rest (upd f c) = cx_rest c" "cx_user (upd f c) = cx_user c"
  "cx_marks (upd f c) = cx_marks c" "cx_n (upd f c) = cx_n c"
  "cx_parser (goto s c) = (cx_parser c)\<lparr>ps_state := s\<rparr>" "cx_rest (goto s c) = cx_rest c"
  "cx_user (goto s c) = cx_user c" "cx_marks (goto s c) = cx_marks c" "cx_n (goto s c) = cx_n c"
  "cx_parser (set_mark m c) = cx_parser c" "cx_rest (set_mark m c) = cx_rest c" "cx_user (set_mark m c) = cx_user c"
  "cx_n (set_mark m c) = cx_n c"
  "cx_parser (set_errno e c) = (cx_parser c)\<lparr>ps_errno := e\<rparr>" "cx_rest (set_errno e c) = cx_rest c"
  "cx_user (set_errno e c) = cx_user c" "cx_n (set_errno e c) = cx_n c" "cx_marks (set_errno e c) = cx_marks c"
  "cx_parser (advance k c) = cx_parser c" "cx_rest (advance k c) = drop k (cx_rest c)" "cx_user (advance k c) = cx_user c"
  "cx_n (advance k c) = cx_n c + k"
  by (simp_all add: upd_def goto_def set_mark_def set_errno_def advance_def)

lemma new_headers_simps [simp]:
  "cx_rest (new_headers c) = cx_rest c" "cx_user (new_headers c) = cx_user c" "cx_marks (new_headers c) = cx_marks c"
  "cx_n (new_headers c) = cx_n c"
  by (simp_all add: new_headers_def)

lemma outcome_ok_simps [simp]:
  "outcome_ok len r (Break c) \<longleftrightarrow> length (cx_rest c) \<le> len"
  "outcome_ok len r (Reexec c) \<longleftrightarrow> length (cx_rest c) \<le> len \<and> rank (ps_state (cx_parser c)) < r"
  "outcome_ok len r (Error e c)" "outcome_ok len r (Return n c)" "outcome_ok len r Abort"
  by (simp_all add: outcome_ok_def)

lemma outcome_ok_notify:
  assumes "\<And>u. outcome_ok len r (k (c\<lparr>cx_user := u\<rparr>))"
  shows "outcome_ok len r (notify S n er c k)"
  using assms by (simp add: notify_def Let_def split: prod.split)

lemma outcome_ok_callback_data:
  assumes "\<And>u ms. outcome_ok len r (k (c\<lparr>cx_user := u, cx_marks := ms\<rparr>))" "outcome_ok len r (k c)"
  shows "outcome_ok len r (callback_data S m extra er c k)"
  using assms by (simp add: callback_data_def Let_def split: prod.split option.split)

lemma outcome_ok_message_complete:
  assumes "\<And>u s. outcome_ok len r (k ((goto s c)\<lparr>cx_user := u\<rparr>))"
  shows "outcome_ok len r (message_complete S er c k)"
  using assms by (simp add: message_complete_def outcome_ok_notify)

lemma length_take_body: "length (cx_rest (take_body c)) \<le> length (cx_rest c)"
  by (simp add: take_body_def Let_def)

lemma state_take_body [simp]: "ps_state (cx_parser (take_body c)) = ps_state (cx_parser c)"
  by (simp add: take_body_def Let_def)

lemmas handler_defs = exec_dead_def exec_start_req_or_res_def exec_res_or_resp_H_def exec_start_res_def exec_start_req_def
  strict_char_def exec_first_major_def exec_major_def exec_first_minor_def add_minor_def exec_res_http_minor_def
  exec_res_first_status_code_def exec_res_status_code_def exec_res_status_start_def exec_res_status_def
  exec_req_method_def url_char_def exec_req_spaces_before_url_def exec_req_schema_def exec_req_url_def
  exec_req_http_start_def exec_req_http_minor_def exec_req_line_almost_done_def exec_header_field_start_def
  exec_header_field_def exec_header_value_start_def exec_header_value_discard_ws_def content_length_digit_def
  exec_header_value_def exec_header_value_lws_def exec_header_value_discard_lws_def exec_headers_almost_done_def
  exec_headers_done_def exec_body_identity_def exec_body_identity_eof_def exec_message_done_def
  exec_chunk_size_start_def exec_chunk_size_def exec_chunk_parameters_def exec_chunk_size_almost_done_def
  exec_chunk_data_def exec_chunk_data_almost_done_def exec_chunk_data_done_def

lemma finish_header_state [simp]: "ps_state (finish_header q) = ps_state q"
  by (simp add: finish_header_def split: header_states.split)

lemma outcome_ok_switch: "outcome_ok (length (cx_rest c)) (rank (ps_state (cx_parser c))) (exec_switch S ch c)"
  by (cases "ps_state (cx_parser c)")
     (simp_all add: exec_switch_def handler_defs Let_def rank_def outcome_ok_notify outcome_ok_callback_data
       outcome_ok_message_complete length_take_body split: option.split prod.split header_states.split)


function exec_reexec :: "'u settings \<Rightarrow> char \<Rightarrow> 'u cfg \<Rightarrow> 'u outcome" where
  "exec_reexec S ch c = (case exec_switch S ch c of Reexec c' \<Rightarrow> exec_reexec S ch c' | out \<Rightarrow> out)"
  by pat_completeness auto
termination
proof (relation "measure (\<lambda>(S, ch, c). rank (ps_state (cx_parser c)))")
  fix S :: "'u settings" and ch c c'
  assume "exec_switch S ch c = Reexec c'"
  then show "((S, ch, c'), S, ch, c) \<in> measure (\<lambda>(S, ch, c). rank (ps_state (cx_parser c)))"
    using outcome_ok_switch[of c S ch] by simp
qed simp

declare exec_reexec.simps [simp del]

lemma outcome_ok_reexec: "outcome_ok (length (cx_rest c)) 0 (exec_reexec S ch c)"
proof (induction S ch c rule: exec_reexec.induct)
  case (1 S ch c)
  show ?case
  proof (cases "exec_switch S ch c")
    case (Reexec c')
    have "length (cx_rest c') \<le> length (cx_rest c)" using outcome_ok_switch[of c S ch] Reexec by simp
    then have "outcome_ok (length (cx_rest c)) 0 (exec_reexec S ch c')"
      using "1.IH"[OF Reexec] by (auto simp: outcome_ok_def split: outcome.splits)
    then show ?thesis using Reexec by (simp add: exec_reexec.simps[of S ch c])
  qed (use outcome_ok_switch[of c S ch] in \<open>simp_all add: exec_reexec.simps[of S ch c]\<close>)
qed

definition exec_byte :: "'u settings \<Rightarrow> char \<Rightarrow> 'u cfg \<Rightarrow> 'u outcome" where
  "exec_byte S ch c =
     (if PARSING_HEADER (ps_state (cx_parser c))
      then
        (let c1 = upd (\<lambda>q. q\<lparr>ps_nread := (ps_nread q + 1) mod 2 ^ 32\<rparr>) c in
         if ps_nread (cx_parser c1) > HTTP_MAX_HEADER_SIZE then Error HPE_HEADER_OVERFLOW c1 else exec_reexec S ch c1)
      else exec_reexec S ch c)"

lemma outcome_ok_byte: "outcome_ok (length (cx_rest c)) 0 (exec_byte S ch c)"
  using outcome_ok_reexec[of c S ch] outcome_ok_reexec[of "upd (\<lambda>q. q\<lparr>ps_nread := (ps_nread q + 1) mod 2 ^ 32\<rparr>) c" S ch]
  by (simp add: exec_byte_def Let_def)

text \<open>The \<open>for\<close> loop; \<open>Break\<close> is its regular end.\<close>

function exec_loop :: "'u settings \<Rightarrow> 'u cfg \<Rightarrow> 'u outcome" where
  "exec_loop S c =
     (case cx_rest c of
        [] \<Rightarrow> Break c
      | ch # _ \<Rightarrow> (case exec_byte S ch c of Break c' \<Rightarrow> exec_loop S (advance 1 c') | out \<Rightarrow> out))"
  by pat_completeness auto
termination
proof (relation "measure (\<lambda>(S, c). length (cx_rest c))")
  fix S :: "'u settings" and c c' ch cs
  assume "cx_rest c = ch # cs" "exec_byte S ch c = Break c'"
  then show "((S, advance 1 c'), S, c) \<in> measure (\<lambda>(S, c). length (cx_rest c))"
    using outcome_ok_byte[of c S ch] by auto
qed simp

declare exec_loop.simps [simp del]

text \<open>The callbacks for the marks that are left over.\<close>

definition flush_marks :: "'u settings \<Rightarrow> 'u cfg \<Rightarrow> 'u outcome" where
  "flush_marks S c =
     (if length (filter (\<lambda>m. cx_marks c m \<noteq> None) [M_header_field, M_header_value, M_url, M_body, M_status]) > 1 then Abort
      else
        callback_data S M_header_field [] (cx_n c) c (\<lambda>c.
        callback_data S M_header_value [] (cx_n c) c (\<lambda>c.
        callback_data S M_url [] (cx_n c) c (\<lambda>c.
        callback_data S M_body [] (cx_n c) c (\<lambda>c.
        callback_data S M_status [] (cx_n c) c (\<lambda>c. Return (cx_n c) c))))))"

datatype 'u exec_result = Aborted | Executed nat http_parser 'u

definition url_states :: "state list" where
  "url_states = [s_req_path, s_req_schema, s_req_schema_slash, s_req_schema_slash_slash, s_req_server_start, s_req_server,
     s_req_server_with_at, s_req_query_string_start, s_req_query_string, s_req_fragment_start, s_req_fragment]"

definition initial_marks :: "state \<Rightarrow> mark \<Rightarrow> string option" where
  "initial_marks s m =
     (case m of
        M_header_field \<Rightarrow> if s = s_header_field then Some [] else None
      | M_header_value \<Rightarrow> if s = s_header_value then Some [] else None
      | M_url \<Rightarrow> if s \<in> set url_states then Some [] else None
      | M_status \<Rightarrow> if s = s_res_status then Some [] else None
      | M_body \<Rightarrow> None)"

definition initial_cfg :: "http_parser \<Rightarrow> string \<Rightarrow> 'u \<Rightarrow> 'u cfg" where
  "initial_cfg q bytes u =
     \<lparr>cx_parser = q, cx_user = u, cx_marks = initial_marks (ps_state q), cx_rest = bytes, cx_n = 0\<rparr>"

definition exec_result_of :: "'u settings \<Rightarrow> 'u outcome \<Rightarrow> 'u exec_result" where
  "exec_result_of S out =
     (case out of
        Break c \<Rightarrow>
          (case flush_marks S c of Return n c' \<Rightarrow> Executed n (cx_parser c') (cx_user c') | _ \<Rightarrow> Aborted)
      | Error e c \<Rightarrow> Executed (cx_n c) ((cx_parser c)\<lparr>ps_errno := e\<rparr>) (cx_user c)
      | Return n c \<Rightarrow> Executed n (cx_parser c) (cx_user c)
      | _ \<Rightarrow> Aborted)"

definition http_parser_execute :: "'u settings \<Rightarrow> http_parser \<Rightarrow> string \<Rightarrow> 'u \<Rightarrow> 'u exec_result" where
  "http_parser_execute S q bytes u =
     (if ps_errno q \<noteq> HPE_OK then Executed 0 q u
      else if bytes = []
      then
        (case ps_state q of
           s_body_identity_eof \<Rightarrow>
             (case on_notify S N_message_complete q u of
                (u', r) \<Rightarrow> Executed 0 (if r \<noteq> 0 then q\<lparr>ps_errno := HPE_CB_message_complete\<rparr> else q) u')
         | s_dead \<Rightarrow> Executed 0 q u
         | s_start_req_or_res \<Rightarrow> Executed 0 q u
         | s_start_res \<Rightarrow> Executed 0 q u
         | s_start_req \<Rightarrow> Executed 0 q u
         | _ \<Rightarrow> Executed 1 (q\<lparr>ps_errno := HPE_INVALID_EOF_STATE\<rparr>) u)
      else exec_result_of S (exec_loop S (initial_cfg q bytes u)))"

definition http_parser_pause :: "bool \<Rightarrow> http_parser \<Rightarrow> http_parser option" where
  "http_parser_pause paused q =
     (if ps_errno q = HPE_OK \<or> ps_errno q = HPE_PAUSED
      then Some (q\<lparr>ps_errno := (if paused then HPE_PAUSED else HPE_OK)\<rparr>) else None)"

definition http_body_is_final :: "http_parser \<Rightarrow> bool" where
  "http_body_is_final q \<longleftrightarrow> ps_state q = s_message_done"

definition http_method_str :: "nat \<Rightarrow> string" where
  "http_method_str m = (if m < length method_strings then method_strings ! m else ''<unknown>'')"

end
