(* ===== verification/Http_Parser_Safety.thy ===== *)
theory Http_Parser_Safety
  imports Http_Parser
begin

text \<open>
  The invariant of the HTTP parser: no assertion of \<open>http_parser_execute\<close> fails and no method string is read
  behind its end, for every input and every way of cutting it into pieces.
\<close>

section \<open>The invariant\<close>

definition field_states :: "header_states list" where
  "field_states = [h_general, h_C, h_CO, h_CON, h_matching_connection, h_matching_proxy_connection, h_matching_content_length,
     h_matching_transfer_encoding, h_matching_upgrade, h_connection, h_content_length, h_transfer_encoding, h_upgrade]"

definition state_ok :: "http_parser \<Rightarrow> bool" where
  "state_ok q \<longleftrightarrow>
     (case ps_state q of
        s_req_method \<Rightarrow> ps_method q < length method_strings \<and> ps_index q \<le> length (method_strings ! ps_method q)
      | s_header_field \<Rightarrow> ps_header_state q \<in> set field_states
      | s_header_value \<Rightarrow> ps_header_state q \<noteq> h_connection \<and> ps_header_state q \<noteq> h_transfer_encoding
      | s_chunk_size_start \<Rightarrow> f_chunked q \<and> ps_nread q = 0
      | s_chunk_size \<Rightarrow> f_chunked q \<and> ps_content_length q < ULLONG_MAX
      | s_chunk_parameters \<Rightarrow> f_chunked q \<and> ps_content_length q < ULLONG_MAX
      | s_chunk_size_almost_done \<Rightarrow> f_chunked q \<and> ps_content_length q < ULLONG_MAX
      | s_chunk_data \<Rightarrow> f_chunked q \<and> 0 < ps_content_length q \<and> ps_content_length q < ULLONG_MAX
      | s_chunk_data_almost_done \<Rightarrow> f_chunked q \<and> ps_content_length q = 0
      | s_chunk_data_done \<Rightarrow> f_chunked q
      | s_body_identity \<Rightarrow> 0 < ps_content_length q \<and> ps_content_length q < ULLONG_MAX
      | _ \<Rightarrow> True)"

definition parser_ok :: "http_parser \<Rightarrow> bool" where
  "parser_ok q \<longleftrightarrow> ps_errno q = HPE_OK \<and> ps_content_length q \<le> ULLONG_MAX \<and> ps_nread q \<le> HTTP_MAX_HEADER_SIZE \<and> state_ok q"

text \<open>The states in which a mark may be set.\<close>

definition mark_states :: "mark \<Rightarrow> state list" where
  "mark_states m =
     (case m of
        M_header_field \<Rightarrow> [s_header_field]
      | M_header_value \<Rightarrow> [s_header_value]
      | M_url \<Rightarrow> url_states
      | M_status \<Rightarrow> [s_res_status]
      | M_body \<Rightarrow> [s_body_identity, s_body_identity_eof, s_chunk_data, s_chunk_data_almost_done])"

definition marks_ok :: "'u cfg \<Rightarrow> bool" where
  "marks_ok c \<longleftrightarrow> (\<forall>m. cx_marks c m \<noteq> None \<longrightarrow> ps_state (cx_parser c) \<in> set (mark_states m))"

text \<open>Inside of the switch the byte was counted already.\<close>

definition cfg_ok :: "'u cfg \<Rightarrow> bool" where
  "cfg_ok c \<longleftrightarrow> parser_ok (cx_parser c) \<and> marks_ok c"

definition switch_ok :: "'u cfg \<Rightarrow> bool" where
  "switch_ok c \<longleftrightarrow> cx_rest c \<noteq> [] \<and> marks_ok c \<and> ps_errno (cx_parser c) = HPE_OK \<and>
     ps_content_length (cx_parser c) \<le> ULLONG_MAX \<and> ps_nread (cx_parser c) \<le> HTTP_MAX_HEADER_SIZE \<and>
     (if ps_state (cx_parser c) = s_chunk_size_start then f_chunked (cx_parser c) \<and> ps_nread (cx_parser c) = 1
      else state_ok (cx_parser c))"

text \<open>No error, or a callback that asked to stop: the input itself was in order.\<close>

fun quiet :: "http_errno \<Rightarrow> bool" where
  "quiet HPE_OK = True"
| "quiet HPE_CB_message_begin = True"
| "quiet HPE_CB_url = True"
| "quiet HPE_CB_header_field = True"
| "quiet HPE_CB_header_value = True"
| "quiet HPE_CB_headers_complete = True"
| "quiet HPE_CB_body = True"
| "quiet HPE_CB_message_complete = True"
| "quiet HPE_CB_status = True"
| "quiet _ = False"

text \<open>After the switch: the invariant holds again, an error is one of the input, and the end by \<open>return\<close> is not.\<close>

definition result_ok :: "'u outcome \<Rightarrow> bool" where
  "result_ok out \<longleftrightarrow>
     (case out of
        Break c \<Rightarrow> cfg_ok c
      | Reexec c \<Rightarrow> switch_ok c \<and> ps_state (cx_parser c) \<noteq> s_chunk_size_start
      | Error e c \<Rightarrow> \<not> quiet e
      | Return n c \<Rightarrow> quiet (ps_errno (cx_parser c)) \<and> (ps_errno (cx_parser c) = HPE_OK \<longrightarrow> cfg_ok c)
      | Abort \<Rightarrow> False)"


lemma all_mark: "(\<forall>m. P m) \<longleftrightarrow> P M_header_field \<and> P M_header_value \<and> P M_url \<and> P M_body \<and> P M_status"
  by (metis mark.exhaust)

lemma marks_ok_iff:
  "marks_ok c \<longleftrightarrow>
     (cx_marks c M_header_field \<noteq> None \<longrightarrow> ps_state (cx_parser c) = s_header_field) \<and>
     (cx_marks c M_header_value \<noteq> None \<longrightarrow> ps_state (cx_parser c) = s_header_value) \<and>
     (cx_marks c M_url \<noteq> None \<longrightarrow> ps_state (cx_parser c) \<in> set url_states) \<and>
     (cx_marks c M_body \<noteq> None \<longrightarrow> ps_state (cx_parser c) \<in> set (mark_states M_body)) \<and>
     (cx_marks c M_status \<noteq> None \<longrightarrow> ps_state (cx_parser c) = s_res_status)"
  by (simp add: marks_ok_def all_mark mark_states_def)

lemma result_ok_simps [simp]:
  "result_ok (Break c) \<longleftrightarrow> cfg_ok c"
  "result_ok (Reexec c) \<longleftrightarrow> switch_ok c \<and> ps_state (cx_parser c) \<noteq> s_chunk_size_start"
  "result_ok (Error e c) \<longleftrightarrow> \<not> quiet e"
  "result_ok (Return n c) \<longleftrightarrow> quiet (ps_errno (cx_parser c)) \<and> (ps_errno (cx_parser c) = HPE_OK \<longrightarrow> cfg_ok c)"
  "\<not> result_ok Abort"
  by (simp_all add: result_ok_def)

lemma quiet_OK: "\<not> quiet e \<Longrightarrow> e \<noteq> HPE_OK"
  by auto

lemma result_ok_notify:
  assumes "ps_errno (cx_parser c) = HPE_OK" "\<And>u. result_ok (k (c\<lparr>cx_user := u\<rparr>))"
  shows "result_ok (notify S n er c k)"
  using assms by (cases n) (simp_all add: notify_def Let_def split: prod.split)

lemma result_ok_callback_data:
  assumes "ps_errno (cx_parser c) = HPE_OK" "cx_marks c m = None \<Longrightarrow> result_ok (k c)"
    "\<And>u. result_ok (k (c\<lparr>cx_user := u, cx_marks := (cx_marks c)(m := None)\<rparr>))"
  shows "result_ok (callback_data S m extra er c k)"
  using assms by (cases m) (simp_all add: callback_data_def Let_def split: prod.split option.split)

text \<open>The usual end of a marked text: the callback takes the only mark.\<close>

lemma result_ok_last_mark:
  assumes "parser_ok (cx_parser c)" "\<And>m'. m' \<noteq> m \<Longrightarrow> cx_marks c m' = None"
  shows "result_ok (callback_data S m extra er c Break)"
    and "cx_rest c \<noteq> [] \<Longrightarrow> ps_state (cx_parser c) \<noteq> s_chunk_size_start \<Longrightarrow> result_ok (callback_data S m extra er c Reexec)"
proof -
  have none: "cx_marks c = Map.empty" if "cx_marks c m = None" using assms(2) that by (intro ext) metis
  have upd: "(cx_marks c)(m := None) = Map.empty" using assms(2) by (intro ext) simp
  show "result_ok (callback_data S m extra er c Break)"
    using assms(1) none upd by (intro result_ok_callback_data) (simp_all add: cfg_ok_def marks_ok_iff parser_ok_def)
  assume "cx_rest c \<noteq> []" "ps_state (cx_parser c) \<noteq> s_chunk_size_start"
  then show "result_ok (callback_data S m extra er c Reexec)"
    using assms(1) none upd by (intro result_ok_callback_data) (simp_all add: switch_ok_def marks_ok_iff parser_ok_def)
qed

lemma set_mark_other [simp]: "m \<noteq> m' \<Longrightarrow> cx_marks (set_mark m c) m' = cx_marks c m'"
  by (simp add: set_mark_def)

lemma state_ok_start: "state_ok (q\<lparr>ps_state := NEW_MESSAGE q'\<rparr>)"
  by (simp add: state_ok_def NEW_MESSAGE_def start_state_def)

lemma NEW_MESSAGE_cases: "NEW_MESSAGE q \<in> {s_dead, s_start_req, s_start_res}"
  by (simp add: NEW_MESSAGE_def start_state_def)

lemma result_ok_message_complete:
  assumes "ps_errno (cx_parser c) = HPE_OK"
    "\<And>u s. s \<in> {s_dead, s_start_req, s_start_res} \<Longrightarrow> result_ok (k ((goto s c)\<lparr>cx_user := u\<rparr>))"
  shows "result_ok (message_complete S er c k)"
  unfolding message_complete_def using assms NEW_MESSAGE_cases[of "cx_parser c"]
  by (intro result_ok_notify) simp_all

lemma digit_less: "IS_NUM ch \<Longrightarrow> digit ch < 10"
  by (auto simp: IS_NUM_def digit_def)

lemma no_marks: "marks_ok c \<Longrightarrow> ps_state (cx_parser c) \<notin> set (mark_states m) \<Longrightarrow> cx_marks c m = None"
  by (auto simp: marks_ok_def)

section \<open>Every handler keeps the invariant\<close>

lemmas inv_defs = switch_ok_def cfg_ok_def parser_ok_def state_ok_def marks_ok_iff url_states_def mark_states_def

lemma start_switch_ok:
  assumes "switch_ok c"
  shows "ps_state (cx_parser c) = s_dead \<Longrightarrow> result_ok (exec_dead ch c)"
    and "ps_state (cx_parser c) = s_start_req_or_res \<Longrightarrow> result_ok (exec_start_req_or_res S ch c)"
    and "ps_state (cx_parser c) = s_res_or_resp_H \<Longrightarrow> result_ok (exec_res_or_resp_H ch c)"
    and "ps_state (cx_parser c) = s_start_res \<Longrightarrow> result_ok (exec_start_res S ch c)"
  using assms
  by (auto simp: handler_defs Let_def new_headers_def inv_defs method_strings_def intro!: result_ok_notify)


lemma first_line_switch_ok:
  assumes "switch_ok c"
  shows "ps_state (cx_parser c) = s_res_http_major \<Longrightarrow> result_ok (exec_major s_res_first_http_minor ch c)"
    and "ps_state (cx_parser c) = s_req_http_major \<Longrightarrow> result_ok (exec_major s_req_first_http_minor ch c)"
    and "ps_state (cx_parser c) = s_res_http_minor \<Longrightarrow> result_ok (exec_res_http_minor ch c)"
    and "ps_state (cx_parser c) = s_req_http_minor \<Longrightarrow> result_ok (exec_req_http_minor ch c)"
    and "ps_state (cx_parser c) = s_res_first_status_code \<Longrightarrow> result_ok (exec_res_first_status_code ch c)"
    and "ps_state (cx_parser c) = s_res_status_code \<Longrightarrow> result_ok (exec_res_status_code ch c)"
    and "ps_state (cx_parser c) = s_res_status_start \<Longrightarrow> result_ok (exec_res_status_start ch c)"
    and "ps_state (cx_parser c) = s_res_status \<Longrightarrow> result_ok (exec_res_status S ch c)"
  using assms
  by (simp_all add: handler_defs Let_def inv_defs) (auto simp: inv_defs intro!: result_ok_callback_data)

lemma parse_url_char_url_state:
  assumes "s \<in> insert s_req_spaces_before_url (set url_states)"
  shows "parse_url_char s ch \<in> insert s_dead (set url_states)"
  using assms by (cases s) (simp_all add: url_states_def parse_url_char_def url_server_char_def)

lemma start_method_short: "start_method ch = Some m \<Longrightarrow> m < length method_strings \<and> 1 \<le> length (method_strings ! m)"
  by (auto simp: start_method_def method_strings_def split: if_splits)

lemma other_method_long: "other_method m i ch = Some m' \<Longrightarrow> m' < length method_strings \<and> i + 1 \<le> length (method_strings ! m')"
  by (auto simp: other_method_def method_strings_def split: if_splits)

lemma method_strings_short: "m < length method_strings \<Longrightarrow> length (method_strings ! m) \<le> 11"
proof -
  have "\<forall>s \<in> set method_strings. length s \<le> 11" by (simp add: method_strings_def)
  then show "m < length method_strings \<Longrightarrow> length (method_strings ! m) \<le> 11" by (metis nth_mem)
qed

lemma method_strings_no_NUL: "m < length method_strings \<Longrightarrow> i < length (method_strings ! m) \<Longrightarrow> method_strings ! m ! i \<noteq> NUL"
proof -
  have "\<forall>s \<in> set method_strings. NUL \<notin> set s" by (simp add: method_strings_def)
  then show "m < length method_strings \<Longrightarrow> i < length (method_strings ! m) \<Longrightarrow> method_strings ! m ! i \<noteq> NUL" by (metis nth_mem)
qed


lemma start_req_switch_ok:
  assumes "switch_ok c" "ps_state (cx_parser c) = s_start_req"
  shows "result_ok (exec_start_req S ch c)"
proof (cases "start_method ch")
  case None
  then show ?thesis using assms by (simp add: exec_start_req_def Let_def inv_defs)
next
  case (Some m)
  then show ?thesis using assms start_method_short[OF Some]
    by (simp add: exec_start_req_def Let_def inv_defs new_headers_def) (auto simp: inv_defs intro!: result_ok_notify)
qed

lemma req_method_switch_ok:
  assumes "switch_ok c" "ps_state (cx_parser c) = s_req_method"
  shows "result_ok (exec_req_method ch c)"
proof -
  let ?q = "cx_parser c"
  let ?m = "ps_method ?q" and ?i = "ps_index ?q"
  have m: "?m < length method_strings" "?i \<le> length (method_strings ! ?m)"
    using assms by (simp_all add: inv_defs)
  have i: "(?i + 1) mod 256 = ?i + 1" using m(2) method_strings_short[OF m(1)] by simp
  have "char_at (method_strings ! ?m) ?i \<noteq> None" using m(2) by (simp add: char_at_def)
  then obtain e where e: "char_at (method_strings ! ?m) ?i = Some e" by blast
  have e_char: "e \<noteq> NUL \<Longrightarrow> ?i < length (method_strings ! ?m)"
    using e by (auto simp: char_at_def split: if_splits)
  show ?thesis
  proof (cases "other_method ?m ?i ch")
    case None
    then show ?thesis using assms m e e_char i by (auto simp: exec_req_method_def Let_def inv_defs)
  next
    case (Some m')
    then show ?thesis using assms m e e_char i other_method_long[OF Some]
      by (auto simp: exec_req_method_def Let_def inv_defs)
  qed
qed

lemma state_ok_url: "ps_state q \<in> set url_states \<Longrightarrow> state_ok q"
  by (cases "ps_state q") (simp_all add: state_ok_def url_states_def)

lemma url_state_marks:
  "ps_state q \<in> insert s_req_spaces_before_url (set url_states) \<Longrightarrow> m \<noteq> M_url \<Longrightarrow> ps_state q \<notin> set (mark_states m)"
  by (cases m; cases "ps_state q") (simp_all add: mark_states_def url_states_def)

lemma url_char_ok:
  assumes "switch_ok c" "ps_state (cx_parser c) \<in> insert s_req_spaces_before_url (set url_states)"
    "s \<in> insert s_req_spaces_before_url (set url_states)"
  shows "result_ok (url_char s ch (set_mark M_url c))" "result_ok (url_char s ch c)"
proof -
  have marks: "cx_marks c m = None" if "m \<noteq> M_url" for m
    using assms(1) no_marks[of c m] url_state_marks[OF assms(2) that] by (simp add: switch_ok_def)
  have cfg: "cfg_ok (goto s' (set_mark M_url c))" "cfg_ok (goto s' c)" if "s' \<in> set url_states" for s'
    using assms(1) marks that by (simp_all add: cfg_ok_def marks_ok_iff parser_ok_def switch_ok_def state_ok_url)
  show "result_ok (url_char s ch (set_mark M_url c))" "result_ok (url_char s ch c)"
    using parse_url_char_url_state[OF assms(3), of ch] cfg[of "parse_url_char s ch"]
    by (simp_all add: url_char_def Let_def) blast+
qed

lemma req_url_switch_ok:
  assumes "switch_ok c"
  shows "ps_state (cx_parser c) = s_req_spaces_before_url \<Longrightarrow> result_ok (exec_req_spaces_before_url ch c)"
    and "ps_state (cx_parser c) \<in> set url_states \<Longrightarrow> result_ok (exec_req_schema ch c)"
    and "ps_state (cx_parser c) \<in> set url_states \<Longrightarrow> result_ok (exec_req_url S ch c)"
proof -
  show "ps_state (cx_parser c) = s_req_spaces_before_url \<Longrightarrow> result_ok (exec_req_spaces_before_url ch c)"
    using assms url_char_ok(1)[OF assms, of s_req_spaces_before_url] url_char_ok(1)[OF assms, of s_req_server_start]
    by (simp add: exec_req_spaces_before_url_def inv_defs)
  assume s: "ps_state (cx_parser c) \<in> set url_states"
  then show "result_ok (exec_req_schema ch c)"
    using url_char_ok(2)[OF assms, of "ps_state (cx_parser c)"] by (simp add: exec_req_schema_def)
  have marks: "cx_marks c m = None" if "m \<noteq> M_url" for m
    using assms no_marks[of c m] url_state_marks[of "cx_parser c" m] that s by (simp add: switch_ok_def)
  show "result_ok (exec_req_url S ch c)"
    using assms url_char_ok(2)[OF assms, of "ps_state (cx_parser c)"] s
    by (simp add: exec_req_url_def result_ok_last_mark marks parser_ok_def state_ok_def switch_ok_def)
qed


lemma header_field_token_defined: "ps_header_state q \<in> set field_states \<Longrightarrow> header_field_token ch t q \<noteq> None"
  by (cases "ps_header_state q") (simp_all add: field_states_def header_field_token_def)

lemma match_char_simps [simp]:
  "ps_state (match_char lit full t q) = ps_state q" "ps_errno (match_char lit full t q) = ps_errno q"
  "ps_nread (match_char lit full t q) = ps_nread q" "ps_content_length (match_char lit full t q) = ps_content_length q"
  by (simp_all add: match_char_def Let_def)

lemma header_field_token_ok:
  assumes "header_field_token ch t q = Some q'" "ps_header_state q \<in> set field_states"
  shows "ps_header_state q' \<in> set field_states \<and> ps_state q' = ps_state q \<and> ps_errno q' = ps_errno q \<and>
    ps_nread q' = ps_nread q \<and> ps_content_length q' = ps_content_length q"
  using assms
  by (cases "ps_header_state q")
     (auto simp: field_states_def header_field_token_def step_char_def match_char_def Let_def split: if_splits)

lemma header_field_switch_ok:
  assumes "switch_ok c" "ps_state (cx_parser c) = s_header_field"
  shows "result_ok (exec_header_field S ch c)"
proof -
  have marks: "cx_marks c m = None" if "m \<noteq> M_header_field" for m
    using assms that no_marks[of c m] by (cases m) (simp_all add: inv_defs)
  have "ps_header_state (cx_parser c) \<in> set field_states" using assms by (simp add: inv_defs)
  then obtain q' where q': "header_field_token ch (TOKEN ch) (cx_parser c) = Some q'" "ps_header_state (cx_parser c) \<in> set field_states"
    using header_field_token_defined by blast
  have "cfg_ok (upd (\<lambda>_. q') c)"
    using assms header_field_token_ok[OF q'] by (simp add: cfg_ok_def switch_ok_def marks_ok_iff parser_ok_def state_ok_def)
  then show ?thesis using assms by (simp add: exec_header_field_def q'(1) result_ok_last_mark marks parser_ok_def state_ok_def switch_ok_def)
qed

lemma header_start_switch_ok:
  assumes "switch_ok c"
  shows "ps_state (cx_parser c) = s_header_field_start \<Longrightarrow> result_ok (exec_header_field_start ch c)"
    and "ps_state (cx_parser c) = s_header_value_start \<or> ps_state (cx_parser c) = s_header_value_discard_ws \<Longrightarrow>
           result_ok (exec_header_value_start ch c)"
    and "ps_state (cx_parser c) = s_header_value_lws \<Longrightarrow> result_ok (exec_header_value_lws ch c)"
proof -
  show "ps_state (cx_parser c) = s_header_field_start \<Longrightarrow> result_ok (exec_header_field_start ch c)"
    using assms by (simp add: exec_header_field_start_def inv_defs first_header_state_def field_states_def)
  show "ps_state (cx_parser c) = s_header_value_lws \<Longrightarrow> result_ok (exec_header_value_lws ch c)"
    using assms by (simp add: exec_header_value_lws_def inv_defs finish_header_def split: header_states.split)
  have d: "digit ch \<le> ULLONG_MAX" if "IS_NUM ch" using digit_less[OF that] by (simp add: ULLONG_MAX_def)
  assume "ps_state (cx_parser c) = s_header_value_start \<or> ps_state (cx_parser c) = s_header_value_discard_ws"
  then show "result_ok (exec_header_value_start ch c)"
    using assms d by (elim disjE; cases "ps_header_state (cx_parser c)")
      (simp_all add: exec_header_value_start_def inv_defs Let_def)
qed

lemma header_value_discard_ws_switch_ok:
  assumes "switch_ok c" "ps_state (cx_parser c) = s_header_value_discard_ws"
  shows "result_ok (exec_header_value_discard_ws ch c)"
  using assms header_start_switch_ok(2)[OF assms(1), of ch]
  by (simp add: exec_header_value_discard_ws_def) (simp add: inv_defs)


lemma content_length_digit_ok:
  assumes "switch_ok c" "ps_state (cx_parser c) = s_header_value" "ps_header_state (cx_parser c) = h_content_length"
  shows "result_ok (content_length_digit ch c)"
proof -
  have "(ps_content_length (cx_parser c) * 10 + digit ch) mod 2 ^ 64 \<le> ULLONG_MAX"
    using mod_less_divisor[of "2 ^ 64" "ps_content_length (cx_parser c) * 10 + digit ch"]
    by (simp add: ULLONG_MAX_def del: mod_less_divisor)
  then show ?thesis using assms by (simp add: content_length_digit_def Let_def inv_defs)
qed

lemma match_value_ok:
  assumes "switch_ok c" "ps_state (cx_parser c) = s_header_value" "full \<notin> {h_connection, h_transfer_encoding}"
  shows "cfg_ok (upd (match_char lit full t) c)"
proof -
  have "ps_header_state (match_char lit full t (cx_parser c)) \<notin> {h_connection, h_transfer_encoding}"
    using assms by (simp add: match_char_def Let_def inv_defs)
  then show ?thesis using assms by (simp add: inv_defs)
qed

lemma header_value_switch_ok:
  assumes "switch_ok c" "ps_state (cx_parser c) = s_header_value"
  shows "result_ok (exec_header_value S ch c)"
proof -
  have marks: "cx_marks c m = None" if "m \<noteq> M_header_value" for m
    using assms that no_marks[of c m] by (cases m) (simp_all add: inv_defs)
  have end_ok: "ch = CR \<or> ch = LF \<Longrightarrow> result_ok (exec_header_value S ch c)"
    using assms marks
    by (auto simp: exec_header_value_def switch_ok_def parser_ok_def state_ok_def intro!: result_ok_last_mark)
  have "\<not> (ch = CR \<or> ch = LF) \<Longrightarrow> result_ok (exec_header_value S ch c)"
    using assms content_length_digit_ok[OF assms] match_value_ok[OF assms]
    by (cases "ps_header_state (cx_parser c)") (simp_all add: exec_header_value_def Let_def, simp_all add: inv_defs)
  then show ?thesis using end_ok by blast
qed

lemma header_value_discard_lws_switch_ok:
  assumes "switch_ok c" "ps_state (cx_parser c) = s_header_value_discard_lws"
  shows "result_ok (exec_header_value_discard_lws S ch c)"
proof -
  have marks: "cx_marks c m = None" for m
    using assms no_marks[of c m] by (cases m) (simp_all add: inv_defs)
  then have marks': "m \<noteq> M_header_value \<Longrightarrow> cx_marks (set_mark M_header_value c) m = None" for m by simp
  show ?thesis using assms marks marks'
    by (simp add: exec_header_value_discard_lws_def result_ok_last_mark switch_ok_def parser_ok_def state_ok_def cfg_ok_def
        marks_ok_iff)
qed


lemma no_mark_complete:
  assumes "ps_errno (cx_parser c) = HPE_OK" "ps_content_length (cx_parser c) \<le> ULLONG_MAX"
    "ps_nread (cx_parser c) \<le> HTTP_MAX_HEADER_SIZE" "cx_marks c = Map.empty"
  shows "result_ok (message_complete S er c Break)" "result_ok (message_complete S er c (Return n))"
  using assms by (auto simp: cfg_ok_def parser_ok_def marks_ok_iff state_ok_def intro!: result_ok_message_complete)

lemma unmarked_state:
  assumes "switch_ok c" "\<And>m. ps_state (cx_parser c) \<notin> set (mark_states m)"
  shows "cx_marks c = Map.empty"
  using assms no_marks[of c] by (intro ext) (simp add: switch_ok_def)

lemma headers_end_switch_ok:
  assumes "switch_ok c"
  shows "ps_state (cx_parser c) = s_headers_almost_done \<Longrightarrow> result_ok (exec_headers_almost_done S ch c)"
    and "ps_state (cx_parser c) = s_headers_done \<Longrightarrow> result_ok (exec_headers_done S ch c)"
    and "ps_state (cx_parser c) = s_message_done \<Longrightarrow> result_ok (exec_message_done S c)"
proof -
  have um: "s \<notin> set (mark_states m)" if "s \<in> {s_headers_almost_done, s_headers_done, s_message_done}" for s m
    using that by (cases m) (auto simp: mark_states_def url_states_def)
  have marks: "cx_marks c = Map.empty" if "ps_state (cx_parser c) \<in> {s_headers_almost_done, s_headers_done, s_message_done}"
    using unmarked_state[OF assms] um that by blast
  show "ps_state (cx_parser c) = s_headers_almost_done \<Longrightarrow> result_ok (exec_headers_almost_done S ch c)"
    using assms marks
    by (simp add: exec_headers_almost_done_def Let_def no_mark_complete switch_ok_def state_ok_def marks_ok_iff split: prod.split)
  show "ps_state (cx_parser c) = s_headers_done \<Longrightarrow> result_ok (exec_headers_done S ch c)"
    using assms marks
    by (simp add: exec_headers_done_def Let_def no_mark_complete switch_ok_def cfg_ok_def parser_ok_def state_ok_def marks_ok_iff)
  show "ps_state (cx_parser c) = s_message_done \<Longrightarrow> result_ok (exec_message_done S c)"
    using assms marks by (simp add: exec_message_done_def no_mark_complete switch_ok_def)
qed

lemma take_body_simps [simp]:
  "ps_errno (cx_parser (take_body c)) = ps_errno (cx_parser c)" "ps_nread (cx_parser (take_body c)) = ps_nread (cx_parser c)"
  "f_chunked (cx_parser (take_body c)) = f_chunked (cx_parser c)"
  "ps_content_length (cx_parser (take_body c)) = ps_content_length (cx_parser c) - length (cx_rest c)"
  "m \<noteq> M_body \<Longrightarrow> cx_marks c m = None \<Longrightarrow> cx_marks (take_body c) m = None"
  by (simp_all add: take_body_def Let_def advance_def)

lemma take_body_rest: "cx_rest c \<noteq> [] \<Longrightarrow> cx_rest (take_body c) \<noteq> []"
  by (simp add: take_body_def Let_def) (cases "cx_rest c"; auto)

lemma body_switch_ok:
  assumes "switch_ok c"
  shows "ps_state (cx_parser c) = s_body_identity \<Longrightarrow> result_ok (exec_body_identity S c)"
    and "ps_state (cx_parser c) = s_body_identity_eof \<Longrightarrow> result_ok (exec_body_identity_eof c)"
    and "ps_state (cx_parser c) = s_chunk_data \<Longrightarrow> result_ok (exec_chunk_data c)"
    and "ps_state (cx_parser c) = s_chunk_data_almost_done \<Longrightarrow> result_ok (exec_chunk_data_almost_done S ch c)"
proof -
  have marks: "cx_marks c m = None" if "ps_state (cx_parser c) \<in> set (mark_states M_body)" "m \<noteq> M_body" for m
    using assms that no_marks[of c m] by (cases m) (auto simp: switch_ok_def mark_states_def url_states_def)
  have cl: "ps_content_length (cx_parser c) - n \<le> ULLONG_MAX" for n
    using assms unfolding switch_ok_def by linarith
  note facts = switch_ok_def cfg_ok_def parser_ok_def state_ok_def marks_ok_iff mark_states_def less_imp_diff_less cl
  show "ps_state (cx_parser c) = s_body_identity \<Longrightarrow> result_ok (exec_body_identity S c)"
    using assms marks take_body_rest[of c]
    by (simp add: exec_body_identity_def Let_def result_ok_last_mark facts)
  show "ps_state (cx_parser c) = s_body_identity_eof \<Longrightarrow> result_ok (exec_body_identity_eof c)"
    using assms marks by (simp add: exec_body_identity_eof_def facts advance_def)
  show "ps_state (cx_parser c) = s_chunk_data \<Longrightarrow> result_ok (exec_chunk_data c)"
    using assms marks by (simp add: exec_chunk_data_def Let_def facts)
  show "ps_state (cx_parser c) = s_chunk_data_almost_done \<Longrightarrow> result_ok (exec_chunk_data_almost_done S ch c)"
    using assms marks by (simp add: exec_chunk_data_almost_done_def result_ok_last_mark facts)
qed

lemma unhex_bounds: "unhex ch = -1 \<or> 0 \<le> unhex ch \<and> unhex ch < 16"
  by (auto simp: unhex_def IS_HEX_def IS_NUM_def)

text \<open>The test before a digit is strong enough: the chunk size never wraps around.\<close>

lemma chunk_digit_exact:
  assumes "\<not> (ULLONG_MAX - 16) div 16 < cl" "unhex ch \<noteq> -1"
  shows "(cl * 16 + nat (unhex ch)) mod 2 ^ 64 = cl * 16 + nat (unhex ch)" "cl * 16 + nat (unhex ch) < ULLONG_MAX"
    "cl * 16 + nat (unhex ch) \<le> ULLONG_MAX"
proof -
  have "cl * 16 + nat (unhex ch) < ULLONG_MAX"
    using assms unhex_bounds[of ch] by (simp add: ULLONG_MAX_def nat_less_iff) linarith
  then show "cl * 16 + nat (unhex ch) < ULLONG_MAX" "cl * 16 + nat (unhex ch) \<le> ULLONG_MAX"
    "(cl * 16 + nat (unhex ch)) mod 2 ^ 64 = cl * 16 + nat (unhex ch)"
    by (simp_all add: ULLONG_MAX_def)
qed

lemma chunk_switch_ok:
  assumes "switch_ok c"
  shows "ps_state (cx_parser c) = s_chunk_size_start \<Longrightarrow> result_ok (exec_chunk_size_start ch c)"
    and "ps_state (cx_parser c) = s_chunk_size \<Longrightarrow> result_ok (exec_chunk_size ch c)"
    and "ps_state (cx_parser c) = s_chunk_parameters \<Longrightarrow> result_ok (exec_chunk_parameters ch c)"
    and "ps_state (cx_parser c) = s_chunk_size_almost_done \<Longrightarrow> result_ok (exec_chunk_size_almost_done ch c)"
    and "ps_state (cx_parser c) = s_chunk_data_done \<Longrightarrow> result_ok (exec_chunk_data_done ch c)"
proof -
  note facts = switch_ok_def cfg_ok_def parser_ok_def state_ok_def marks_ok_iff mark_states_def url_states_def
  show "ps_state (cx_parser c) = s_chunk_size_start \<Longrightarrow> result_ok (exec_chunk_size_start ch c)"
    using assms unhex_bounds[of ch] by (simp add: exec_chunk_size_start_def facts ULLONG_MAX_def) linarith
  show "ps_state (cx_parser c) = s_chunk_size \<Longrightarrow> result_ok (exec_chunk_size ch c)"
    using assms chunk_digit_exact[of "ps_content_length (cx_parser c)" ch]
    by (simp add: exec_chunk_size_def facts Let_def)
  show "ps_state (cx_parser c) = s_chunk_parameters \<Longrightarrow> result_ok (exec_chunk_parameters ch c)"
    using assms by (simp add: exec_chunk_parameters_def facts)
  show "ps_state (cx_parser c) = s_chunk_size_almost_done \<Longrightarrow> result_ok (exec_chunk_size_almost_done ch c)"
    using assms by (simp add: exec_chunk_size_almost_done_def facts Let_def)
  show "ps_state (cx_parser c) = s_chunk_data_done \<Longrightarrow> result_ok (exec_chunk_data_done ch c)"
    using assms by (simp add: exec_chunk_data_done_def facts)
qed


section \<open>The whole parser\<close>

text \<open>States with neither a mark nor a condition of their own.\<close>

definition plain_states :: "state list" where
  "plain_states = [s_res_H, s_res_HT, s_res_HTT, s_res_HTTP, s_res_first_http_major, s_res_http_major, s_res_first_http_minor,
     s_res_http_minor, s_res_line_almost_done, s_req_http_start, s_req_http_H, s_req_http_HT, s_req_http_HTT, s_req_http_HTTP,
     s_req_first_http_major, s_req_http_major, s_req_first_http_minor, s_req_http_minor, s_req_line_almost_done,
     s_header_field_start, s_header_almost_done, s_header_value_lws, s_header_value_discard_ws_almost_done,
     s_header_value_discard_lws]"

lemma plain_goto_ok:
  assumes "switch_ok c" "ps_state (cx_parser c) \<in> set plain_states" "s \<in> set plain_states"
  shows "cfg_ok (goto s c)"
proof -
  have "s' \<notin> set (mark_states m)" if "s' \<in> set plain_states" for s' m
    by (cases s'; cases m) (use that in \<open>simp_all add: plain_states_def mark_states_def url_states_def\<close>)
  then have marks: "cx_marks c = Map.empty" using unmarked_state assms(1,2) by blast
  have "state_ok q" if "ps_state q = s" for q
    by (cases s) (use assms(3) that in \<open>simp_all add: plain_states_def state_ok_def\<close>)
  then show ?thesis using assms(1) marks by (simp add: cfg_ok_def parser_ok_def switch_ok_def marks_ok_iff)
qed

lemma fixed_switch_ok:
  assumes "switch_ok c" "ps_state (cx_parser c) \<in> set plain_states" "s \<in> set plain_states"
  shows "result_ok (strict_char e s ch c)" "result_ok (exec_first_major n s ch c)" "result_ok (exec_first_minor s ch c)"
proof -
  have "cfg_ok (goto s c)" using assms by (rule plain_goto_ok)
  then show "result_ok (strict_char e s ch c)" "result_ok (exec_first_major n s ch c)" "result_ok (exec_first_minor s ch c)"
    by (simp_all add: handler_defs cfg_ok_def parser_ok_def state_ok_def marks_ok_iff cong: state.case_cong)
qed

lemma request_line_switch_ok:
  assumes "switch_ok c"
  shows "ps_state (cx_parser c) = s_req_http_start \<Longrightarrow> result_ok (exec_req_http_start ch c)"
    and "ps_state (cx_parser c) = s_req_line_almost_done \<Longrightarrow> result_ok (exec_req_line_almost_done ch c)"
  using assms by (simp_all add: handler_defs inv_defs)

lemmas switch_ok_lemmas = start_switch_ok first_line_switch_ok start_req_switch_ok req_method_switch_ok req_url_switch_ok
  header_field_switch_ok header_start_switch_ok header_value_discard_ws_switch_ok header_value_switch_ok
  header_value_discard_lws_switch_ok headers_end_switch_ok body_switch_ok chunk_switch_ok fixed_switch_ok request_line_switch_ok

lemma exec_switch_ok: "switch_ok c \<Longrightarrow> result_ok (exec_switch S ch c)"
  by (cases "ps_state (cx_parser c)") (simp_all add: exec_switch_def switch_ok_lemmas url_states_def plain_states_def)


lemma exec_reexec_ok: "switch_ok c \<Longrightarrow> result_ok (exec_reexec S ch c) \<and> (\<forall>c'. exec_reexec S ch c \<noteq> Reexec c')"
proof (induction S ch c rule: exec_reexec.induct)
  case (1 S ch c)
  show ?case
  proof (cases "exec_switch S ch c")
    case (Reexec c')
    then have "switch_ok c'" using exec_switch_ok[OF "1.prems", of S ch] by simp
    then show ?thesis using "1.IH"[OF Reexec] Reexec by (simp add: exec_reexec.simps[of S ch c])
  qed (use exec_switch_ok[OF "1.prems", of S ch] in \<open>simp_all add: exec_reexec.simps[of S ch c]\<close>)
qed

lemma PARSING_HEADER_chunk [simp]: "PARSING_HEADER s_chunk_size_start"
  by (simp add: PARSING_HEADER_def)

lemma counted_switch_ok:
  assumes "cfg_ok c" "cx_rest c \<noteq> []"
  shows "PARSING_HEADER (ps_state (cx_parser c)) \<Longrightarrow> Suc (ps_nread (cx_parser c)) mod 4294967296 \<le> HTTP_MAX_HEADER_SIZE \<Longrightarrow>
      switch_ok (upd (\<lambda>q. q\<lparr>ps_nread := Suc (ps_nread q) mod 4294967296\<rparr>) c)"
    and "\<not> PARSING_HEADER (ps_state (cx_parser c)) \<Longrightarrow> switch_ok c"
proof -
  show "PARSING_HEADER (ps_state (cx_parser c)) \<Longrightarrow> Suc (ps_nread (cx_parser c)) mod 4294967296 \<le> HTTP_MAX_HEADER_SIZE \<Longrightarrow>
      switch_ok (upd (\<lambda>q. q\<lparr>ps_nread := Suc (ps_nread q) mod 4294967296\<rparr>) c)"
    using assms
    by (cases "ps_state (cx_parser c)") (simp_all add: switch_ok_def cfg_ok_def parser_ok_def marks_ok_def state_ok_def)
  assume "\<not> PARSING_HEADER (ps_state (cx_parser c))"
  then have "ps_state (cx_parser c) \<noteq> s_chunk_size_start" by (metis PARSING_HEADER_chunk)
  then show "switch_ok c" using assms by (simp add: switch_ok_def cfg_ok_def parser_ok_def)
qed

lemma exec_byte_ok:
  assumes "cfg_ok c" "cx_rest c \<noteq> []"
  shows "result_ok (exec_byte S ch c) \<and> (\<forall>c'. exec_byte S ch c \<noteq> Reexec c')"
proof (cases "PARSING_HEADER (ps_state (cx_parser c))")
  case True
  then show ?thesis
    using counted_switch_ok(1)[OF assms] exec_reexec_ok[of "upd (\<lambda>q. q\<lparr>ps_nread := Suc (ps_nread q) mod 4294967296\<rparr>) c" S ch]
    by (simp add: exec_byte_def Let_def)
next
  case False
  then show ?thesis using counted_switch_ok(2)[OF assms] exec_reexec_ok[of c S ch] by (simp add: exec_byte_def)
qed

lemma cfg_ok_advance [simp]: "cfg_ok (advance k c) \<longleftrightarrow> cfg_ok c"
  by (simp add: cfg_ok_def marks_ok_iff advance_def)

lemma exec_loop_ok: "cfg_ok c \<Longrightarrow> result_ok (exec_loop S c) \<and> (\<forall>c'. exec_loop S c \<noteq> Reexec c')"
proof (induction S c rule: exec_loop.induct)
  case (1 S c)
  show ?case
  proof (cases "cx_rest c")
    case Nil
    then show ?thesis using "1.prems" by (simp add: exec_loop.simps[of S c])
  next
    case (Cons ch cs)
    then have byte: "result_ok (exec_byte S ch c) \<and> (\<forall>c'. exec_byte S ch c \<noteq> Reexec c')"
      using exec_byte_ok[OF "1.prems"] by simp
    show ?thesis
    proof (cases "exec_byte S ch c")
      case (Break c')
      then show ?thesis using "1.IH"[OF Cons Break] byte Cons by (simp add: exec_loop.simps[of S c])
    qed (use byte Cons in \<open>simp_all add: exec_loop.simps[of S c]\<close>)
  qed
qed

lemma mark_states_disjoint: "s \<in> set (mark_states m) \<and> s \<in> set (mark_states m') \<Longrightarrow> m = m'"
  by (cases s; cases m; cases m'; simp add: mark_states_def url_states_def)

lemma one_mark: "marks_ok c \<Longrightarrow> cx_marks c m \<noteq> None \<Longrightarrow> cx_marks c m' \<noteq> None \<Longrightarrow> m = m'"
  unfolding marks_ok_def by (rule mark_states_disjoint[of "ps_state (cx_parser c)"]) blast

lemma flush_one:
  assumes "ps_errno (cx_parser c) = HPE_OK" "cx_marks c m = Some t" "\<And>m'. m' \<noteq> m \<Longrightarrow> cx_marks c m' = None"
  shows "flush_marks S c =
    (case on_data S m (cx_parser c) t (cx_user c) of
       (u, r) \<Rightarrow>
         if r \<noteq> 0 then Return (cx_n c) (set_errno (data_error m) (c\<lparr>cx_user := u\<rparr>))
         else Return (cx_n c) (c\<lparr>cx_user := u, cx_marks := (cx_marks c)(m := None)\<rparr>))"
  using assms by (cases m) (simp_all add: flush_marks_def callback_data_def Let_def split: prod.split)

lemma flush_none:
  assumes "ps_errno (cx_parser c) = HPE_OK" "\<And>m. cx_marks c m = None"
  shows "flush_marks S c = Return (cx_n c) c"
  using assms by (simp add: flush_marks_def callback_data_def)

lemma flush_marks_ok:
  assumes "cfg_ok c"
  obtains c' where "flush_marks S c = Return (cx_n c) c'" "quiet (ps_errno (cx_parser c'))"
    "ps_errno (cx_parser c') = HPE_OK \<longrightarrow> parser_ok (cx_parser c')"
proof (cases "\<exists>m. cx_marks c m \<noteq> None")
  case True
  then obtain m t where m: "cx_marks c m = Some t" by blast
  have others: "cx_marks c m' = None" if "m' \<noteq> m" for m'
    using one_mark[of c m m'] assms m that by (cases "cx_marks c m'") (simp_all add: cfg_ok_def)
  obtain u r where "on_data S m (cx_parser c) t (cx_user c) = (u, r)" by (rule prod.exhaust)
  then have eq: "flush_marks S c =
      (if r \<noteq> 0 then Return (cx_n c) (set_errno (data_error m) (c\<lparr>cx_user := u\<rparr>))
       else Return (cx_n c) (c\<lparr>cx_user := u, cx_marks := (cx_marks c)(m := None)\<rparr>))"
    using flush_one[OF _ m others, of S] assms by (simp add: cfg_ok_def parser_ok_def)
  have "data_error m \<noteq> HPE_OK" "quiet (data_error m)" by (cases m; simp)+
  then show ?thesis using assms by (cases "r = 0") (simp_all add: eq cfg_ok_def parser_ok_def that)
next
  case False
  then have "flush_marks S c = Return (cx_n c) c" using flush_none[of c S] assms by (simp add: cfg_ok_def parser_ok_def)
  then show ?thesis using assms by (simp add: cfg_ok_def parser_ok_def that)
qed

text \<open>A parser that \<open>http_parser_execute\<close> may be called on again.\<close>

definition resumable :: "http_parser \<Rightarrow> bool" where
  "resumable q \<longleftrightarrow> (ps_errno q = HPE_OK \<longrightarrow> parser_ok q)"

lemma init_resumable: "resumable (http_parser_init t)"
  by (simp add: resumable_def parser_ok_def http_parser_init_def ULLONG_MAX_def HTTP_MAX_HEADER_SIZE_def state_ok_def)

lemma initial_cfg_ok: "parser_ok q \<Longrightarrow> cfg_ok (initial_cfg q bytes u)"
  by (simp add: cfg_ok_def initial_cfg_def marks_ok_iff initial_marks_def)

lemma execute_resumable:
  assumes "resumable q"
  obtains n q' u' where "http_parser_execute S q bytes u = Executed n q' u'" "resumable q'"
proof -
  have "\<exists>n q' u'. http_parser_execute S q bytes u = Executed n q' u' \<and> resumable q'"
  proof (cases "ps_errno q = HPE_OK \<and> bytes \<noteq> []")
    case False
    then show ?thesis using assms
      by (cases "ps_state q"; cases "on_notify S N_message_complete q u")
         (simp_all add: http_parser_execute_def resumable_def)
  next
    case True
    let ?out = "exec_loop S (initial_cfg q bytes u)"
    have cfg: "cfg_ok (initial_cfg q bytes u)" using assms True by (simp add: resumable_def initial_cfg_ok)
    have "\<exists>n q' u'. exec_result_of S ?out = Executed n q' u' \<and> resumable q'"
    proof (cases ?out)
      case (Break c)
      then have "cfg_ok c" using exec_loop_ok[OF cfg, of S] by simp
      then show ?thesis using Break by (rule_tac flush_marks_ok[of c S]) (simp_all add: exec_result_of_def resumable_def)
    qed (use exec_loop_ok[OF cfg, of S] in \<open>simp_all add: exec_result_of_def resumable_def cfg_ok_def quiet_OK\<close>)
    then show ?thesis using True by (simp add: http_parser_execute_def)
  qed
  then show ?thesis using that by blast
qed


text \<open>The parser is fed one piece of the stream after the other.\<close>

primrec feed :: "'u settings \<Rightarrow> http_parser \<Rightarrow> string list \<Rightarrow> 'u \<Rightarrow> 'u exec_result" where
  "feed S q [] u = Executed 0 q u"
| "feed S q (b # bs) u =
     (case http_parser_execute S q b u of Executed n q' u' \<Rightarrow> feed S q' bs u' | Aborted \<Rightarrow> Aborted)"

lemma feed_resumable:
  "resumable q \<Longrightarrow> \<exists>n q' u'. feed S q pieces u = Executed n q' u' \<and> resumable q'"
proof (induction pieces arbitrary: q u)
  case (Cons b bs)
  obtain n q' u' where "http_parser_execute S q b u = Executed n q' u'" "resumable q'"
    by (rule execute_resumable[OF Cons.prems])
  then show ?case using Cons.IH[of q' u'] by simp
qed simp

text \<open>\<^bold>\<open>C31\<close>. However the bytes of a connection arrive and whatever the callbacks answer, a parser that starts
  from \<open>http_parser_init\<close> never fails an assertion and never reads a method name behind its end; as long as it
  reports no error, the bytes of the current header section are within the limit of 80 KB and every counter is
  in its range.\<close>

theorem parser_never_aborts:
  "\<exists>n q u'. feed S (http_parser_init t) pieces u = Executed n q u' \<and>
     (ps_errno q = HPE_OK \<longrightarrow>
        ps_nread q \<le> HTTP_MAX_HEADER_SIZE \<and> ps_content_length q \<le> ULLONG_MAX \<and>
        (ps_state q = s_body_identity \<longrightarrow> 0 < ps_content_length q) \<and>
        (ps_state q \<in> {s_chunk_size_start, s_chunk_size, s_chunk_data, s_chunk_data_done} \<longrightarrow> f_chunked q))"
proof -
  obtain n q u' where "feed S (http_parser_init t) pieces u = Executed n q u'" "resumable q"
    using feed_resumable[OF init_resumable, of S t pieces u] by blast
  then show ?thesis
    by (intro exI[of _ n] exI[of _ q] exI[of _ u']) (auto simp: resumable_def parser_ok_def state_ok_def)
qed

definition text_settings :: "string settings" where
  "text_settings = \<lparr>on_data = (\<lambda>m q s u. (u @ s, 0)), on_notify = (\<lambda>n q u. (u, 0))\<rparr>"

lemma wit_feed:
  "case feed text_settings (http_parser_init HTTP_REQUEST) [''GET /a HT'', ''TP/1.1''] [] of
     Executed n q u \<Rightarrow> u = ''/a'' \<and> ps_errno q = HPE_OK \<and> ps_nread q = 15 | Aborted \<Rightarrow> False"
  by code_simp

theorem parser_never_aborts_witness:
  "case feed text_settings (http_parser_init HTTP_REQUEST) [''GET /a HT'', ''TP/1.1''] [] of
     Executed n q u \<Rightarrow> u = ''/a'' \<and> ps_nread q = 15 \<and> ps_nread q \<le> HTTP_MAX_HEADER_SIZE | Aborted \<Rightarrow> False"
  using parser_never_aborts[of text_settings HTTP_REQUEST "[''GET /a HT'', ''TP/1.1'']" "[]"] wit_feed
  by (auto split: exec_result.splits)

end
