(* ===== verification/Http_Parser_Stream.thy ===== *)
theory Http_Parser_Stream
  imports Http_Parser_Safety
begin

text \<open>
  The way the bytes of a connection are cut into pieces does not matter: a parser that is fed the pieces reports
  the same message as one that is fed the whole text.
\<close>

section \<open>Bytes ahead and bytes before\<close>

text \<open>The same configuration in front of other bytes, \<open>k\<close> bytes later.\<close>

definition shift :: "string \<Rightarrow> nat \<Rightarrow> 'u cfg \<Rightarrow> 'u cfg" where
  "shift r k c = c\<lparr>cx_rest := r, cx_n := k + cx_n c\<rparr>"

primrec shift_out :: "string \<Rightarrow> nat \<Rightarrow> 'u outcome \<Rightarrow> 'u outcome" where
  "shift_out r k (Break c) = Break (shift r k c)"
| "shift_out r k (Reexec c) = Reexec (shift r k c)"
| "shift_out r k (Error e c) = Error e (shift r k c)"
| "shift_out r k (Return n c) = Return (k + n) (shift r k c)"
| "shift_out r k Abort = Abort"

definition bulk_states :: "state list" where
  "bulk_states = [s_body_identity, s_body_identity_eof, s_chunk_data]"

lemma shift_simps [simp]:
  "cx_parser (shift r k c) = cx_parser c" "cx_user (shift r k c) = cx_user c" "cx_marks (shift r k c) = cx_marks c"
  "cx_rest (shift r k c) = r" "cx_n (shift r k c) = k + cx_n c"
  by (simp_all add: shift_def)

lemma shift_commute [simp]:
  "upd f (shift r k c) = shift r k (upd f c)" "goto s (shift r k c) = shift r k (goto s c)"
  "set_errno e (shift r k c) = shift r k (set_errno e c)" "set_mark m (shift r k c) = shift r k (set_mark m c)"
  "new_headers (shift r k c) = shift r k (new_headers c)"
  "(shift r k c)\<lparr>cx_user := u\<rparr> = shift r k (c\<lparr>cx_user := u\<rparr>)"
  "(shift r k c)\<lparr>cx_marks := ms\<rparr> = shift r k (c\<lparr>cx_marks := ms\<rparr>)"
  by (simp_all add: shift_def upd_def goto_def set_errno_def set_mark_def new_headers_def)

lemma shift_shift [simp]: "shift r k (shift r' k' c) = shift r (k + k') c"
  by (simp add: shift_def)

lemma shift_notify:
  assumes "\<And>u. K (shift r k (c\<lparr>cx_user := u\<rparr>)) = shift_out r k (K' (c\<lparr>cx_user := u\<rparr>))" "er = k + er'"
  shows "notify S n er (shift r k c) K = shift_out r k (notify S n er' c K')"
  using assms by (simp add: notify_def Let_def split: prod.split)

lemma shift_callback_data:
  assumes "\<And>u ms. K (shift r k (c\<lparr>cx_user := u, cx_marks := ms\<rparr>)) = shift_out r k (K' (c\<lparr>cx_user := u, cx_marks := ms\<rparr>))"
    "K (shift r k c) = shift_out r k (K' c)" "er = k + er'"
  shows "callback_data S m extra er (shift r k c) K = shift_out r k (callback_data S m extra er' c K')"
  using assms by (simp add: callback_data_def Let_def split: prod.split option.split)

lemma shift_message_complete:
  assumes "\<And>u s. K (shift r k ((goto s c)\<lparr>cx_user := u\<rparr>)) = shift_out r k (K' ((goto s c)\<lparr>cx_user := u\<rparr>))" "er = k + er'"
  shows "message_complete S er (shift r k c) K = shift_out r k (message_complete S er' c K')"
  using assms by (simp add: message_complete_def shift_notify)

lemma shift_switch:
  assumes "ps_state (cx_parser c) \<notin> set bulk_states"
  shows "exec_switch S ch (shift r k c) = shift_out r k (exec_switch S ch c)"
  by (cases "ps_state (cx_parser c)")
     (use assms in \<open>simp_all add: bulk_states_def exec_switch_def handler_defs Let_def shift_notify shift_callback_data
       shift_message_complete split: option.split prod.split header_states.split\<close>)


definition no_bulk :: "'u outcome \<Rightarrow> bool" where
  "no_bulk out = (case out of Reexec c \<Rightarrow> ps_state (cx_parser c) \<notin> set bulk_states | _ \<Rightarrow> True)"

lemma no_bulk_simps [simp]:
  "no_bulk (Break c)" "no_bulk (Reexec c) \<longleftrightarrow> ps_state (cx_parser c) \<notin> set bulk_states" "no_bulk (Error e c)"
  "no_bulk (Return n c)" "no_bulk Abort"
  by (simp_all add: no_bulk_def)

lemma no_bulk_notify: "(\<And>u. no_bulk (K (c\<lparr>cx_user := u\<rparr>))) \<Longrightarrow> no_bulk (notify S n er c K)"
  by (simp add: notify_def Let_def split: prod.split)

lemma no_bulk_callback_data:
  "(\<And>u ms. no_bulk (K (c\<lparr>cx_user := u, cx_marks := ms\<rparr>))) \<Longrightarrow> no_bulk (K c) \<Longrightarrow> no_bulk (callback_data S m extra er c K)"
  by (simp add: callback_data_def Let_def split: prod.split option.split)

lemma no_bulk_message_complete: "(\<And>u s. no_bulk (K ((goto s c)\<lparr>cx_user := u\<rparr>))) \<Longrightarrow> no_bulk (message_complete S er c K)"
  by (simp add: message_complete_def no_bulk_notify)

lemma no_bulk_switch: "no_bulk (exec_switch S ch c)"
  by (cases "ps_state (cx_parser c)")
     (simp_all add: bulk_states_def exec_switch_def handler_defs Let_def no_bulk_notify no_bulk_callback_data
       no_bulk_message_complete split: option.split prod.split header_states.split)

lemma shift_reexec:
  "ps_state (cx_parser c) \<notin> set bulk_states \<Longrightarrow> exec_reexec S ch (shift r k c) = shift_out r k (exec_reexec S ch c)"
proof (induction S ch c rule: exec_reexec.induct)
  case (1 S ch c)
  note sw = shift_switch[OF "1.prems", of S ch r k]
  show ?case
  proof (cases "exec_switch S ch c")
    case (Reexec c')
    then have "ps_state (cx_parser c') \<notin> set bulk_states" using no_bulk_switch[of S ch c] by simp
    then show ?thesis using "1.IH"[OF Reexec] sw Reexec by (simp add: exec_reexec.simps[of S ch])
  qed (use sw in \<open>simp_all add: exec_reexec.simps[of S ch]\<close>)
qed

lemma shift_byte:
  assumes "ps_state (cx_parser c) \<notin> set bulk_states"
  shows "exec_byte S ch (shift r k c) = shift_out r k (exec_byte S ch c)"
  using assms shift_reexec[OF assms, of S ch r k]
    shift_reexec[of "upd (\<lambda>q. q\<lparr>ps_nread := (ps_nread q + 1) mod 2 ^ 32\<rparr>) c" S ch r k]
  by (simp add: exec_byte_def Let_def)

text \<open>The three states that take many bytes at once.\<close>

lemma not_header_bulk: "s \<in> set bulk_states \<Longrightarrow> \<not> PARSING_HEADER s"
  by (auto simp: bulk_states_def PARSING_HEADER_def)

lemma exec_byte_identity:
  assumes "ps_state (cx_parser c) = s_body_identity"
  shows "exec_byte S ch c = (case exec_body_identity S c of Reexec c' \<Rightarrow> exec_message_done S c' | out \<Rightarrow> out)"
proof -
  have next_state: "ps_state (cx_parser c') = s_message_done" if "exec_body_identity S c = Reexec c'" for c'
    using that by (auto simp: exec_body_identity_def Let_def callback_data_def split: if_splits option.splits prod.splits)
  have "exec_reexec S ch c' = exec_message_done S c'" if "ps_state (cx_parser c') = s_message_done" for c' :: "'a cfg"
    using that by (simp add: exec_reexec.simps[of S ch c'] exec_switch_def exec_message_done_def message_complete_def notify_def
        Let_def split: prod.split)
  then show ?thesis using assms next_state
    by (simp add: exec_byte_def not_header_bulk bulk_states_def exec_reexec.simps[of S ch c] exec_switch_def
        split: outcome.split)
qed

lemma exec_byte_chunk_data:
  assumes "ps_state (cx_parser c) = s_chunk_data"
  shows "exec_byte S ch c = exec_chunk_data c"
  using assms by (simp add: exec_byte_def not_header_bulk bulk_states_def exec_reexec.simps[of S ch c] exec_switch_def
      exec_chunk_data_def Let_def)

lemma exec_byte_identity_eof:
  assumes "ps_state (cx_parser c) = s_body_identity_eof"
  shows "exec_byte S ch c = exec_body_identity_eof c"
  using assms by (simp add: exec_byte_def not_header_bulk bulk_states_def exec_reexec.simps[of S ch c] exec_switch_def
      exec_body_identity_eof_def)


lemma advance_0 [simp]: "advance 0 c = c"
  by (simp add: advance_def option.map_ident)

lemma advance_advance: "advance j (advance i c) = advance (i + j) c"
  by (simp add: advance_def option.map_comp comp_def take_add add.commute add.left_commute)

lemma advance_upd: "advance k (upd f c) = upd f (advance k c)"
  by (simp add: advance_def upd_def)

lemma advance_set_mark:
  "set_mark m (advance k (set_mark m c)) = advance k (set_mark m c)"
  by (cases "cx_marks c m") (simp_all add: set_mark_def advance_def)

lemma set_mark_upd: "set_mark m (upd f c) = upd f (set_mark m c)"
  by (simp add: set_mark_def upd_def)

lemma upd_upd: "upd g (upd f c) = upd (\<lambda>q. g (f q)) c"
  by (simp add: upd_def)

text \<open>Reading past one byte only looks at that byte.\<close>

lemma advance_shift: "cx_rest c = b # r \<Longrightarrow> shift r 0 (advance 1 (shift [b] 0 c)) = advance 1 c"
  by (simp add: shift_def advance_def)

lemma take_body_split:
  assumes "cx_rest c = b # r" "r \<noteq> []" "ps_content_length (cx_parser c) > 1"
  shows "take_body (shift r 0 (advance 1 (take_body (shift [b] 0 c)))) = take_body c"
proof -
  let ?cl = "ps_content_length (cx_parser c)"
  define c0 where "c0 = set_mark M_body c"
  have c0: "cx_rest c0 = b # r" "cx_parser c0 = cx_parser c" using assms(1) by (simp_all add: c0_def)
  have "take_body (shift [b] 0 c) = upd (\<lambda>q. q\<lparr>ps_content_length := ps_content_length q - 1\<rparr>) (shift [b] 0 c0)"
    using assms(3) by (simp add: take_body_def Let_def c0_def min_def)
  then have one: "shift r 0 (advance 1 (take_body (shift [b] 0 c))) =
      upd (\<lambda>q. q\<lparr>ps_content_length := ps_content_length q - 1\<rparr>) (advance 1 c0)"
    using advance_shift[OF c0(1)] by (simp only: advance_upd shift_commute(1)[symmetric])
  have marked: "set_mark M_body (advance 1 c0) = advance 1 c0" by (simp only: c0_def advance_set_mark)
  have k: "min (?cl - 1) (length r) - 1 + 1 = min ?cl (Suc (length r)) - 1" "min (?cl - 1) (length r) + 1 = min ?cl (Suc (length r))"
    using assms(2,3) by (cases r; auto simp: min_def)+
  show ?thesis
    unfolding one using k c0 assms(1)
    by (simp add: take_body_def Let_def set_mark_upd marked[unfolded One_nat_def] advance_upd upd_upd advance_advance c0_def[symmetric])
qed


lemma take_body_last:
  assumes "cx_rest c = b # r" "ps_content_length (cx_parser c) = 1"
  shows "take_body c = shift (b # r) 0 (take_body (shift [b] 0 c))"
  using assms by (simp add: take_body_def Let_def shift_def upd_def set_mark_def)

lemma exec_byte_rest: "ps_state (cx_parser c) \<notin> set bulk_states \<Longrightarrow> exec_byte S ch (shift [b] 0 c) = Break c' \<Longrightarrow> cx_rest c' = [b]"
proof -
  assume s: "ps_state (cx_parser c) \<notin> set bulk_states" and br: "exec_byte S ch (shift [b] 0 c) = Break c'"
  have "exec_byte S ch (shift [b] 0 c) = shift_out [b] 0 (exec_byte S ch c)" using s by (rule shift_byte)
  then show "cx_rest c' = [b]" using br by (cases "exec_byte S ch c") auto
qed

lemma identity_byte:
  assumes "cx_rest c = b # r" "r \<noteq> []" "ps_content_length (cx_parser c) \<le> ULLONG_MAX" "ps_state (cx_parser c) = s_body_identity"
  shows "(exec_byte S b c = shift_out (b # r) 0 (exec_byte S b (shift [b] 0 c)) \<and>
      (\<forall>c'. exec_byte S b (shift [b] 0 c) = Break c' \<longrightarrow> cx_rest c' = [b])) \<or>
    (\<exists>c1. exec_byte S b (shift [b] 0 c) = Break c1 \<and> exec_byte S b2 (shift r 0 (advance 1 c1)) = exec_byte S b c)"
proof -
  let ?cl = "ps_content_length (cx_parser c)" and ?d = "shift [b] 0 c"
  consider "?cl = 0 \<or> ?cl = ULLONG_MAX" | "?cl = 1" "?cl \<noteq> ULLONG_MAX" | "1 < ?cl" "?cl < ULLONG_MAX"
    using assms(3) by linarith
  then show ?thesis
  proof cases
    case 1
    then show ?thesis using assms(4) by (auto simp: exec_byte_identity exec_body_identity_def)
  next
    case 2
    have tb: "take_body c = shift (b # r) 0 (take_body ?d)" by (rule take_body_last[OF assms(1) 2(1)])
    have rest: "cx_rest (take_body ?d) = [b]" using 2 by (simp add: take_body_def Let_def)
    have md: "exec_message_done S (shift (b # r) 0 c') = shift_out (b # r) 0 (exec_message_done S c')" for c'
      by (simp add: exec_message_done_def shift_message_complete)
    have "exec_body_identity S c = shift_out (b # r) 0 (exec_body_identity S ?d)"
      using 2 assms(1) rest by (simp add: exec_body_identity_def Let_def tb shift_callback_data)
    then have "exec_byte S b c = shift_out (b # r) 0 (exec_byte S b ?d)"
      using assms(4) md by (cases "exec_body_identity S ?d") (simp_all add: exec_byte_identity)
    moreover have "cx_rest c' = [b]" if "exec_byte S b ?d = Break c'" for c'
      using that 2 rest assms(4)
      by (auto simp: exec_byte_identity exec_body_identity_def Let_def callback_data_def exec_message_done_def
          message_complete_def notify_def split: option.splits prod.splits if_splits)
    ultimately show ?thesis by blast
  next
    case 3
    have one: "exec_byte S b ?d = Break (take_body ?d)"
      using 3 assms(4) by (simp add: exec_byte_identity exec_body_identity_def Let_def)
    have "?cl - 1 \<noteq> 0" "?cl - 1 \<noteq> ULLONG_MAX" using 3 by linarith+
    then have "exec_body_identity S (shift r 0 (advance 1 (take_body ?d))) = exec_body_identity S c"
      using 3 take_body_split[OF assms(1,2) 3(1)] by (simp add: exec_body_identity_def Let_def)
    then show ?thesis using one assms(4) by (simp add: exec_byte_identity)
  qed
qed

lemma chunk_byte:
  assumes "cx_rest c = b # r" "r \<noteq> []" "ps_content_length (cx_parser c) \<le> ULLONG_MAX" "ps_state (cx_parser c) = s_chunk_data"
  shows "(exec_byte S b c = shift_out (b # r) 0 (exec_byte S b (shift [b] 0 c)) \<and>
      (\<forall>c'. exec_byte S b (shift [b] 0 c) = Break c' \<longrightarrow> cx_rest c' = [b])) \<or>
    (\<exists>c1. exec_byte S b (shift [b] 0 c) = Break c1 \<and> exec_byte S b2 (shift r 0 (advance 1 c1)) = exec_byte S b c)"
proof -
  let ?cl = "ps_content_length (cx_parser c)" and ?d = "shift [b] 0 c"
  consider "\<not> f_chunked (cx_parser c) \<or> ?cl = 0 \<or> ?cl = ULLONG_MAX" | "f_chunked (cx_parser c)" "?cl = 1" "?cl \<noteq> ULLONG_MAX"
    | "f_chunked (cx_parser c)" "1 < ?cl" "?cl < ULLONG_MAX"
    using assms(3) by linarith
  then show ?thesis
  proof cases
    case 1
    then show ?thesis using assms(4) by (auto simp: exec_byte_chunk_data exec_chunk_data_def Let_def)
  next
    case 2
    have tb: "take_body c = shift (b # r) 0 (take_body ?d)" by (rule take_body_last[OF assms(1) 2(2)])
    have rest: "cx_rest (take_body ?d) = [b]" using 2 by (simp add: take_body_def Let_def)
    show ?thesis using 2 assms(4) rest tb assms(1) by (simp add: exec_byte_chunk_data exec_chunk_data_def Let_def)
  next
    case 3
    have one: "exec_byte S b ?d = Break (take_body ?d)"
      using 3 assms(4) by (simp add: exec_byte_chunk_data exec_chunk_data_def Let_def)
    have "?cl - 1 \<noteq> 0" "?cl - 1 \<noteq> ULLONG_MAX" using 3 by linarith+
    then have "exec_chunk_data (shift r 0 (advance 1 (take_body ?d))) = exec_chunk_data c"
      using 3 take_body_split[OF assms(1,2) 3(2)] by (simp add: exec_chunk_data_def Let_def)
    then show ?thesis using one assms(4) by (simp add: exec_byte_chunk_data)
  qed
qed

lemma eof_byte:
  assumes "cx_rest c = b # r" "r \<noteq> []" "ps_state (cx_parser c) = s_body_identity_eof"
  shows "\<exists>c1. exec_byte S b (shift [b] 0 c) = Break c1 \<and> exec_byte S b2 (shift r 0 (advance 1 c1)) = exec_byte S b c"
proof -
  define c0 where "c0 = set_mark M_body c"
  have c0: "cx_rest c0 = b # r" "ps_state (cx_parser c0) = s_body_identity_eof" using assms by (simp_all add: c0_def)
  have "exec_byte S b (shift [b] 0 c) = Break (shift [b] 0 c0)"
    using assms by (simp add: exec_byte_identity_eof exec_body_identity_eof_def c0_def)
  moreover have "exec_byte S b2 (shift r 0 (advance 1 (shift [b] 0 c0))) = Break (advance (length r - 1) (set_mark M_body (advance 1 c0)))"
    unfolding advance_shift[OF c0(1)] using c0 by (simp add: exec_byte_identity_eof exec_body_identity_eof_def)
  moreover have "advance (length r - 1) (set_mark M_body (advance 1 c0)) = advance (length r) c0"
    using assms(2) by (cases r) (simp_all add: c0_def advance_set_mark[of _ "Suc 0"] advance_advance)
  moreover have "exec_byte S b c = Break (advance (length r) c0)"
    using assms by (simp add: exec_byte_identity_eof exec_body_identity_eof_def c0_def)
  ultimately show ?thesis by metis
qed

lemma bulk_byte:
  assumes "cx_rest c = b # r" "r \<noteq> []" "ps_content_length (cx_parser c) \<le> ULLONG_MAX" "ps_state (cx_parser c) \<in> set bulk_states"
  shows "(exec_byte S b c = shift_out (b # r) 0 (exec_byte S b (shift [b] 0 c)) \<and>
      (\<forall>c'. exec_byte S b (shift [b] 0 c) = Break c' \<longrightarrow> cx_rest c' = [b])) \<or>
    (\<exists>c1. exec_byte S b (shift [b] 0 c) = Break c1 \<and> exec_byte S b2 (shift r 0 (advance 1 c1)) = exec_byte S b c)"
proof -
  consider "ps_state (cx_parser c) = s_body_identity" | "ps_state (cx_parser c) = s_body_identity_eof"
    | "ps_state (cx_parser c) = s_chunk_data"
    using assms(4) by (auto simp: bulk_states_def)
  then show ?thesis
    by cases (use identity_byte[OF assms(1-3)] chunk_byte[OF assms(1-3)] eof_byte[OF assms(1,2)] in blast)+
qed

text \<open>The next byte is handled as if it were the last one of its piece.\<close>

lemma exec_loop_single:
  assumes "cx_rest c = b # r" "r \<noteq> []" "ps_content_length (cx_parser c) \<le> ULLONG_MAX"
  shows "exec_loop S c =
    (case exec_byte S b (shift [b] 0 c) of
       Break c' \<Rightarrow> exec_loop S (shift r 0 (advance 1 c')) | out \<Rightarrow> shift_out (b # r) 0 out)"
proof -
  have c: "c = shift (b # r) 0 (shift [b] 0 c)" using assms by (simp add: shift_def)
  obtain b2 r2 where r: "r = b2 # r2" using assms(2) by (cases r) auto
  have unfold: "exec_loop S c = (case exec_byte S b c of Break c' \<Rightarrow> exec_loop S (advance 1 c') | out \<Rightarrow> out)"
    using assms(1) by (simp add: exec_loop.simps[of S c])
  have same: ?thesis if eq: "exec_byte S b c = shift_out (b # r) 0 (exec_byte S b (shift [b] 0 c))"
    and rest: "\<And>c'. exec_byte S b (shift [b] 0 c) = Break c' \<Longrightarrow> cx_rest c' = [b]"
  proof (cases "exec_byte S b (shift [b] 0 c)")
    case (Break c')
    have "advance 1 (shift (b # r) 0 c') = shift r 0 (advance 1 c')"
      using advance_shift[of "shift (b # r) 0 c'" b r] rest[OF Break] by (simp add: shift_def advance_def)
    then show ?thesis using unfold eq Break by simp
  qed (use unfold eq in simp_all)
  have later: ?thesis if "exec_byte S b (shift [b] 0 c) = Break c1" "exec_byte S b2 (shift r 0 (advance 1 c1)) = exec_byte S b c" for c1
    using unfold that r exec_loop.simps[of S "shift r 0 (advance 1 c1)"] by simp
  show ?thesis
  proof (cases "ps_state (cx_parser c) \<in> set bulk_states")
    case False
    have "exec_byte S b c = shift_out (b # r) 0 (exec_byte S b (shift [b] 0 c))"
      using shift_byte[of "shift [b] 0 c" S b "b # r" 0] False c by simp
    then show ?thesis using same exec_byte_rest[OF False] by blast
  next
    case True
    then consider (last) "exec_byte S b c = shift_out (b # r) 0 (exec_byte S b (shift [b] 0 c))"
        "\<And>c'. exec_byte S b (shift [b] 0 c) = Break c' \<Longrightarrow> cx_rest c' = [b]"
      | (more) c1 where "exec_byte S b (shift [b] 0 c) = Break c1" "exec_byte S b2 (shift r 0 (advance 1 c1)) = exec_byte S b c"
      using bulk_byte[OF assms True, of S b2] by blast
    then show ?thesis by cases (use same later in blast)+
  qed
qed


section \<open>A piece and the rest\<close>

text \<open>What matters of an outcome that ends the loop.\<close>

definition same_end :: "'u outcome \<Rightarrow> 'u outcome \<Rightarrow> bool" where
  "same_end o1 o2 \<longleftrightarrow> shift_out [] 0 o1 = shift_out [] 0 o2"

lemma same_end_refl [simp]: "same_end out out"
  by (simp add: same_end_def)

lemma same_end_shift [simp]: "same_end (shift_out r 0 out) out"
  by (cases out) (simp_all add: same_end_def)

lemma cfg_ok_shift [simp]: "cfg_ok (shift r k c) \<longleftrightarrow> cfg_ok c"
  by (simp add: cfg_ok_def marks_ok_iff)

lemma exec_loop_end: "cx_rest c = [] \<Longrightarrow> exec_loop S c = Break c"
  by (simp add: exec_loop.simps[of S c])

lemma exec_loop_append:
  assumes "cfg_ok c" "cx_rest c = a @ b" "a \<noteq> []" "b \<noteq> []"
  shows "same_end (exec_loop S c)
    (case exec_loop S (shift a 0 c) of Break c' \<Rightarrow> exec_loop S (shift b 0 c') | out \<Rightarrow> out)"
  using assms
proof (induction a arbitrary: c)
  case (Cons x a)
  have cl: "ps_content_length (cx_parser c) \<le> ULLONG_MAX" using Cons.prems(1) by (simp add: cfg_ok_def parser_ok_def)
  have whole: "exec_loop S c = (case exec_byte S x (shift [x] 0 c) of
       Break c' \<Rightarrow> exec_loop S (shift (a @ b) 0 (advance 1 c')) | out \<Rightarrow> shift_out (x # a @ b) 0 out)"
    using exec_loop_single[of c x "a @ b" S] Cons.prems cl by simp
  have bytes: "result_ok (exec_byte S x (shift [x] 0 c))" "\<And>c'. exec_byte S x (shift [x] 0 c) \<noteq> Reexec c'"
    using exec_byte_ok[of "shift [x] 0 c" S x] Cons.prems(1) by simp_all
  show ?case
  proof (cases "a = []")
    case True
    have "exec_loop S (shift [x] 0 c) = (case exec_byte S x (shift [x] 0 c) of
        Break c' \<Rightarrow> exec_loop S (advance 1 c') | out \<Rightarrow> out)"
      by (simp add: exec_loop.simps[of S "shift [x] 0 c"])
    moreover have "exec_loop S (advance 1 c') = Break (advance 1 c')" if "exec_byte S x (shift [x] 0 c) = Break c'" for c'
      using outcome_ok_byte[of "shift [x] 0 c" S x] that by (cases "cx_rest c'") (simp_all add: exec_loop_end)
    ultimately show ?thesis using whole True bytes(2) by (cases "exec_byte S x (shift [x] 0 c)") (simp_all add: same_end_def)
  next
    case False
    have part: "exec_loop S (shift (x # a) 0 c) = (case exec_byte S x (shift [x] 0 c) of
       Break c' \<Rightarrow> exec_loop S (shift a 0 (advance 1 c')) | out \<Rightarrow> shift_out (x # a) 0 out)"
      using exec_loop_single[of "shift (x # a) 0 c" x a S] False cl by simp
    show ?thesis
    proof (cases "exec_byte S x (shift [x] 0 c)")
      case (Break c')
      have "cfg_ok (shift (a @ b) 0 (advance 1 c'))" using bytes(1) Break by simp
      then show ?thesis using whole part Break Cons.IH[of "shift (a @ b) 0 (advance 1 c')"] False Cons.prems(4) by simp
    qed (use whole part bytes(2) in \<open>simp_all add: same_end_def\<close>)
  qed
qed simp


section \<open>A mark reported early\<close>

text \<open>
  At the end of a piece the text of a set mark is reported, and the next piece starts with an empty text or,
  for a body, with no mark.  A parser that got both pieces at once still has the whole text to report.
\<close>

definition marked_text :: "string option \<Rightarrow> string" where
  "marked_text t = (case t of Some t \<Rightarrow> t | None \<Rightarrow> [])"

definition behind :: "nat \<Rightarrow> mark \<Rightarrow> string \<Rightarrow> 'u \<Rightarrow> 'u cfg \<Rightarrow> 'u cfg" where
  "behind k m s u d = d\<lparr>cx_n := k + cx_n d, cx_user := u, cx_marks := [m \<mapsto> s @ marked_text (cx_marks d m)]\<rparr>"

definition pending :: "(mark \<Rightarrow> string \<Rightarrow> 'u \<Rightarrow> 'u) \<Rightarrow> nat \<Rightarrow> 'u cfg \<Rightarrow> 'u cfg \<Rightarrow> bool" where
  "pending D k c d \<longleftrightarrow> (\<exists>m s u t. c = behind k m s u d \<and> cx_user d = D m s u \<and> cx_marks d = [m \<mapsto> t])"

definition synced :: "nat \<Rightarrow> 'u cfg \<Rightarrow> 'u cfg \<Rightarrow> bool" where
  "synced k c d \<longleftrightarrow> c = d\<lparr>cx_n := k + cx_n d\<rparr>"

text \<open>The two parsers do the same; once there is an error only the parsers agree.\<close>

definition rel_out :: "(mark \<Rightarrow> string \<Rightarrow> 'u \<Rightarrow> 'u) \<Rightarrow> nat \<Rightarrow> 'u outcome \<Rightarrow> 'u outcome \<Rightarrow> bool" where
  "rel_out D k oc od =
     (case oc of
        Break c \<Rightarrow> (\<exists>d. od = Break d \<and> (synced k c d \<or> pending D k c d))
      | Reexec c \<Rightarrow> (\<exists>d. od = Reexec d \<and> synced k c d)
      | Error e c \<Rightarrow> (\<exists>d. od = Error e d \<and> cx_parser c = cx_parser d \<and> cx_n c = k + cx_n d)
      | Return n c \<Rightarrow> (\<exists>n' d. od = Return n' d \<and> n = k + n' \<and> cx_parser c = cx_parser d \<and> cx_user c = cx_user d)
      | Abort \<Rightarrow> od = Abort)"

lemma rel_out_simps [simp]:
  "rel_out D k (Break c) (Break d) \<longleftrightarrow> synced k c d \<or> pending D k c d"
  "rel_out D k (Reexec c) (Reexec d) \<longleftrightarrow> synced k c d"
  "rel_out D k (Error e c) (Error e d) \<longleftrightarrow> cx_parser c = cx_parser d \<and> cx_n c = k + cx_n d"
  "rel_out D k (Return n c) (Return n' d) \<longleftrightarrow> n = k + n' \<and> cx_parser c = cx_parser d \<and> cx_user c = cx_user d"
  "rel_out D k Abort Abort"
  by (simp_all add: rel_out_def)

lemma marked_text_simps [simp]: "marked_text (Some t) = t" "marked_text None = []"
  by (simp_all add: marked_text_def)

lemma behind_simps [simp]:
  "cx_parser (behind k m s u d) = cx_parser d" "cx_rest (behind k m s u d) = cx_rest d" "cx_n (behind k m s u d) = k + cx_n d"
  "cx_user (behind k m s u d) = u" "cx_marks (behind k m s u d) = [m \<mapsto> s @ marked_text (cx_marks d m)]"
  by (simp_all add: behind_def)

lemma behind_commute [simp]:
  "upd f (behind k m s u d) = behind k m s u (upd f d)" "goto st (behind k m s u d) = behind k m s u (goto st d)"
  by (simp_all add: behind_def upd_def goto_def)

lemma behind_advance: "cx_marks d = [m \<mapsto> t] \<Longrightarrow> advance j (behind k m s u d) = behind k m s u (advance j d)"
  by (rule cfg.equality) (simp_all add: advance_def behind_def fun_eq_iff)

lemma pendingI: "cx_user d = D m s u \<Longrightarrow> cx_marks d = [m \<mapsto> t] \<Longrightarrow> pending D k (behind k m s u d) d"
  unfolding pending_def by blast

lemma pending_upd: "pending D k c d \<Longrightarrow> pending D k (upd f c) (upd f d)"
  unfolding pending_def by (metis behind_commute(1) cfg_simps(3,4))

lemma pending_goto: "pending D k c d \<Longrightarrow> pending D k (goto s c) (goto s d)"
  unfolding goto_def by (rule pending_upd)

lemma pending_sel:
  "pending D k c d \<Longrightarrow> cx_parser c = cx_parser d" "pending D k c d \<Longrightarrow> cx_rest c = cx_rest d"
  "pending D k c d \<Longrightarrow> cx_n c = k + cx_n d"
  unfolding pending_def by auto

lemma pending_advance:
  assumes "pending D k c d"
  shows "pending D k (advance j c) (advance j d)"
proof -
  obtain m s u t where c: "c = behind k m s u d" "cx_user d = D m s u" "cx_marks d = [m \<mapsto> t]"
    using assms unfolding pending_def by blast
  have "cx_marks (advance j d) = [m \<mapsto> t @ take j (cx_rest d)]" using c(3) by (simp add: advance_def fun_eq_iff)
  then show ?thesis using c by (simp add: behind_advance pendingI)
qed

lemma synced_advance: "synced k c d \<Longrightarrow> synced k (advance j c) (advance j d)"
  by (simp add: synced_def advance_def)

lemma synced_shift: "synced k c d \<longleftrightarrow> c = shift (cx_rest d) k d"
  by (simp add: synced_def shift_def)


definition rest_after :: "'u cfg \<Rightarrow> string" where
  "rest_after d =
     (if ps_state (cx_parser d) = s_body_identity \<or> ps_state (cx_parser d) = s_chunk_data then cx_rest (take_body d)
      else if ps_state (cx_parser d) = s_body_identity_eof then drop (length (cx_rest d) - 1) (cx_rest d)
      else cx_rest d)"

lemma advance_later: "advance j (shift (cx_rest d) k d) = shift (drop j (cx_rest d)) k (advance j d)"
  by (simp add: shift_def advance_def)

lemma take_body_later: "take_body (shift (cx_rest d) k d) = shift (cx_rest (take_body d)) k (take_body d)"
proof -
  let ?c = "upd (\<lambda>q. q\<lparr>ps_content_length := ps_content_length q - min (ps_content_length (cx_parser d)) (length (cx_rest d))\<rparr>)
      (set_mark M_body d)"
  show ?thesis using advance_later[of "min (ps_content_length (cx_parser d)) (length (cx_rest d)) - 1" ?c k]
    by (simp add: take_body_def Let_def)
qed

lemma exec_byte_later: "exec_byte S ch (shift (cx_rest d) k d) = shift_out (rest_after d) k (exec_byte S ch d)"
proof -
  consider "ps_state (cx_parser d) \<notin> set bulk_states" | "ps_state (cx_parser d) = s_body_identity"
    | "ps_state (cx_parser d) = s_chunk_data" | "ps_state (cx_parser d) = s_body_identity_eof"
    by (auto simp: bulk_states_def)
  then show ?thesis
  proof cases
    case 1
    then show ?thesis using shift_byte[OF 1] by (auto simp: rest_after_def bulk_states_def)
  next
    case 2
    let ?r = "cx_rest (take_body d)"
    have md: "exec_message_done S (shift ?r k c') = shift_out ?r k (exec_message_done S c')" for c'
      by (simp add: exec_message_done_def shift_message_complete)
    have "exec_body_identity S (shift (cx_rest d) k d) = shift_out ?r k (exec_body_identity S d)"
      by (simp add: exec_body_identity_def Let_def take_body_later shift_callback_data)
    then show ?thesis using 2 md by (cases "exec_body_identity S d") (simp_all add: exec_byte_identity rest_after_def)
  next
    case 3
    then show ?thesis by (simp add: exec_byte_chunk_data exec_chunk_data_def Let_def take_body_later rest_after_def)
  next
    case 4
    then show ?thesis using advance_later[of "length (cx_rest d) - 1" "set_mark M_body d" k]
      by (simp add: exec_byte_identity_eof exec_body_identity_eof_def rest_after_def)
  qed
qed

lemma exec_byte_rest_after:
  assumes "exec_byte S ch d = Break d'"
  shows "cx_rest d' = rest_after d"
  using exec_byte_later[of S ch d 0] assms by (simp add: shift_def) (metis cfg.select_convs(4) cfg.surjective cfg.update_convs(4))

lemma synced_byte:
  assumes "synced k c d"
  shows "rel_out D k (exec_byte S ch c) (exec_byte S ch d)"
proof -
  have "exec_byte S ch c = shift_out (rest_after d) k (exec_byte S ch d)"
    using assms exec_byte_later[of S ch d k] by (simp add: synced_shift)
  moreover have "\<nexists>d'. exec_byte S ch d = Reexec d'" using outcome_ok_byte[of d S ch] by auto
  ultimately show ?thesis using exec_byte_rest_after[of S ch d]
    by (cases "exec_byte S ch d") (simp_all add: synced_shift)
qed


lemma synced_reexec:
  assumes "synced k c d" "ps_state (cx_parser d) \<notin> set bulk_states"
  shows "rel_out D k (exec_reexec S ch c) (exec_reexec S ch d)"
proof -
  have "exec_reexec S ch c = shift_out (cx_rest d) k (exec_reexec S ch d)"
    using assms shift_reexec[OF assms(2), of S ch "cx_rest d" k] by (simp add: synced_shift)
  moreover have "exec_reexec S ch d = shift_out (cx_rest d) 0 (exec_reexec S ch d)"
    using shift_reexec[OF assms(2), of S ch "cx_rest d" 0] by (simp add: shift_def)
  moreover have "\<nexists>d'. exec_reexec S ch d = Reexec d'" using outcome_ok_reexec[of d S ch] by auto
  ultimately show ?thesis by (cases "exec_reexec S ch d") (auto simp: synced_shift dest: arg_cong[where f = cx_rest])
qed

lemma behind_take_body:
  assumes "cx_marks d = [M_body \<mapsto> t]"
  shows "take_body (behind k M_body s u d) = behind k M_body s u (take_body d)"
    and "\<exists>t'. cx_marks (take_body d) = [M_body \<mapsto> t']" and "cx_user (take_body d) = cx_user d"
proof -
  let ?j = "min (ps_content_length (cx_parser d)) (length (cx_rest d))"
  let ?d = "upd (\<lambda>q. q\<lparr>ps_content_length := ps_content_length q - ?j\<rparr>) d"
  have tb: "take_body d = advance (?j - 1) ?d"
    using assms by (simp add: take_body_def Let_def set_mark_def)
  have "take_body (behind k M_body s u d) = advance (?j - 1) (behind k M_body s u ?d)"
    using assms by (simp add: take_body_def Let_def set_mark_def)
  then show "take_body (behind k M_body s u d) = behind k M_body s u (take_body d)"
    using assms behind_advance[of ?d M_body t "?j - 1" k s u] tb by simp
  show "\<exists>t'. cx_marks (take_body d) = [M_body \<mapsto> t']" "cx_user (take_body d) = cx_user d"
    using assms by (auto simp: tb advance_def fun_eq_iff)
qed

text \<open>In the states of a text that is not a body its mark is always set.\<close>

definition marked :: "'u cfg \<Rightarrow> bool" where
  "marked c \<longleftrightarrow>
     (ps_state (cx_parser c) = s_header_field \<longrightarrow> cx_marks c M_header_field \<noteq> None) \<and>
     (ps_state (cx_parser c) = s_header_value \<longrightarrow> cx_marks c M_header_value \<noteq> None) \<and>
     (ps_state (cx_parser c) \<in> set url_states \<longrightarrow> cx_marks c M_url \<noteq> None) \<and>
     (ps_state (cx_parser c) = s_res_status \<longrightarrow> cx_marks c M_status \<noteq> None)"

definition marked_out :: "'u outcome \<Rightarrow> bool" where
  "marked_out out = (case out of Break c \<Rightarrow> marked c | Reexec c \<Rightarrow> marked c | _ \<Rightarrow> True)"

lemma marked_out_simps [simp]:
  "marked_out (Break c) = marked c" "marked_out (Reexec c) = marked c" "marked_out (Error e c)" "marked_out (Return n c)"
  "marked_out Abort"
  by (simp_all add: marked_out_def)

lemma marked_notify: "(\<And>u. marked_out (K (c\<lparr>cx_user := u\<rparr>))) \<Longrightarrow> marked_out (notify S n er c K)"
  by (simp add: notify_def Let_def split: prod.split)

lemma marked_callback_data:
  "(\<And>u ms. marked_out (K (c\<lparr>cx_user := u, cx_marks := ms\<rparr>))) \<Longrightarrow> marked_out (K c) \<Longrightarrow> marked_out (callback_data S m extra er c K)"
  by (simp add: callback_data_def Let_def split: prod.split option.split)

lemma marked_message_complete:
  assumes "\<And>u s. s \<in> {s_dead, s_start_req, s_start_res} \<Longrightarrow> marked_out (K ((goto s c)\<lparr>cx_user := u\<rparr>))"
  shows "marked_out (message_complete S er c K)"
  unfolding message_complete_def using assms NEW_MESSAGE_cases[of "cx_parser c"] by (intro marked_notify) simp

lemma marked_complete [simp]:
  "marked_out (message_complete S er c Break)" "marked_out (message_complete S er c (Return n))"
  by (rule marked_message_complete; auto simp: marked_def url_states_def)+

lemma marked_url_char:
  assumes "s \<in> insert s_req_spaces_before_url (set url_states)" "cx_marks c M_url \<noteq> None"
  shows "marked_out (url_char s ch c)"
  using parse_url_char_url_state[OF assms(1), of ch] assms(2)
  by (auto simp: url_char_def Let_def marked_def url_states_def)

lemma set_mark_set [simp]: "cx_marks (set_mark m c) m \<noteq> None"
  by (simp add: set_mark_def)

lemma header_field_token_state: "header_field_token ch t q = Some q' \<Longrightarrow> ps_state q' = ps_state q"
  by (cases "ps_header_state q") (auto simp: header_field_token_def step_char_def split: if_splits)

lemma marked_header_field:
  assumes "marked c" "ps_state (cx_parser c) = s_header_field"
  shows "marked_out (exec_header_field S ch c)"
  using assms header_field_token_state[of ch "TOKEN ch" "cx_parser c"]
  by (cases "header_field_token ch (TOKEN ch) (cx_parser c)")
     (simp_all add: exec_header_field_def marked_callback_data marked_def url_states_def)

lemma marked_switch:
  assumes "marked c"
  shows "marked_out (exec_switch S ch c)"
proof -
  consider "ps_state (cx_parser c) \<in> insert s_req_spaces_before_url (set url_states)" | "ps_state (cx_parser c) = s_header_field"
    | "ps_state (cx_parser c) \<notin> insert s_header_field (insert s_req_spaces_before_url (set url_states))" by blast
  then show ?thesis
  proof cases
    case 1
    have "marked_out (url_char (ps_state (cx_parser c)) ch c)" if "ps_state (cx_parser c) \<in> set url_states"
      using assms that by (intro marked_url_char) (simp_all add: marked_def)
    moreover have "marked_out (url_char s ch (set_mark M_url c))" if "s \<in> {s_req_server_start, s_req_spaces_before_url}" for s
      using that by (intro marked_url_char) (auto simp: url_states_def)
    ultimately show ?thesis using 1
      by (cases "ps_state (cx_parser c)")
         (simp_all add: exec_switch_def exec_req_spaces_before_url_def exec_req_schema_def exec_req_url_def url_states_def
           marked_callback_data marked_def)
  next
    case 2
    then show ?thesis using assms marked_header_field[of c S ch] by (simp add: exec_switch_def)
  next
    case 3
    then show ?thesis using assms
      by (cases "ps_state (cx_parser c)")
         (simp_all add: exec_switch_def handler_defs Let_def marked_notify marked_callback_data url_states_def new_headers_def
           marked_def split: option.split prod.split header_states.split)
  qed
qed

lemma marked_reexec: "marked c \<Longrightarrow> marked_out (exec_reexec S ch c)"
proof (induction S ch c rule: exec_reexec.induct)
  case (1 S ch c)
  show ?case
  proof (cases "exec_switch S ch c")
    case (Reexec c')
    then show ?thesis using "1.IH"[OF Reexec] marked_switch[OF "1.prems", of S ch] by (simp add: exec_reexec.simps[of S ch c])
  qed (use marked_switch[OF "1.prems", of S ch] in \<open>simp_all add: exec_reexec.simps[of S ch c]\<close>)
qed

lemma marked_byte: "marked c \<Longrightarrow> marked_out (exec_byte S ch c)"
  using marked_reexec[of c S ch] marked_reexec[of "upd (\<lambda>q. q\<lparr>ps_nread := (ps_nread q + 1) mod 2 ^ 32\<rparr>) c" S ch]
  by (simp add: exec_byte_def Let_def marked_def)

lemma marked_advance [simp]: "marked (advance k c) \<longleftrightarrow> marked c"
  by (simp add: marked_def advance_def)

lemma marked_loop: "marked c \<Longrightarrow> marked_out (exec_loop S c)"
proof (induction S c rule: exec_loop.induct)
  case (1 S c)
  show ?case
  proof (cases "cx_rest c")
    case (Cons ch cs)
    show ?thesis
    proof (cases "exec_byte S ch c")
      case (Break c')
      then show ?thesis using "1.IH"[OF Cons Break] marked_byte[OF "1.prems", of S ch] Cons by (simp add: exec_loop.simps[of S c])
    qed (use marked_byte[OF "1.prems", of S ch] Cons in \<open>simp_all add: exec_loop.simps[of S c]\<close>)
  qed (use "1.prems" in \<open>simp add: exec_loop.simps[of S c]\<close>)
qed

lemma marked_initial: "marked (initial_cfg q bytes u)"
  by (simp add: marked_def initial_cfg_def initial_marks_def)

text \<open>The position: bytes read and bytes ahead are all the bytes.\<close>

definition pos_ok :: "nat \<Rightarrow> 'u outcome \<Rightarrow> bool" where
  "pos_ok N out =
     (case out of
        Break c \<Rightarrow> cx_n c + length (cx_rest c) = N \<and> cx_rest c \<noteq> []
      | Reexec c \<Rightarrow> cx_n c + length (cx_rest c) = N \<and> cx_rest c \<noteq> []
      | Return n c \<Rightarrow> n \<le> N
      | Error e c \<Rightarrow> cx_n c < N
      | Abort \<Rightarrow> True)"

lemma pos_ok_simps [simp]:
  "pos_ok N (Break c) \<longleftrightarrow> cx_n c + length (cx_rest c) = N \<and> cx_rest c \<noteq> []"
  "pos_ok N (Reexec c) \<longleftrightarrow> cx_n c + length (cx_rest c) = N \<and> cx_rest c \<noteq> []"
  "pos_ok N (Return n c) \<longleftrightarrow> n \<le> N" "pos_ok N (Error e c) \<longleftrightarrow> cx_n c < N" "pos_ok N Abort"
  by (simp_all add: pos_ok_def)

lemma pos_ok_notify: "er \<le> N \<Longrightarrow> (\<And>u. pos_ok N (K (c\<lparr>cx_user := u\<rparr>))) \<Longrightarrow> pos_ok N (notify S n er c K)"
  by (simp add: notify_def Let_def split: prod.split)

lemma pos_ok_callback_data:
  "er \<le> N \<Longrightarrow> (\<And>u ms. pos_ok N (K (c\<lparr>cx_user := u, cx_marks := ms\<rparr>))) \<Longrightarrow> pos_ok N (K c) \<Longrightarrow>
     pos_ok N (callback_data S m extra er c K)"
  by (simp add: callback_data_def Let_def split: prod.split option.split)

lemma pos_ok_message_complete:
  "er \<le> N \<Longrightarrow> (\<And>u s. pos_ok N (K ((goto s c)\<lparr>cx_user := u\<rparr>))) \<Longrightarrow> pos_ok N (message_complete S er c K)"
  by (simp add: message_complete_def pos_ok_notify)

lemma take_body_pos:
  "cx_rest c \<noteq> [] \<Longrightarrow> cx_n (take_body c) + length (cx_rest (take_body c)) = cx_n c + length (cx_rest c)"
  "cx_rest c \<noteq> [] \<Longrightarrow> cx_n (take_body c) \<le> cx_n c + length (cx_rest c)"
  by (cases "cx_rest c"; auto simp: take_body_def Let_def min_def)+

lemma pos_ok_switch:
  assumes "cx_rest c \<noteq> []"
  shows "pos_ok (cx_n c + length (cx_rest c)) (exec_switch S ch c)"
proof -
  have "Suc (cx_n c) \<le> cx_n c + length (cx_rest c)" using assms by (cases "cx_rest c") simp_all
  then show ?thesis using assms take_body_rest[OF assms] take_body_pos[OF assms]
    by (cases "ps_state (cx_parser c)")
       (simp_all add: exec_switch_def handler_defs Let_def pos_ok_notify pos_ok_callback_data pos_ok_message_complete
         split: option.split prod.split header_states.split)
qed

lemma pos_ok_reexec: "cx_rest c \<noteq> [] \<Longrightarrow> pos_ok (cx_n c + length (cx_rest c)) (exec_reexec S ch c)"
proof (induction S ch c rule: exec_reexec.induct)
  case (1 S ch c)
  show ?case
  proof (cases "exec_switch S ch c")
    case (Reexec c')
    then have c': "cx_n c' + length (cx_rest c') = cx_n c + length (cx_rest c)" "cx_rest c' \<noteq> []"
      using pos_ok_switch[OF "1.prems", of S ch] by simp_all
    then show ?thesis using "1.IH"[OF Reexec c'(2)] Reexec by (simp add: exec_reexec.simps[of S ch c])
  qed (use pos_ok_switch[OF "1.prems", of S ch] in \<open>simp_all add: exec_reexec.simps[of S ch c]\<close>)
qed

lemma pos_ok_byte: "cx_rest c \<noteq> [] \<Longrightarrow> pos_ok (cx_n c + length (cx_rest c)) (exec_byte S ch c)"
  using pos_ok_reexec[of c S ch] pos_ok_reexec[of "upd (\<lambda>q. q\<lparr>ps_nread := (ps_nread q + 1) mod 2 ^ 32\<rparr>) c" S ch]
  by (simp add: exec_byte_def Let_def)

lemma exec_loop_pos:
  "exec_loop S c = Break c' \<Longrightarrow> cx_n c' = cx_n c + length (cx_rest c) \<and> cx_rest c' = []"
  "exec_loop S c = Return n c' \<Longrightarrow> n \<le> cx_n c + length (cx_rest c)"
  "exec_loop S c = Error e c' \<Longrightarrow> cx_n c' < cx_n c + length (cx_rest c)"
proof -
  have "(\<forall>c'. exec_loop S c = Break c' \<longrightarrow> cx_n c' = cx_n c + length (cx_rest c) \<and> cx_rest c' = []) \<and>
    (\<forall>n c'. exec_loop S c = Return n c' \<longrightarrow> n \<le> cx_n c + length (cx_rest c)) \<and>
    (\<forall>e c'. exec_loop S c = Error e c' \<longrightarrow> cx_n c' < cx_n c + length (cx_rest c))"
  proof (induction S c rule: exec_loop.induct)
    case (1 S c)
    show ?case
    proof (cases "cx_rest c")
      case (Cons ch cs)
      have pos: "pos_ok (cx_n c + length (cx_rest c)) (exec_byte S ch c)" using pos_ok_byte[of c S ch] Cons by simp
      show ?thesis
      proof (cases "exec_byte S ch c")
        case (Break c')
        have "cx_n (advance 1 c') + length (cx_rest (advance 1 c')) = cx_n c + length (cx_rest c)"
          using pos Break by (cases "cx_rest c'") simp_all
        then show ?thesis using "1.IH"[OF Cons Break] Break Cons by (simp add: exec_loop.simps[of S c])
      qed (use pos Cons in \<open>simp_all add: exec_loop.simps[of S c]\<close>)
    qed (simp add: exec_loop_end)
  qed
  then show "exec_loop S c = Break c' \<Longrightarrow> cx_n c' = cx_n c + length (cx_rest c) \<and> cx_rest c' = []"
    "exec_loop S c = Return n c' \<Longrightarrow> n \<le> cx_n c + length (cx_rest c)"
    "exec_loop S c = Error e c' \<Longrightarrow> cx_n c' < cx_n c + length (cx_rest c)" by blast+
qed

text \<open>Results that agree but for the bytes read before.\<close>

definition res_rel :: "nat \<Rightarrow> 'u exec_result \<Rightarrow> 'u exec_result \<Rightarrow> bool" where
  "res_rel k r1 r2 \<longleftrightarrow>
     (\<exists>n q u1 u2. r1 = Executed (k + n) q u1 \<and> r2 = Executed n q u2 \<and> (quiet (ps_errno q) \<longrightarrow> u1 = u2))"

lemma marks_cases:
  assumes "marks_ok c"
  obtains "cx_marks c = Map.empty" | m t where "cx_marks c = [m \<mapsto> t]" "ps_state (cx_parser c) \<in> set (mark_states m)"
proof (cases "\<exists>m. cx_marks c m \<noteq> None")
  case True
  then obtain m t where m: "cx_marks c m = Some t" by blast
  have "cx_marks c m' = None" if "m' \<noteq> m" for m'
    using one_mark[OF assms, of m m'] m that by (cases "cx_marks c m'") simp_all
  then have "cx_marks c = [m \<mapsto> t]" using m by (auto simp: fun_eq_iff)
  moreover have "ps_state (cx_parser c) \<in> set (mark_states m)" using assms m by (simp add: marks_ok_def)
  ultimately show ?thesis using that by blast
next
  case False
  then have "cx_marks c = Map.empty" by (auto simp: fun_eq_iff)
  then show ?thesis using that by blast
qed

lemma initial_marks_of_state:
  assumes "s \<in> set (mark_states m)"
  shows "initial_marks s = (if m = M_body then Map.empty else [m \<mapsto> []])"
proof
  fix m'
  have "s \<in> set (mark_states m') \<Longrightarrow> m' = m" using mark_states_disjoint assms by blast
  then show "initial_marks s m' = (if m = M_body then Map.empty else [m \<mapsto> []]) m'"
    using assms by (cases m') (auto simp: initial_marks_def mark_states_def)
qed

lemma initial_marks_unmarked:
  assumes "marked c" "cx_marks c = Map.empty"
  shows "initial_marks (ps_state (cx_parser c)) = Map.empty"
proof
  fix m show "initial_marks (ps_state (cx_parser c)) m = None"
    using assms by (cases m) (auto simp: marked_def initial_marks_def)
qed

lemma same_end_result: "same_end o1 o2 \<Longrightarrow> exec_result_of S o1 = exec_result_of S o2"
proof -
  have flush: "flush_marks S (shift [] 0 c) = shift_out [] 0 (flush_marks S c)" for c
    by (simp add: flush_marks_def shift_callback_data)
  have "exec_result_of S (shift_out [] 0 out) = exec_result_of S out" for out
    by (cases out) (auto simp: exec_result_of_def flush split: outcome.split)
  then show "same_end o1 o2 \<Longrightarrow> exec_result_of S o1 = exec_result_of S o2" unfolding same_end_def by metis
qed

text \<open>No more bytes are taken than there are, and fewer when the input is refused.\<close>

lemma execute_bound:
  assumes "parser_ok q" "bytes \<noteq> []" "http_parser_execute S q bytes u = Executed n q' u'"
  shows "n \<le> length bytes" "\<not> quiet (ps_errno q') \<Longrightarrow> n < length bytes"
proof -
  let ?c = "initial_cfg q bytes u"
  have loop: "result_ok (exec_loop S ?c)" "\<And>c'. exec_loop S ?c \<noteq> Reexec c'"
    using exec_loop_ok[OF initial_cfg_ok[OF assms(1)], of S bytes u] by simp_all
  have pos: "cx_n ?c = 0" "cx_rest ?c = bytes" by (simp_all add: initial_cfg_def)
  have res: "exec_result_of S (exec_loop S ?c) = Executed n q' u'"
    using assms by (simp add: http_parser_execute_def parser_ok_def)
  have "n \<le> length bytes \<and> (\<not> quiet (ps_errno q') \<longrightarrow> n < length bytes)"
  proof (cases "exec_loop S ?c")
    case (Break c)
    have cfg: "cfg_ok c" using loop(1) Break by simp
    have n: "cx_n c = length bytes" using exec_loop_pos(1)[OF Break] pos by simp
    obtain m where "flush_marks S c = Return (cx_n c) m" "quiet (ps_errno (cx_parser m))"
      by (rule flush_marks_ok[OF cfg])
    then show ?thesis using res Break n by (auto simp: exec_result_of_def)
  next
    case (Return m c)
    then have "quiet (ps_errno (cx_parser c))" using loop(1) by simp
    then show ?thesis using res Return exec_loop_pos(2)[OF Return] pos by (auto simp: exec_result_of_def)
  next
    case (Error e c)
    then show ?thesis using res exec_loop_pos(3)[OF Error] pos by (auto simp: exec_result_of_def)
  qed (use loop res in \<open>simp_all add: exec_result_of_def\<close>)
  then show "n \<le> length bytes" "\<not> quiet (ps_errno q') \<Longrightarrow> n < length bytes" by blast+
qed

lemma feed_error:
  "ps_errno q \<noteq> HPE_OK \<Longrightarrow> feed S q pieces u = Executed 0 q u"
  by (induction pieces) (simp_all add: http_parser_execute_def)

locale append_callbacks =
  fixes S :: "'u settings" and D :: "mark \<Rightarrow> string \<Rightarrow> 'u \<Rightarrow> 'u"
  assumes data: "on_data S m q s u = (D m s u, 0)"
    and append: "D m (s @ t) u = D m t (D m s u)"
begin

lemma callback_pending:
  assumes "ps_errno (cx_parser d) = HPE_OK" "cx_user d = D m s u" "cx_marks d = [m \<mapsto> t]"
  shows "callback_data S m ex er (behind k m s u d) K =
      K (shift (cx_rest d) k (d\<lparr>cx_user := D m (t @ ex) (cx_user d), cx_marks := Map.empty\<rparr>))"
    and "callback_data S m ex er d K = K (d\<lparr>cx_user := D m (t @ ex) (cx_user d), cx_marks := Map.empty\<rparr>)"
proof -
  have "(behind k m s u d)\<lparr>cx_user := D m (s @ t @ ex) u, cx_marks := Map.empty\<rparr> =
      shift (cx_rest d) k (d\<lparr>cx_user := D m (t @ ex) (cx_user d), cx_marks := Map.empty\<rparr>)"
    using assms(2) append[of m s "t @ ex" u] by (simp add: behind_def shift_def)
  then show "callback_data S m ex er (behind k m s u d) K =
      K (shift (cx_rest d) k (d\<lparr>cx_user := D m (t @ ex) (cx_user d), cx_marks := Map.empty\<rparr>))"
    using assms(1,3) by (simp add: callback_data_def data Let_def)
  show "callback_data S m ex er d K = K (d\<lparr>cx_user := D m (t @ ex) (cx_user d), cx_marks := Map.empty\<rparr>)"
    using assms(1,3) by (simp add: callback_data_def data Let_def)
qed

lemma header_field_pending:
  assumes "ps_errno (cx_parser d) = HPE_OK" "cx_user d = D M_header_field s u" "cx_marks d = [M_header_field \<mapsto> t]"
  shows "rel_out D k (exec_header_field S ch (behind k M_header_field s u d)) (exec_header_field S ch d)"
  using assms pendingI[of _ D M_header_field s u t k]
  by (cases "header_field_token ch (TOKEN ch) (cx_parser d)")
     (simp_all add: exec_header_field_def callback_pending[where m = M_header_field and t = t] synced_shift)

lemma header_value_pending:
  assumes "ps_errno (cx_parser d) = HPE_OK" "cx_user d = D M_header_value s u" "cx_marks d = [M_header_value \<mapsto> t]"
  shows "rel_out D k (exec_header_value S ch (behind k M_header_value s u d)) (exec_header_value S ch d)"
  using assms pendingI[of _ D M_header_value s u t k]
  by (cases "ps_header_state (cx_parser d)")
     (simp_all add: exec_header_value_def content_length_digit_def Let_def
       callback_pending[where m = M_header_value and t = t] synced_shift)

lemma url_pending:
  assumes "ps_errno (cx_parser d) = HPE_OK" "cx_user d = D M_url s u" "cx_marks d = [M_url \<mapsto> t]"
  shows "rel_out D k (exec_req_schema ch (behind k M_url s u d)) (exec_req_schema ch d)"
    and "rel_out D k (exec_req_url S ch (behind k M_url s u d)) (exec_req_url S ch d)"
  using assms pendingI[of _ D M_url s u t k]
  by (simp_all add: exec_req_schema_def exec_req_url_def url_char_def Let_def
      callback_pending[where m = M_url and t = t] synced_shift)

lemma status_pending:
  assumes "ps_errno (cx_parser d) = HPE_OK" "cx_user d = D M_status s u" "cx_marks d = [M_status \<mapsto> t]"
  shows "rel_out D k (exec_res_status S ch (behind k M_status s u d)) (exec_res_status S ch d)"
  using assms pendingI[of _ D M_status s u t k]
  by (simp_all add: exec_res_status_def callback_pending[where m = M_status and t = t] synced_shift)

lemma body_pending:
  assumes "ps_errno (cx_parser d) = HPE_OK" "cx_user d = D M_body s u" "cx_marks d = [M_body \<mapsto> t]"
  shows "rel_out D k (exec_body_identity S (behind k M_body s u d)) (exec_body_identity S d)"
    and "rel_out D k (exec_chunk_data (behind k M_body s u d)) (exec_chunk_data d)"
    and "rel_out D k (exec_body_identity_eof (behind k M_body s u d)) (exec_body_identity_eof d)"
    and "rel_out D k (exec_chunk_data_almost_done S ch (behind k M_body s u d)) (exec_chunk_data_almost_done S ch d)"
proof -
  obtain t' where t': "cx_marks (take_body d) = [M_body \<mapsto> t']" using behind_take_body(2)[OF assms(3)] by blast
  note tb = behind_take_body(1)[OF assms(3), of k s u] behind_take_body(3)[OF assms(3)] t'
  show "rel_out D k (exec_body_identity S (behind k M_body s u d)) (exec_body_identity S d)"
    using assms pendingI[of _ D M_body s u t' k]
    by (simp add: exec_body_identity_def Let_def tb callback_pending[where m = M_body and t = t'] synced_shift)
  show "rel_out D k (exec_chunk_data (behind k M_body s u d)) (exec_chunk_data d)"
    using assms pendingI[of _ D M_body s u t' k] by (simp add: exec_chunk_data_def Let_def tb)
  have "set_mark M_body d = d" "set_mark M_body (behind k M_body s u d) = behind k M_body s u d"
    using assms(3) by (simp_all add: set_mark_def)
  then show "rel_out D k (exec_body_identity_eof (behind k M_body s u d)) (exec_body_identity_eof d)"
    using pending_advance[OF pendingI[of d D M_body s u t, OF assms(2,3)], of k "length (cx_rest d) - 1"]
    by (simp add: exec_body_identity_eof_def)
  show "rel_out D k (exec_chunk_data_almost_done S ch (behind k M_body s u d)) (exec_chunk_data_almost_done S ch d)"
    using assms by (simp add: exec_chunk_data_almost_done_def callback_pending[where m = M_body and t = t] synced_shift)
qed

lemma pending_switch:
  assumes "ps_errno (cx_parser d) = HPE_OK" "cx_user d = D m s u" "cx_marks d = [m \<mapsto> t]"
    "ps_state (cx_parser d) \<in> set (mark_states m)"
  shows "rel_out D k (exec_switch S ch (behind k m s u d)) (exec_switch S ch d)"
proof (cases m)
  case M_header_field
  then show ?thesis using assms header_field_pending[of d s u t k ch] by (simp add: mark_states_def exec_switch_def)
next
  case M_header_value
  then show ?thesis using assms header_value_pending[of d s u t k ch] by (simp add: mark_states_def exec_switch_def)
next
  case M_status
  then show ?thesis using assms status_pending[of d s u t k ch] by (simp add: mark_states_def exec_switch_def)
next
  case M_url
  then show ?thesis using assms url_pending[of d s u t k ch]
    by (cases "ps_state (cx_parser d)") (simp_all add: mark_states_def url_states_def exec_switch_def)
next
  case M_body
  then show ?thesis using assms body_pending[of d s u t k]
    by (cases "ps_state (cx_parser d)") (simp_all add: mark_states_def exec_switch_def)
qed

lemma pending_reexec:
  assumes "ps_errno (cx_parser d) = HPE_OK" "cx_user d = D m s u" "cx_marks d = [m \<mapsto> t]"
    "ps_state (cx_parser d) \<in> set (mark_states m)"
  shows "rel_out D k (exec_reexec S ch (behind k m s u d)) (exec_reexec S ch d)"
proof -
  let ?c = "behind k m s u d"
  have rel: "rel_out D k (exec_switch S ch ?c) (exec_switch S ch d)" by (rule pending_switch[OF assms])
  show ?thesis
  proof (cases "exec_switch S ch d")
    case (Reexec d')
    then obtain c' where c': "exec_switch S ch ?c = Reexec c'" "synced k c' d'"
      using rel by (cases "exec_switch S ch ?c") (auto simp: rel_out_def)
    have "ps_state (cx_parser d') \<notin> set bulk_states" using no_bulk_switch[of S ch d] Reexec by simp
    then show ?thesis using synced_reexec[OF c'(2)] Reexec c'(1) by (simp add: exec_reexec.simps[of S ch d] exec_reexec.simps[of S ch ?c])
  qed (use rel in \<open>cases "exec_switch S ch ?c"; simp add: exec_reexec.simps[of S ch d] exec_reexec.simps[of S ch ?c] rel_out_def\<close>)+
qed

lemma pending_byte:
  assumes "ps_errno (cx_parser d) = HPE_OK" "cx_user d = D m s u" "cx_marks d = [m \<mapsto> t]"
    "ps_state (cx_parser d) \<in> set (mark_states m)"
  shows "rel_out D k (exec_byte S ch (behind k m s u d)) (exec_byte S ch d)"
  using assms pending_reexec[of d m s u t k ch]
    pending_reexec[of "upd (\<lambda>q. q\<lparr>ps_nread := (ps_nread q + 1) mod 2 ^ 32\<rparr>) d" m s u t k ch]
  by (simp add: exec_byte_def Let_def)

lemma pending_byteD:
  assumes "pending D k c d" "cfg_ok c"
  shows "rel_out D k (exec_byte S ch c) (exec_byte S ch d)"
proof -
  obtain m s u t where c: "c = behind k m s u d" "cx_user d = D m s u" "cx_marks d = [m \<mapsto> t]"
    using assms(1) unfolding pending_def by blast
  have "ps_state (cx_parser d) \<in> set (mark_states m)" "ps_errno (cx_parser d) = HPE_OK"
    using assms(2) c by (auto simp: cfg_ok_def parser_ok_def marks_ok_def)
  then show ?thesis using pending_byte[of d m s u t k ch] c by simp
qed

lemma rel_byte:
  assumes "synced k c d \<or> pending D k c d" "cfg_ok c"
  shows "rel_out D k (exec_byte S ch c) (exec_byte S ch d)"
  using assms synced_byte pending_byteD by blast

lemma rel_rest: "synced k c d \<or> pending D k c d \<Longrightarrow> cx_rest c = cx_rest d"
  by (auto simp: synced_def pending_sel)

lemma rel_advance: "synced k c d \<or> pending D k c d \<Longrightarrow> synced k (advance j c) (advance j d) \<or> pending D k (advance j c) (advance j d)"
  using synced_advance pending_advance by blast

lemma rel_outE:
  assumes "rel_out D k oc od" "\<And>c. oc \<noteq> Reexec c"
  obtains (Break) c d where "oc = Break c" "od = Break d" "synced k c d \<or> pending D k c d"
    | (Stop) "rel_out D k oc od" "\<nexists>c. oc = Break c" "\<nexists>d. od = Break d" "\<nexists>d. od = Reexec d"
  using assms by (cases oc) (auto simp: rel_out_def)

lemma rel_loop_step:
  assumes "rel_out D k (exec_byte S ch c) (exec_byte S ch d)" "cfg_ok c" "cx_rest c = ch # cs" "cx_rest d = ch # cs"
    "\<And>c' d'. exec_byte S ch c = Break c' \<Longrightarrow> cfg_ok c' \<Longrightarrow> synced k (advance 1 c') d' \<or> pending D k (advance 1 c') d' \<Longrightarrow>
       rel_out D k (exec_loop S (advance 1 c')) (exec_loop S d')"
  shows "rel_out D k (exec_loop S c) (exec_loop S d)"
proof -
  note loops = exec_loop.simps[of S c] exec_loop.simps[of S d]
  have ok: "result_ok (exec_byte S ch c)" "\<And>c'. exec_byte S ch c \<noteq> Reexec c'"
    using exec_byte_ok[OF assms(2), of S ch] assms(3) by simp_all
  from assms(1) ok(2) show ?thesis
  proof (cases rule: rel_outE)
    case (Break c' d')
    have "rel_out D k (exec_loop S (advance 1 c')) (exec_loop S (advance 1 d'))"
      using assms(5)[OF Break(1) _ rel_advance[OF Break(3), of 1]] ok(1) Break(1) by simp
    then show ?thesis using Break(1,2) assms(3,4) by (simp add: loops)
  next
    case Stop
    then show ?thesis using assms(3,4)
      by (cases "exec_byte S ch c"; cases "exec_byte S ch d") (simp_all add: loops)
  qed
qed

lemma rel_loop:
  "synced k c d \<or> pending D k c d \<Longrightarrow> cfg_ok c \<Longrightarrow> rel_out D k (exec_loop S c) (exec_loop S d)"
proof (induction S' \<equiv> S c arbitrary: d rule: exec_loop.induct)
  case (1 c)
  show ?case
  proof (cases "cx_rest c")
    case Nil
    then show ?thesis using rel_rest[OF "1.prems"(1)] "1.prems"(1) by (simp add: exec_loop_end)
  next
    case (Cons ch cs)
    have "cx_rest d = ch # cs" using Cons rel_rest[OF "1.prems"(1)] by simp
    with Cons rel_byte[OF "1.prems", of ch] "1.prems"(2) show ?thesis
      by (intro rel_loop_step[of k ch c d cs] "1.hyps"[OF Cons]) simp_all
  qed
qed

text \<open>The restart inside of a body, without a mark.\<close>

lemma restart_body_byte:
  assumes "cx_user d = D M_body t u" "cx_marks d = Map.empty" "ps_state (cx_parser d) \<in> set (mark_states M_body)"
    "ps_errno (cx_parser d) = HPE_OK"
  shows "rel_out D k (exec_byte S ch (behind k M_body t u d)) (exec_byte S ch d)"
proof (cases "ps_state (cx_parser d) = s_chunk_data_almost_done")
  case True
  have "(goto s_chunk_data_done (behind k M_body t u d))\<lparr>cx_user := D M_body t u, cx_marks := Map.empty\<rparr> =
      (goto s_chunk_data_done d)\<lparr>cx_n := k + cx_n d\<rparr>"
    using assms(1,2) by (simp add: behind_def goto_def upd_def)
  then have "rel_out D k (exec_chunk_data_almost_done S ch (behind k M_body t u d)) (exec_chunk_data_almost_done S ch d)"
    using assms by (simp add: exec_chunk_data_almost_done_def callback_data_def data Let_def synced_def)
  moreover have "exec_byte S ch c = exec_chunk_data_almost_done S ch c"
    if "ps_state (cx_parser c) = s_chunk_data_almost_done" for c
    using that by (simp add: exec_byte_def PARSING_HEADER_def exec_reexec.simps[of S ch c] exec_switch_def
        exec_chunk_data_almost_done_def callback_data_def Let_def split: option.split prod.split)
  ultimately show ?thesis using True by simp
next
  case False
  let ?d = "set_mark M_body d"
  have d: "cx_marks ?d = [M_body \<mapsto> []]" "cx_user ?d = D M_body t u" using assms(1,2) by (simp_all add: set_mark_def)
  have same: "behind k M_body t u ?d = behind k M_body t u d" using assms(2) d by (simp add: behind_def set_mark_def)
  have tb: "take_body ?d = take_body d" by (simp add: take_body_def set_mark_def Let_def)
  have sm: "set_mark M_body ?d = ?d" by (simp add: set_mark_def)
  have "exec_byte S ch ?d = exec_byte S ch d"
    using False assms(3)
    by (cases "ps_state (cx_parser d)")
       (simp_all add: mark_states_def exec_byte_identity exec_byte_chunk_data exec_byte_identity_eof exec_body_identity_def
         exec_chunk_data_def exec_body_identity_eof_def tb sm Let_def)
  then show ?thesis using pending_byte[of ?d M_body t u "[]" k ch] assms d same by simp
qed

lemma restart_body:
  assumes "cx_user d = D M_body t u" "cx_marks d = Map.empty" "ps_state (cx_parser d) \<in> set (mark_states M_body)"
    "cfg_ok (behind k M_body t u d)" "cx_rest d \<noteq> []"
  shows "rel_out D k (exec_loop S (behind k M_body t u d)) (exec_loop S d)"
proof -
  obtain ch cs where rest: "cx_rest d = ch # cs" using assms(5) by (cases "cx_rest d") auto
  have "ps_errno (cx_parser d) = HPE_OK" using assms(4) by (simp add: cfg_ok_def parser_ok_def)
  then show ?thesis
    using rest restart_body_byte[OF assms(1-3)] assms(4)
    by (intro rel_loop_step[of k ch _ d cs] rel_loop) simp_all
qed

lemma result_none:
  assumes "cfg_ok c" "cx_marks c = Map.empty"
  shows "exec_result_of S (Break c) = Executed (cx_n c) (cx_parser c) (cx_user c)"
  using flush_none[of c S] assms by (simp add: exec_result_of_def cfg_ok_def parser_ok_def)

lemma result_one:
  assumes "cfg_ok c" "cx_marks c = [m \<mapsto> t]"
  shows "exec_result_of S (Break c) = Executed (cx_n c) (cx_parser c) (D m t (cx_user c))"
  using flush_one[of c m t S] assms by (simp add: exec_result_of_def cfg_ok_def parser_ok_def data)

lemma rel_result:
  assumes "rel_out D k oc od" "result_ok oc" "\<And>c. oc \<noteq> Reexec c"
    "\<And>d. od = Break d \<Longrightarrow> cfg_ok d"
  shows "res_rel k (exec_result_of S oc) (exec_result_of S od)"
proof (cases oc)
  case (Break c)
  then obtain d where d: "od = Break d" "synced k c d \<or> pending D k c d" using assms(1) by (auto simp: rel_out_def)
  have ok: "cfg_ok c" "cfg_ok d" using assms(2,4) Break d(1) by simp_all
  from d(2) show ?thesis
  proof
    assume syn: "synced k c d"
    have "marks_ok d" using ok(2) by (simp add: cfg_ok_def)
    then show ?thesis
    proof (cases rule: marks_cases)
      case 1
      then show ?thesis using result_none[OF ok(1)] result_none[OF ok(2)] syn Break d(1) by (simp add: res_rel_def synced_def)
    next
      case (2 m t)
      then show ?thesis using result_one[OF ok(1), of m t] result_one[OF ok(2), of m t] syn Break d(1)
        by (simp add: res_rel_def synced_def)
    qed
  next
    assume "pending D k c d"
    then obtain m s u t where c: "c = behind k m s u d" "cx_user d = D m s u" "cx_marks d = [m \<mapsto> t]"
      unfolding pending_def by blast
    then show ?thesis using result_one[OF ok(1), of m "s @ t"] result_one[OF ok(2) c(3)] Break d(1)
      by (simp add: res_rel_def append)
  qed
qed (use assms(1-3) in \<open>auto simp: rel_out_def res_rel_def exec_result_of_def\<close>)

lemma restart:
  assumes "cfg_ok c" "marked c" "cx_rest c \<noteq> []"
  obtains u1 where "exec_result_of S (Break c) = Executed (cx_n c) (cx_parser c) u1"
    "rel_out D (cx_n c) (exec_loop S c) (exec_loop S (initial_cfg (cx_parser c) (cx_rest c) u1))"
proof -
  have "marks_ok c" using assms(1) by (simp add: cfg_ok_def)
  then show ?thesis
  proof (cases rule: marks_cases)
    case 1
    let ?d = "initial_cfg (cx_parser c) (cx_rest c) (cx_user c)"
    have "synced (cx_n c) c ?d"
      using 1 initial_marks_unmarked[OF assms(2) 1] by (simp add: synced_def initial_cfg_def)
    then show ?thesis using that[OF result_none[OF assms(1) 1]] rel_loop assms(1) by blast
  next
    case (2 m t)
    let ?d = "initial_cfg (cx_parser c) (cx_rest c) (D m t (cx_user c))"
    have marks: "cx_marks ?d = (if m = M_body then Map.empty else [m \<mapsto> []])"
      using initial_marks_of_state[OF 2(2)] by (simp add: initial_cfg_def)
    have c: "c = behind (cx_n c) m t (cx_user c) ?d"
      using 2(1) marks by (simp add: behind_def initial_cfg_def)
    have "rel_out D (cx_n c) (exec_loop S c) (exec_loop S ?d)"
    proof (cases "m = M_body")
      case True
      then show ?thesis
        using restart_body[of ?d t "cx_user c" "cx_n c"] marks 2(2) assms(1,3) c by (simp add: initial_cfg_def)
    next
      case False
      have "pending D (cx_n c) c ?d"
        using c marks False pendingI[of ?d D m t "cx_user c" "[]" "cx_n c"] by (simp add: initial_cfg_def)
      then show ?thesis using rel_loop assms(1) by blast
    qed
    then show ?thesis using that[OF result_one[OF assms(1) 2(1)]] by blast
  qed
qed

lemma execute_append:
  assumes "parser_ok q" "a \<noteq> []" "b \<noteq> []"
  shows "(\<exists>q1 u1. http_parser_execute S q a u = Executed (length a) q1 u1 \<and> parser_ok q1 \<and>
      res_rel (length a) (http_parser_execute S q (a @ b) u) (http_parser_execute S q1 b u1)) \<or>
    (\<exists>n q1 u1. http_parser_execute S q (a @ b) u = Executed n q1 u1 \<and> http_parser_execute S q a u = Executed n q1 u1)"
proof -
  let ?c = "initial_cfg q a u" and ?w = "initial_cfg q (a @ b) u"
  have ok: "cfg_ok ?c" "cfg_ok ?w" using assms(1) by (simp_all add: initial_cfg_ok)
  have sh: "shift a 0 ?w = ?c" by (simp add: shift_def initial_cfg_def)
  have rest: "cx_rest ?w = a @ b" "cx_n ?c = 0" "cx_rest ?c = a" by (simp_all add: initial_cfg_def)
  have errno: "ps_errno q = HPE_OK" using assms(1) by (simp add: parser_ok_def)
  have exec: "http_parser_execute S q x v = exec_result_of S (exec_loop S (initial_cfg q x v))" if "x \<noteq> []" for x v
    using errno that by (simp add: http_parser_execute_def)
  have whole: "http_parser_execute S q (a @ b) u =
      exec_result_of S (case exec_loop S ?c of Break c' \<Rightarrow> exec_loop S (shift b 0 c') | out \<Rightarrow> out)"
    using same_end_result[OF exec_loop_append[OF ok(2) rest(1) assms(2,3), of S]] exec[of "a @ b" u] assms(2) sh by simp
  have loop: "result_ok (exec_loop S ?c)" "\<And>c'. exec_loop S ?c \<noteq> Reexec c'" using exec_loop_ok[OF ok(1), of S] by simp_all
  show ?thesis
  proof (cases "exec_loop S ?c")
    case (Break c')
    let ?b = "shift b 0 c'"
    have c': "cfg_ok ?b" "marked ?b" "cx_rest ?b \<noteq> []" "cx_n c' = length a"
      using loop(1) Break marked_loop[OF marked_initial, of S q a u] exec_loop_pos(1)[OF Break] assms(3) rest
      by (simp_all add: marked_def)
    obtain u1 where u1: "exec_result_of S (Break ?b) = Executed (cx_n ?b) (cx_parser ?b) u1"
      "rel_out D (cx_n ?b) (exec_loop S ?b) (exec_loop S (initial_cfg (cx_parser ?b) (cx_rest ?b) u1))"
      by (rule restart[OF c'(1-3)])
    have q1: "parser_ok (cx_parser c')" using c'(1) by (simp add: cfg_ok_def)
    have "exec_result_of S (Break c') = Executed (length a) (cx_parser c') u1"
      using u1(1) c'(4) same_end_result[of "Break ?b" "Break c'" S] by (simp add: same_end_def)
    then have first: "http_parser_execute S q a u = Executed (length a) (cx_parser c') u1"
      using exec[OF assms(2)] Break by simp
    have "cfg_ok d" if "exec_loop S (initial_cfg (cx_parser c') b u1) = Break d" for d
      using exec_loop_ok[OF initial_cfg_ok[OF q1], of S b u1] that by simp
    then have "res_rel (length a) (exec_result_of S (exec_loop S ?b)) (exec_result_of S (exec_loop S (initial_cfg (cx_parser c') b u1)))"
      using rel_result[of "length a"] u1(2) c'(4) exec_loop_ok[OF c'(1), of S] by simp
    moreover have "http_parser_execute S (cx_parser c') b u1 = exec_result_of S (exec_loop S (initial_cfg (cx_parser c') b u1))"
      using q1 assms(3) by (simp add: http_parser_execute_def parser_ok_def)
    ultimately show ?thesis using first q1 whole Break by auto
  next
    case (Return n c')
    then show ?thesis using whole exec[OF assms(2), of u] by (simp add: exec_result_of_def)
  qed (use loop whole exec[OF assms(2), of u] in \<open>simp_all add: exec_result_of_def quiet_OK\<close>)
qed

text \<open>However the bytes are cut, the parser ends up the same, and without an error of the input so does the message.\<close>

lemma segmentation:
  assumes "parser_ok q" "pieces \<noteq> []" "[] \<notin> set pieces"
    "http_parser_execute S q (concat pieces) u = Executed n q' u'" "ps_errno q' \<noteq> HPE_OK \<or> n = length (concat pieces)"
  shows "\<exists>k u''. feed S q pieces u = Executed k q' u'' \<and> (quiet (ps_errno q') \<longrightarrow> u'' = u')"
  using assms
proof (induction pieces arbitrary: q u n u')
  case (Cons p ps)
  show ?case
  proof (cases "ps = []")
    case True
    then show ?thesis using Cons.prems by simp
  next
    case False
    have "p \<noteq> []" using Cons.prems(3) by auto
    moreover have "concat ps \<noteq> []" using False Cons.prems(3) by (cases ps) auto
    ultimately have b: "concat ps \<noteq> []" "p \<noteq> []" by blast+
    from execute_append[OF Cons.prems(1) b(2,1), of u] show ?thesis
    proof
      assume "\<exists>q1 u1. http_parser_execute S q p u = Executed (length p) q1 u1 \<and> parser_ok q1 \<and>
        res_rel (length p) (http_parser_execute S q (p @ concat ps) u) (http_parser_execute S q1 (concat ps) u1)"
      then obtain q1 u1 n2 u2 where q1: "http_parser_execute S q p u = Executed (length p) q1 u1" "parser_ok q1"
        "http_parser_execute S q1 (concat ps) u1 = Executed n2 q' u2" "n = length p + n2" "quiet (ps_errno q') \<longrightarrow> u2 = u'"
        using Cons.prems(4) by (auto simp: res_rel_def)
      then have "\<exists>k u''. feed S q1 ps u1 = Executed k q' u'' \<and> (quiet (ps_errno q') \<longrightarrow> u'' = u2)"
        using Cons.IH[OF q1(2) False _ q1(3)] Cons.prems(3,5) by simp
      then show ?thesis using q1(1,5) by auto
    next
      assume "\<exists>n q1 u1. http_parser_execute S q (p @ concat ps) u = Executed n q1 u1 \<and>
        http_parser_execute S q p u = Executed n q1 u1"
      then have stop: "http_parser_execute S q p u = Executed n q' u'" using Cons.prems(4) by auto
      then have "ps_errno q' \<noteq> HPE_OK" using Cons.prems(5) b(1) execute_bound(1)[OF Cons.prems(1) b(2) stop] by auto
      then show ?thesis using stop(1) by (simp add: feed_error)
    qed
  qed
qed simp

end

end
