(* ===== verification/Http_Handler.thy ===== *)
theory Http_Handler
  imports Http_Parser_Stream Http_Types
begin

text \<open>
  The request and the response parser of \<open>fiber-server/HttpProtocolHandler.cpp\<close>: the callbacks that collect a
  message and the loops that read the socket.  The request callback \<open>cb_\<close> and the close and error callbacks of the
  connection are parameters; the contents of the uninitialised \<open>http_parser_url\<close> is one as well.
\<close>

section \<open>The callbacks\<close>

datatype parser_state = P_none | P_start | P_url | P_status | P_field | P_value | P_body | P_end

text \<open>\<open>headers_.rbegin()\<close> of an empty list is undefined.\<close>

definition update_last :: "(header_t \<Rightarrow> header_t) \<Rightarrow> headers_t \<Rightarrow> headers_t option" where
  "update_last f hs = (if hs = [] then None else Some (butlast hs @ [f (last hs)]))"

definition add_header_field :: "parser_state \<Rightarrow> string \<Rightarrow> headers_t \<Rightarrow> headers_t option" where
  "add_header_field st s hs =
     (if st = P_field then update_last (\<lambda>(k, v). (k @ s, v)) hs else Some (hs @ [(s, '''')]))"

definition add_header_value :: "parser_state \<Rightarrow> string \<Rightarrow> headers_t \<Rightarrow> headers_t option" where
  "add_header_value st s hs = update_last (\<lambda>(k, v). (k, if st = P_value then v @ s else s)) hs"

subsection \<open>Requests\<close>

record 'w request_impl =
  ri_req :: request_t
  ri_url :: string
  ri_state :: parser_state
  ri_continue :: bool
  ri_undefined :: bool
  ri_conn :: 'w

definition request_headers :: "parser_state \<Rightarrow> headers_t option \<Rightarrow> 'w request_impl \<Rightarrow> 'w request_impl" where
  "request_headers st hs u =
     (case hs of
        None \<Rightarrow> u\<lparr>ri_undefined := True, ri_state := st\<rparr>
      | Some hs' \<Rightarrow> u\<lparr>ri_req := (ri_req u)\<lparr>rq_headers := hs'\<rparr>, ri_state := st\<rparr>)"

primrec request_on_data :: "mark \<Rightarrow> string \<Rightarrow> 'w request_impl \<Rightarrow> 'w request_impl" where
  "request_on_data M_url s u = u\<lparr>ri_url := (if ri_state u = P_url then ri_url u @ s else s), ri_state := P_url\<rparr>"
| "request_on_data M_status s u = u"
| "request_on_data M_header_field s u =
     request_headers P_field (add_header_field (ri_state u) s (rq_headers (ri_req u))) u"
| "request_on_data M_header_value s u =
     request_headers P_value (add_header_value (ri_state u) s (rq_headers (ri_req u))) u"
| "request_on_data M_body s u = u\<lparr>ri_req := (ri_req u)\<lparr>rq_body := rq_body (ri_req u) @ s\<rparr>, ri_state := P_body\<rparr>"

definition request_on_msg_begin :: "'w request_impl \<Rightarrow> 'w request_impl" where
  "request_on_msg_begin u = u\<lparr>ri_req := request_clear (ri_req u), ri_url := '''', ri_state := P_start\<rparr>"

text \<open>The parts of the URL that are set; the result of \<open>http_parser_parse_url\<close> is not looked at.\<close>

definition request_url_parts :: "http_parser_url \<Rightarrow> string \<Rightarrow> request_t \<Rightarrow> request_t option" where
  "request_url_parts u0 url r =
     (case http_parser_parse_url u0 url False of
        None \<Rightarrow> None
      | Some (_, p) \<Rightarrow>
          Some (r\<lparr>rq_host := (if u_field_set p UF_HOST then url_text url p UF_HOST else rq_host r),
            rq_port := (if u_field_set p UF_PORT then int (u_port p) else 0),
            rq_path := (if u_field_set p UF_PATH then url_text url p UF_PATH else rq_path r),
            rq_query := (if u_field_set p UF_QUERY then url_text url p UF_QUERY else rq_query r)\<rparr>))"

type_synonym 'w request_cb = "request_t \<Rightarrow> 'w \<Rightarrow> request_t \<times> 'w \<times> bool"

definition request_on_msg_complete ::
  "'w request_cb \<Rightarrow> http_parser_url \<Rightarrow> http_parser \<Rightarrow> 'w request_impl \<Rightarrow> 'w request_impl \<times> int" where
  "request_on_msg_complete cb u0 q u =
     (let r = (ri_req u)\<lparr>rq_method := int (ps_method q), rq_http_major := int (ps_http_major q),
                rq_http_minor := int (ps_http_minor q)\<rparr>
      in case request_url_parts u0 (ri_url u) r of
           None \<Rightarrow> (u\<lparr>ri_undefined := True, ri_state := P_end\<rparr>, -1)
         | Some r1 \<Rightarrow>
             (case cb (r1\<lparr>rq_keep_alive := http_should_keep_alive q\<rparr>) (ri_conn u) of
                (r2, w, cont) \<Rightarrow>
                  (u\<lparr>ri_state := P_end, ri_req := r2, ri_conn := w, ri_continue := cont\<rparr>, if cont then 0 else -1)))"

definition request_settings :: "'w request_cb \<Rightarrow> http_parser_url \<Rightarrow> 'w request_impl settings" where
  "request_settings cb u0 =
     \<lparr>on_data = (\<lambda>m q s u. (request_on_data m s u, 0)),
      on_notify = (\<lambda>n q u.
        case n of
          N_message_begin \<Rightarrow> (request_on_msg_begin u, 0)
        | N_headers_complete \<Rightarrow> (u, 0)
        | N_message_complete \<Rightarrow> request_on_msg_complete cb u0 q u)\<rparr>"

subsection \<open>Responses\<close>

record response_impl =
  pi_resp :: response_t
  pi_state :: parser_state
  pi_continue :: bool
  pi_undefined :: bool

definition response_headers :: "parser_state \<Rightarrow> headers_t option \<Rightarrow> response_impl \<Rightarrow> response_impl" where
  "response_headers st hs u =
     (case hs of
        None \<Rightarrow> u\<lparr>pi_undefined := True, pi_state := st\<rparr>
      | Some hs' \<Rightarrow> u\<lparr>pi_resp := (pi_resp u)\<lparr>rp_headers := hs'\<rparr>, pi_state := st\<rparr>)"

primrec response_on_data :: "mark \<Rightarrow> string \<Rightarrow> response_impl \<Rightarrow> response_impl" where
  "response_on_data M_url s u = u"
| "response_on_data M_status s u =
     u\<lparr>pi_resp := (pi_resp u)\<lparr>rp_status_message := (if pi_state u = P_status then rp_status_message (pi_resp u) @ s else s)\<rparr>,
       pi_state := P_status\<rparr>"
| "response_on_data M_header_field s u =
     response_headers P_field (add_header_field (pi_state u) s (rp_headers (pi_resp u))) u"
| "response_on_data M_header_value s u =
     response_headers P_value (add_header_value (pi_state u) s (rp_headers (pi_resp u))) u"
| "response_on_data M_body s u = u\<lparr>pi_resp := (pi_resp u)\<lparr>rp_body := rp_body (pi_resp u) @ s\<rparr>, pi_state := P_body\<rparr>"

definition response_on_msg_begin :: "response_impl \<Rightarrow> response_impl" where
  "response_on_msg_begin u = u\<lparr>pi_resp := response_clear (pi_resp u), pi_state := P_start\<rparr>"

definition response_on_msg_complete :: "http_parser \<Rightarrow> response_impl \<Rightarrow> response_impl" where
  "response_on_msg_complete q u =
     u\<lparr>pi_state := P_end,
       pi_resp := (pi_resp u)\<lparr>rp_http_major := int (ps_http_major q), rp_http_minor := int (ps_http_minor q),
         rp_code := int (ps_status_code q), rp_keep_alive := http_should_keep_alive q\<rparr>,
       pi_continue := False\<rparr>"

definition response_settings :: "response_impl settings" where
  "response_settings =
     \<lparr>on_data = (\<lambda>m q s u. (response_on_data m s u, 0)),
      on_notify = (\<lambda>n q u.
        case n of
          N_message_begin \<Rightarrow> (response_on_msg_begin u, 0)
        | N_headers_complete \<Rightarrow> (u, 0)
        | N_message_complete \<Rightarrow> (response_on_msg_complete q u, 0))\<rparr>"

section \<open>The loops over the socket\<close>

text \<open>What \<open>async_read_some\<close> gives: an error other than the end of the stream, or bytes, none at the end of the stream.\<close>

datatype read_event = Read_error | Read string

datatype parse_end = Reading | Read_failed | Peer_closed | Stopped | Parse_failed

record 'w conn_cbs =
  close_cb :: "'w \<Rightarrow> 'w"
  read_error_cb :: "'w \<Rightarrow> 'w"

definition tell_conn :: "('w \<Rightarrow> 'w) \<Rightarrow> 'w request_impl \<Rightarrow> 'w request_impl" where
  "tell_conn f u = u\<lparr>ri_conn := f (ri_conn u)\<rparr>"

text \<open>One turn of the loop of \<open>do_parse\<close> and of \<open>read_some_handler\<close>, which do the same; \<open>None\<close> is an abort.\<close>

definition read_some_handler ::
  "'w request_impl settings \<Rightarrow> 'w conn_cbs \<Rightarrow> http_parser \<Rightarrow> 'w request_impl \<Rightarrow> read_event \<Rightarrow>
     (parse_end \<times> http_parser \<times> 'w request_impl) option" where
  "read_some_handler S C q u ev =
     (case ev of
        Read_error \<Rightarrow> Some (Read_failed, http_parser_init HTTP_REQUEST, tell_conn (read_error_cb C) u)
      | Read bytes \<Rightarrow>
          (case http_parser_execute S q bytes u of
             Aborted \<Rightarrow> None
           | Executed nparsed q' u' \<Rightarrow>
               if bytes = [] then Some (Peer_closed, http_parser_init HTTP_REQUEST, tell_conn (close_cb C) u')
               else if \<not> ri_continue u' then Some (Stopped, http_parser_init HTTP_REQUEST, u')
               else if nparsed \<noteq> length bytes
               then Some (Parse_failed, http_parser_init HTTP_REQUEST, tell_conn (close_cb C) u')
               else Some (Reading, q', u')))"

fun parse_loop ::
  "'w request_impl settings \<Rightarrow> 'w conn_cbs \<Rightarrow> http_parser \<Rightarrow> 'w request_impl \<Rightarrow> read_event list \<Rightarrow>
     (parse_end \<times> http_parser \<times> 'w request_impl) option" where
  "parse_loop S C q u [] = Some (Reading, q, u)"
| "parse_loop S C q u (ev # evs) =
     (case read_some_handler S C q u ev of
        None \<Rightarrow> None
      | Some (Reading, q', u') \<Rightarrow> parse_loop S C q' u' evs
      | Some r \<Rightarrow> Some r)"

definition do_parse ::
  "'w request_impl settings \<Rightarrow> 'w conn_cbs \<Rightarrow> http_parser \<Rightarrow> 'w request_impl \<Rightarrow> read_event list \<Rightarrow>
     (parse_end \<times> http_parser \<times> 'w request_impl) option" where
  "do_parse S C q u evs = parse_loop S C q (u\<lparr>ri_continue := True, ri_state := P_none\<rparr>) evs"

text \<open>\<open>parse\<close> of the response parser: the result, the parser that stays for the next response and the message;
  \<open>None\<close> is an abort.  A list that ends is a socket that was closed here.\<close>

fun response_loop ::
  "http_parser \<Rightarrow> response_impl \<Rightarrow> read_event list \<Rightarrow> (bool \<times> http_parser \<times> response_impl) option" where
  "response_loop q u [] = Some (True, q, u)"
| "response_loop q u (Read_error # evs) = Some (False, http_parser_init HTTP_RESPONSE, u)"
| "response_loop q u (Read bytes # evs) =
     (case http_parser_execute response_settings q bytes u of
        Aborted \<Rightarrow> None
      | Executed nparsed q' u' \<Rightarrow>
          if bytes = [] then Some (True, http_parser_init HTTP_RESPONSE, u')
          else if \<not> pi_continue u'
          then Some (True, if rp_keep_alive (pi_resp u') then q' else http_parser_init HTTP_RESPONSE, u')
          else if nparsed \<noteq> length bytes then Some (False, http_parser_init HTTP_RESPONSE, u')
          else response_loop q' u' evs)"

definition response_parse ::
  "http_parser \<Rightarrow> response_impl \<Rightarrow> read_event list \<Rightarrow> (bool \<times> http_parser \<times> response_impl) option" where
  "response_parse q u evs = response_loop q (u\<lparr>pi_continue := True, pi_state := P_none\<rparr>) evs"

section \<open>The callbacks append\<close>

lemma update_last_twice: "update_last f hs = Some hs' \<Longrightarrow> update_last g hs' = update_last (\<lambda>h. g (f h)) hs"
  by (auto simp: update_last_def split: if_splits)

lemma add_header_field_append:
  "add_header_field st (s @ t) hs = (case add_header_field st s hs of None \<Rightarrow> None | Some hs' \<Rightarrow> add_header_field P_field t hs')"
  by (auto simp: add_header_field_def update_last_def split: prod.splits)

lemma add_header_value_append:
  "add_header_value st (s @ t) hs = (case add_header_value st s hs of None \<Rightarrow> None | Some hs' \<Rightarrow> add_header_value P_value t hs')"
  by (auto simp: add_header_value_def update_last_def split: prod.splits)

lemma add_header_None: "add_header_field st s hs = None \<Longrightarrow> hs = []" "add_header_value st s hs = None \<Longrightarrow> hs = []"
  by (auto simp: add_header_field_def add_header_value_def update_last_def split: if_splits)

lemma add_header_Some: "add_header_field st s hs = Some hs' \<Longrightarrow> hs' \<noteq> []" "add_header_value st s hs = Some hs' \<Longrightarrow> hs' \<noteq> []"
  by (auto simp: add_header_field_def add_header_value_def update_last_def split: if_splits)

lemma add_header_Nil: "add_header_field P_field t [] = None" "add_header_value st t [] = None"
  by (simp_all add: add_header_field_def add_header_value_def update_last_def)

lemma request_on_data_append: "request_on_data m (s @ t) u = request_on_data m t (request_on_data m s u)"
proof (cases m)
  case M_header_field
  then show ?thesis
    by (auto simp: request_headers_def add_header_field_append[of _ s] add_header_Nil split: option.split dest: add_header_None add_header_Some)
next
  case M_header_value
  then show ?thesis
    by (auto simp: request_headers_def add_header_value_append[of _ s] add_header_Nil split: option.split dest: add_header_None add_header_Some)
qed simp_all

lemma response_on_data_append: "response_on_data m (s @ t) u = response_on_data m t (response_on_data m s u)"
proof (cases m)
  case M_header_field
  then show ?thesis
    by (auto simp: response_headers_def add_header_field_append[of _ s] add_header_Nil split: option.split dest: add_header_None add_header_Some)
next
  case M_header_value
  then show ?thesis
    by (auto simp: response_headers_def add_header_value_append[of _ s] add_header_Nil split: option.split dest: add_header_None add_header_Some)
qed simp_all

interpretation request_cbs: append_callbacks "request_settings cb u0" request_on_data
  by unfold_locales (simp_all add: request_settings_def request_on_data_append)

interpretation response_cbs: append_callbacks response_settings response_on_data
  by unfold_locales (simp_all add: response_settings_def response_on_data_append)

section \<open>Invariants of the callbacks\<close>

text \<open>While no callback stops the parser \<open>I\<close> holds, after one that does \<open>J\<close>.\<close>

definition callbacks_keep :: "('u \<Rightarrow> bool) \<Rightarrow> ('u \<Rightarrow> bool) \<Rightarrow> 'u settings \<Rightarrow> bool" where
  "callbacks_keep I J S \<longleftrightarrow>
     (\<forall>m q s u. I u \<longrightarrow> I (fst (on_data S m q s u)) \<and> (snd (on_data S m q s u) \<noteq> 0 \<longrightarrow> J (fst (on_data S m q s u)))) \<and>
     (\<forall>n q u. I u \<longrightarrow> (snd (on_notify S n q u) \<in> {0, 1} \<longrightarrow> I (fst (on_notify S n q u))) \<and>
        (snd (on_notify S n q u) \<noteq> 0 \<longrightarrow> J (fst (on_notify S n q u))))"

lemma callbacks_keepD:
  "callbacks_keep I J S \<Longrightarrow> I u \<Longrightarrow> on_data S m q s u = (u', r) \<Longrightarrow> I u' \<and> (r \<noteq> 0 \<longrightarrow> J u')"
  "callbacks_keep I J S \<Longrightarrow> I u \<Longrightarrow> on_notify S n q u = (u', r) \<Longrightarrow> (r \<in> {0, 1} \<longrightarrow> I u') \<and> (r \<noteq> 0 \<longrightarrow> J u')"
  unfolding callbacks_keep_def by (metis fst_conv snd_conv)+

definition user_out :: "('u \<Rightarrow> bool) \<Rightarrow> ('u \<Rightarrow> bool) \<Rightarrow> 'u outcome \<Rightarrow> bool" where
  "user_out I J out =
     (case out of
        Break c \<Rightarrow> I (cx_user c) | Reexec c \<Rightarrow> I (cx_user c) | Error e c \<Rightarrow> I (cx_user c)
      | Return n c \<Rightarrow> if ps_errno (cx_parser c) = HPE_OK then I (cx_user c) else J (cx_user c)
      | Abort \<Rightarrow> True)"

lemma user_out_simps [simp]:
  "user_out I J (Break c) = I (cx_user c)" "user_out I J (Reexec c) = I (cx_user c)" "user_out I J (Error e c) = I (cx_user c)"
  "user_out I J Abort"
  "user_out I J (Return n c) \<longleftrightarrow> (if ps_errno (cx_parser c) = HPE_OK then I (cx_user c) else J (cx_user c))"
  by (simp_all add: user_out_def)

lemma user_out_notify:
  assumes "callbacks_keep I J S" "I (cx_user c)" "\<And>u. I u \<Longrightarrow> user_out I J (K (c\<lparr>cx_user := u\<rparr>))"
  shows "user_out I J (notify S n er c K)"
proof -
  obtain u r where on: "on_notify S n (cx_parser c) (cx_user c) = (u, r)" by (rule prod.exhaust)
  have "notify_error n \<noteq> HPE_OK" by (cases n) simp_all
  then show ?thesis using assms(3) on callbacks_keepD(2)[OF assms(1,2) on] by (simp add: notify_def Let_def)
qed

lemma user_out_callback_data:
  assumes "callbacks_keep I J S" "I (cx_user c)" "\<And>u ms. I u \<Longrightarrow> user_out I J (K (c\<lparr>cx_user := u, cx_marks := ms\<rparr>))"
    "user_out I J (K c)"
  shows "user_out I J (callback_data S m extra er c K)"
proof (cases "cx_marks c m")
  case (Some s)
  obtain u r where on: "on_data S m (cx_parser c) (s @ extra) (cx_user c) = (u, r)" by (rule prod.exhaust)
  have "data_error m \<noteq> HPE_OK" by (cases m) simp_all
  then show ?thesis using assms(3) Some on callbacks_keepD(1)[OF assms(1,2) on] by (simp add: callback_data_def Let_def)
qed (use assms(4) in \<open>simp add: callback_data_def\<close>)

lemma user_out_message_complete:
  assumes "callbacks_keep I J S" "I (cx_user c)" "\<And>u s. I u \<Longrightarrow> user_out I J (K ((goto s c)\<lparr>cx_user := u\<rparr>))"
  shows "user_out I J (message_complete S er c K)"
  unfolding message_complete_def using assms by (intro user_out_notify) simp_all

lemma user_out_headers:
  assumes "callbacks_keep I J S" "I (cx_user c)" "ps_errno (cx_parser c) = HPE_OK"
  shows "user_out I J (exec_headers_almost_done S ch c)"
proof -
  let ?q = "(cx_parser c)\<lparr>ps_state := s_headers_done, ps_upgrade := (f_upgrade (cx_parser c) \<or> ps_method (cx_parser c) = HTTP_CONNECT)\<rparr>"
  obtain u r where on: "on_notify S N_headers_complete ?q (cx_user c) = (u, r)" by (rule prod.exhaust)
  show ?thesis using assms on callbacks_keepD(2)[OF assms(1,2) on]
    by (simp add: exec_headers_almost_done_def Let_def user_out_message_complete)
qed

lemma user_out_switch:
  assumes "callbacks_keep I J S" "I (cx_user c)" "ps_errno (cx_parser c) = HPE_OK"
  shows "user_out I J (exec_switch S ch c)"
proof (cases "ps_state (cx_parser c) = s_headers_almost_done")
  case True
  then show ?thesis using user_out_headers[OF assms] by (simp add: exec_switch_def)
next
  case False
  have "I (cx_user (take_body c))" using assms(2) by (simp add: take_body_def Let_def)
  with False show ?thesis using assms
    by (cases "ps_state (cx_parser c)")
       (simp_all add: exec_switch_def handler_defs Let_def user_out_notify user_out_callback_data user_out_message_complete
         split: option.split header_states.split)
qed

lemma user_out_reexec: "callbacks_keep I J S \<Longrightarrow> I (cx_user c) \<Longrightarrow> switch_ok c \<Longrightarrow> user_out I J (exec_reexec S ch c)"
proof (induction S ch c rule: exec_reexec.induct)
  case (1 S ch c)
  have sw: "user_out I J (exec_switch S ch c)"
    using user_out_switch[OF "1.prems"(1,2)] "1.prems"(3) by (simp add: switch_ok_def)
  show ?case
  proof (cases "exec_switch S ch c")
    case (Reexec c')
    then show ?thesis using "1.IH"[OF Reexec "1.prems"(1)] sw exec_switch_ok[OF "1.prems"(3), of S ch]
      by (simp add: exec_reexec.simps[of S ch c])
  qed (use sw in \<open>simp_all add: exec_reexec.simps[of S ch c]\<close>)
qed

lemma user_out_byte:
  assumes "callbacks_keep I J S" "I (cx_user c)" "cfg_ok c" "cx_rest c \<noteq> []"
  shows "user_out I J (exec_byte S ch c)"
  using assms counted_switch_ok[OF assms(3,4)] user_out_reexec[OF assms(1)]
  by (auto simp: exec_byte_def Let_def)

lemma user_out_loop: "callbacks_keep I J S \<Longrightarrow> I (cx_user c) \<Longrightarrow> cfg_ok c \<Longrightarrow> user_out I J (exec_loop S c)"
proof (induction S c rule: exec_loop.induct)
  case (1 S c)
  show ?case
  proof (cases "cx_rest c")
    case (Cons ch cs)
    have byte: "user_out I J (exec_byte S ch c)" "result_ok (exec_byte S ch c)"
      using user_out_byte[OF "1.prems", of ch] exec_byte_ok[OF "1.prems"(3), of S ch] Cons by simp_all
    show ?thesis
    proof (cases "exec_byte S ch c")
      case (Break c')
      then show ?thesis using "1.IH"[OF Cons Break "1.prems"(1)] byte Cons by (simp add: exec_loop.simps[of S c])
    qed (use byte Cons in \<open>simp_all add: exec_loop.simps[of S c]\<close>)
  qed (use "1.prems" in \<open>simp add: exec_loop_end\<close>)
qed

lemma flush_keeps:
  assumes "callbacks_keep I J S" "I (cx_user c)" "ps_errno (cx_parser c) = HPE_OK"
  shows "user_out I J (flush_marks S c)"
  using assms by (simp add: flush_marks_def user_out_callback_data)

text \<open>An invariant of the callbacks can only be lost by a callback that stops the parser.\<close>

lemma execute_keeps:
  assumes "callbacks_keep I J S" "I u" "parser_ok q" "bytes \<noteq> []" "http_parser_execute S q bytes u = Executed n q' u'"
  shows "I u' \<or> ps_errno q' \<noteq> HPE_OK \<and> quiet (ps_errno q') \<and> J u'"
proof -
  let ?c = "initial_cfg q bytes u"
  have loop: "result_ok (exec_loop S ?c)" "\<And>c'. exec_loop S ?c \<noteq> Reexec c'"
    using exec_loop_ok[OF initial_cfg_ok[OF assms(3)], of S bytes u] by simp_all
  have keep: "user_out I J (exec_loop S ?c)"
    using user_out_loop[OF assms(1) _ initial_cfg_ok[OF assms(3)]] assms(2) by (simp add: initial_cfg_def)
  have res: "exec_result_of S (exec_loop S ?c) = Executed n q' u'"
    using assms(3-5) by (simp add: http_parser_execute_def parser_ok_def)
  show ?thesis
  proof (cases "exec_loop S ?c")
    case (Break c)
    have cfg: "cfg_ok c" and user: "I (cx_user c)" using loop(1) keep Break by simp_all
    obtain m where m: "flush_marks S c = Return (cx_n c) m" "quiet (ps_errno (cx_parser m))"
      by (rule flush_marks_ok[OF cfg])
    have "if ps_errno (cx_parser m) = HPE_OK then I (cx_user m) else J (cx_user m)"
      using flush_keeps[OF assms(1) user] m(1) cfg by (simp add: cfg_ok_def parser_ok_def)
    then show ?thesis using res Break m by (auto simp: exec_result_of_def split: if_splits)
  qed (use loop keep res in \<open>auto simp: exec_result_of_def split: if_splits\<close>)
qed

section \<open>Segmentation\<close>

lemma request_keeps_continue: "callbacks_keep ri_continue (\<lambda>_. True) (request_settings cb u0)"
proof -
  have data: "ri_continue (request_on_data m s u) = ri_continue u" for m s and u :: "'a request_impl"
    by (cases m) (simp_all add: request_headers_def split: option.split)
  have notify: "ri_continue (fst (request_on_msg_complete cb u0 q u))" if "ri_continue u" "snd (request_on_msg_complete cb u0 q u) \<in> {0, 1}" for q u
    using that by (auto simp: request_on_msg_complete_def Let_def split: option.splits prod.splits if_splits)
  show ?thesis using data notify
    by (auto simp: callbacks_keep_def request_settings_def request_on_msg_begin_def split: notification.split)
qed

text \<open>What one read gives when it is neither refused nor the end of the stream.\<close>

lemma read_handled:
  fixes cb :: "'w request_cb" and u0 :: http_parser_url
  defines "S \<equiv> request_settings cb u0"
  assumes "parser_ok q" "ri_continue u" "bytes \<noteq> []"
    "read_some_handler S C q u (Read bytes) = Some (r, q', u')" "r \<in> {Reading, Stopped}"
  obtains n q1 where "http_parser_execute S q bytes u = Executed n q1 u'" "quiet (ps_errno q1)"
    "if ri_continue u' then n = length bytes \<and> r = Reading \<and> q' = q1 else r = Stopped \<and> q' = http_parser_init HTTP_REQUEST"
proof -
  obtain n q1 u1 where w: "http_parser_execute S q bytes u = Executed n q1 u1"
    using assms(5) by (auto simp: read_some_handler_def split: exec_result.splits)
  have whole: "u1 = u'" "if ri_continue u' then n = length bytes \<and> r = Reading \<and> q' = q1
      else r = Stopped \<and> q' = http_parser_init HTTP_REQUEST"
    using assms(4-6) w by (auto simp: read_some_handler_def split: if_splits)
  have "quiet (ps_errno q1)"
    using execute_bound(2)[OF assms(2,4) w] execute_keeps[OF request_keeps_continue assms(3,2,4) w[unfolded S_def]] whole
    by (auto split: if_splits)
  then show ?thesis using that w whole by blast
qed

lemma parse_loop_pieces:
  fixes cb :: "'w request_cb" and u0 :: http_parser_url
  defines "S \<equiv> request_settings cb u0"
  assumes "parser_ok q" "ri_continue u" "pieces \<noteq> []" "[] \<notin> set pieces"
    "read_some_handler S C q u (Read (concat pieces)) = Some (r, q', u')" "r \<in> {Reading, Stopped}"
  shows "parse_loop S C q u (map Read pieces) = Some (r, q', u')"
  using assms(2-)
proof (induction pieces arbitrary: q u)
  case (Cons p ps)
  show ?case
  proof (cases "ps = []")
    case True
    then show ?thesis using Cons.prems(5,6) by (auto split: parse_end.split)
  next
    case False
    have p: "p \<noteq> []" using Cons.prems(4) by auto
    have b: "concat ps \<noteq> []" using False Cons.prems(4) by (cases ps) auto
    have ne: "concat (p # ps) \<noteq> []" using p by simp
    obtain n q1 where w0: "http_parser_execute S q (concat (p # ps)) u = Executed n q1 u'" "quiet (ps_errno q1)"
      "if ri_continue u' then n = length (concat (p # ps)) \<and> r = Reading \<and> q' = q1
       else r = Stopped \<and> q' = http_parser_init HTTP_REQUEST"
      unfolding S_def by (rule read_handled[OF Cons.prems(1,2) ne Cons.prems(5)[unfolded S_def] Cons.prems(6)])
    then have w: "http_parser_execute S q (p @ concat ps) u = Executed n q1 u'" "quiet (ps_errno q1)"
      "if ri_continue u' then n = length p + length (concat ps) \<and> r = Reading \<and> q' = q1
       else r = Stopped \<and> q' = http_parser_init HTTP_REQUEST" by simp_all
    consider (on) q2 u2 n2 where "http_parser_execute S q p u = Executed (length p) q2 u2" "parser_ok q2"
        "http_parser_execute S q2 (concat ps) u2 = Executed n2 q1 u'" "n = length p + n2"
      | (stop) "http_parser_execute S q p u = Executed n q1 u'"
      using request_cbs.execute_append[OF Cons.prems(1) p b, of cb u0 u] w(1,2) unfolding S_def[symmetric]
      by (auto simp: res_rel_def)
    then show ?thesis
    proof cases
      case on
      have cont: "ri_continue u2"
        using execute_keeps[OF request_keeps_continue Cons.prems(2,1) p on(1)[unfolded S_def]] on(2)
        by (auto simp: parser_ok_def)
      have "read_some_handler S C q2 u2 (Read (concat ps)) = Some (r, q', u')"
        using on(3,4) w(3) b by (auto simp: read_some_handler_def split: if_splits)
      then have "parse_loop S C q2 u2 (map Read ps) = Some (r, q', u')"
        using Cons.IH[OF on(2) cont False] Cons.prems(4,6) by simp
      then show ?thesis using on(1) cont p by (simp add: read_some_handler_def)
    next
      case stop
      then have "\<not> ri_continue u'" using execute_bound(1)[OF Cons.prems(1) p stop] w(3) b by (auto split: if_splits)
      then show ?thesis using stop w(3) p by (simp add: read_some_handler_def)
    qed
  qed
qed simp


text \<open>\<^bold>\<open>C32\<close>. The way TCP cuts a connection's bytes does not matter: if the server, given all the bytes at once, reads
  on or is told by its handler to stop, then given the same bytes in any number of non-empty pieces it hands the
  same requests to the handler and ends in the same state.\<close>

theorem request_segmentation:
  assumes "pieces \<noteq> []" "[] \<notin> set pieces"
    "do_parse (request_settings cb u0) C (http_parser_init HTTP_REQUEST) u [Read (concat pieces)] = Some (r, q, u')"
    "r = Reading \<or> r = Stopped"
  shows "do_parse (request_settings cb u0) C (http_parser_init HTTP_REQUEST) u (map Read pieces) = Some (r, q, u')"
proof -
  let ?S = "request_settings cb u0" and ?u = "u\<lparr>ri_continue := True, ri_state := P_none\<rparr>"
  have "parser_ok (http_parser_init HTTP_REQUEST)"
    using init_resumable[of HTTP_REQUEST] by (simp add: resumable_def http_parser_init_def)
  moreover have "read_some_handler ?S C (http_parser_init HTTP_REQUEST) ?u (Read (concat pieces)) = Some (r, q, u')"
    using assms(3,4) by (auto simp: do_parse_def split: option.splits parse_end.splits)
  ultimately show ?thesis
    using parse_loop_pieces[of "http_parser_init HTTP_REQUEST" ?u pieces cb u0 C r q u'] assms(1,2,4) by (simp add: do_parse_def)
qed

definition wit_request :: string where
  "wit_request = ''GET /a?b HTTP/1.1'' @ [CR, LF] @ ''X: y'' @ [CR, LF] @ ''Content-Length: 2'' @ [CR, LF, CR, LF] @ ''hi''"

definition wit_impl :: "request_t list request_impl" where
  "wit_impl = \<lparr>ri_req = request_new, ri_url = '''', ri_state = P_none, ri_continue = True, ri_undefined = False, ri_conn = []\<rparr>"

definition wit_cb :: "request_t list request_cb" where
  "wit_cb = (\<lambda>r w. (r, w @ [r], True))"

definition wit_conn :: "request_t list conn_cbs" where
  "wit_conn = \<lparr>close_cb = (\<lambda>w. w), read_error_cb = (\<lambda>w. w)\<rparr>"

lemma reading_cases:
  assumes "case x of Some (Reading, q, u) \<Rightarrow> P q u | _ \<Rightarrow> False"
  obtains q u where "x = Some (Reading, q, u)" "P q u"
proof (cases x)
  case (Some y)
  obtain e q u where "y = (e, q, u)" by (rule prod_cases3)
  then show ?thesis using assms Some that by (cases e) simp_all
qed (use assms in simp)

lemma wit_one_read:
  "case do_parse (request_settings wit_cb garbage_url) wit_conn (http_parser_init HTTP_REQUEST) wit_impl [Read wit_request] of
     Some (Reading, q, u) \<Rightarrow> map (\<lambda>r. (rq_path r, rq_query r, rq_headers r, rq_body r, rq_keep_alive r)) (ri_conn u) =
       [(''/a'', ''b'', [(''X'', ''y''), (''Content-Length'', ''2'')], ''hi'', True)] | _ \<Rightarrow> False"
  by code_simp

theorem request_segmentation_witness:
  "case do_parse (request_settings wit_cb garbage_url) wit_conn (http_parser_init HTTP_REQUEST) wit_impl
       (map Read [take 6 wit_request, take 20 (drop 6 wit_request), drop 26 wit_request]) of
     Some (Reading, q, u) \<Rightarrow> map (\<lambda>r. (rq_path r, rq_query r, rq_headers r, rq_body r, rq_keep_alive r)) (ri_conn u) =
       [(''/a'', ''b'', [(''X'', ''y''), (''Content-Length'', ''2'')], ''hi'', True)] | _ \<Rightarrow> False"
proof -
  let ?pieces = "[take 6 wit_request, take 20 (drop 6 wit_request), drop 26 wit_request]"
  obtain q u where w: "do_parse (request_settings wit_cb garbage_url) wit_conn (http_parser_init HTTP_REQUEST) wit_impl
      [Read wit_request] = Some (Reading, q, u)"
    by (rule reading_cases[OF wit_one_read])
  have "concat ?pieces = wit_request" "[] \<notin> set ?pieces" by (simp_all add: wit_request_def)
  then show ?thesis
    using request_segmentation[of ?pieces wit_cb garbage_url wit_conn wit_impl Reading q u] w wit_one_read by simp
qed


section \<open>Responses\<close>

lemma execute_always_keeps:
  assumes "callbacks_keep I I S" "I u" "resumable q" "http_parser_execute S q bytes u = Executed n q' u'"
  shows "I u'"
proof (cases "ps_errno q = HPE_OK \<and> bytes \<noteq> []")
  case True
  then show ?thesis using execute_keeps[OF assms(1,2) _ _ assms(4)] assms(3) by (auto simp: resumable_def)
next
  case False
  obtain v r where "on_notify S N_message_complete q u = (v, r)" by (rule prod.exhaust)
  moreover have "I v" using callbacks_keepD(2)[OF assms(1,2) calculation] by auto
  ultimately show ?thesis using False assms(2,4)
    by (cases "ps_state q") (auto simp: http_parser_execute_def split: if_splits)
qed

lemma response_keeps_code:
  "callbacks_keep (\<lambda>u. rp_code (pi_resp u) = status_val GATEWAY_TIMEOUT \<or> \<not> pi_continue u)
     (\<lambda>u. rp_code (pi_resp u) = status_val GATEWAY_TIMEOUT \<or> \<not> pi_continue u) response_settings"
proof -
  have "rp_code (pi_resp (response_on_data m s u)) = rp_code (pi_resp u) \<and> pi_continue (response_on_data m s u) = pi_continue u" for m s u
    by (cases m) (simp_all add: response_headers_def split: option.split)
  then show ?thesis
    by (simp add: callbacks_keep_def response_settings_def response_on_msg_begin_def response_clear_def
        response_on_msg_complete_def split: notification.split)
qed

lemma response_loop_code:
  assumes "resumable q" "rp_code (pi_resp u) = status_val GATEWAY_TIMEOUT \<or> \<not> pi_continue u"
    "response_loop q u evs = Some (ok, q', u')"
  shows "rp_code (pi_resp u') = status_val GATEWAY_TIMEOUT \<or> \<not> pi_continue u'"
  using assms
proof (induction q u evs rule: response_loop.induct)
  case (3 q u bytes evs)
  obtain n q1 u1 where ex: "http_parser_execute response_settings q bytes u = Executed n q1 u1" "resumable q1"
    by (rule execute_resumable[OF "3.prems"(1)])
  have "rp_code (pi_resp u1) = status_val GATEWAY_TIMEOUT \<or> \<not> pi_continue u1"
    using execute_always_keeps[OF response_keeps_code "3.prems"(2,1) ex(1)] .
  then show ?case using "3.IH"[OF ex(1)] "3.prems"(3) ex by (auto split: if_splits)
qed auto

text \<open>\<^bold>\<open>C33\<close>. A response with any status but 504 was received completely: when the peer closes the connection in the
  middle of a response, \<open>parse\<close> still returns true, but the status it leaves is 504.\<close>

theorem response_status_means_complete:
  assumes "resumable q" "pi_resp u = response_clear r" "response_parse q u evs = Some (ok, q', u')"
    "rp_code (pi_resp u') \<noteq> status_val GATEWAY_TIMEOUT"
  shows "\<not> pi_continue u'"
  using response_loop_code[OF assms(1) _ assms(3)[unfolded response_parse_def]] assms(2,4) by (simp add: response_clear_def)

definition wit_response :: string where
  "wit_response = ''HTTP/1.1 200 OK'' @ [CR, LF] @ ''Content-Length: 2'' @ [CR, LF, CR, LF] @ ''hi''"

definition wit_resp_impl :: response_impl where
  "wit_resp_impl = \<lparr>pi_resp = response_clear response_new, pi_state = P_none, pi_continue = True, pi_undefined = False\<rparr>"

lemma wit_response_read:
  "case response_parse (http_parser_init HTTP_RESPONSE) wit_resp_impl [Read (take 20 wit_response), Read (drop 20 wit_response)] of
     Some (ok, q, u) \<Rightarrow> ok \<and> rp_code (pi_resp u) = 200 \<and> rp_status_message (pi_resp u) = ''OK'' \<and> rp_body (pi_resp u) = ''hi''
   | None \<Rightarrow> False"
  by code_simp

lemma wit_response_cut:
  "case response_parse (http_parser_init HTTP_RESPONSE) wit_resp_impl [Read (take 20 wit_response), Read ''''] of
     Some (ok, q, u) \<Rightarrow> ok \<and> rp_code (pi_resp u) = 504 | None \<Rightarrow> False"
  by code_simp

theorem response_status_means_complete_witness:
  "(case response_parse (http_parser_init HTTP_RESPONSE) wit_resp_impl [Read (take 20 wit_response), Read (drop 20 wit_response)] of
      Some (ok, q, u) \<Rightarrow> ok \<and> rp_code (pi_resp u) = 200 \<and> rp_body (pi_resp u) = ''hi'' \<and> \<not> pi_continue u | None \<Rightarrow> False) \<and>
   (case response_parse (http_parser_init HTTP_RESPONSE) wit_resp_impl [Read (take 20 wit_response), Read ''''] of
      Some (ok, q, u) \<Rightarrow> ok \<and> rp_code (pi_resp u) = 504 | None \<Rightarrow> False)"
proof -
  have clear: "pi_resp wit_resp_impl = response_clear response_new" by (simp add: wit_resp_impl_def)
  show ?thesis
    using wit_response_read wit_response_cut response_status_means_complete[OF init_resumable clear]
    by (auto split: option.splits)
qed

end
