(* ===== verification/Http_Connection.thy ===== *)
theory Http_Connection
  imports Http_Handler Http_Wire "HOL-Library.Multiset"
begin

text \<open>
  The HTTP server connection of \<open>fiber-server/HttpConnection.cpp\<close>: the callbacks it gives to the request parser, the
  routing of a request to a handler, and the responses it writes.  The driver library (JSON requests and responses,
  the router and its handlers) is the argument \<open>http_env\<close>; the same argument says which writes to the socket
  succeed.  A write that fails throws: an operation then returns \<open>None\<close> beside the state it leaves.
\<close>

section \<open>State\<close>

record ('q, 'r) session_t =
  se_req :: request_t
  se_rsp :: response_t
  se_json_req :: 'q
  se_json_rsp :: 'r

text \<open>A handler of the router: an exception is \<open>None\<close>.  An asynchronous handler only says whether it takes the
  request; what it answers arrives later.\<close>

record ('q, 'r) handler_t =
  is_async :: bool
  invoke_raw :: "'q \<Rightarrow> 'r \<Rightarrow> string \<Rightarrow> string \<Rightarrow> int \<Rightarrow> ('q \<times> 'r \<times> string) option"
  invoke_raw_async :: "'q \<Rightarrow> 'r \<Rightarrow> string \<Rightarrow> string \<Rightarrow> int \<Rightarrow> bool"

record ('q, 'r) http_env =
  he_boost :: boost_lib
  he_new_request :: 'q
  he_new_response :: 'r
  he_set_success :: "'r \<Rightarrow> 'r"
  he_check_time :: "'q \<Rightarrow> bool"
  he_set_server_time :: "'r \<Rightarrow> 'r"
  he_write_json :: "'r \<Rightarrow> string"
  he_router_find :: "string \<Rightarrow> string \<Rightarrow> ('q, 'r) handler_t option"
  he_write_ok :: "nat \<Rightarrow> bool"

text \<open>\<open>hc_parser\<close>: the parser object exists.  \<open>hc_tasks\<close> are the requests handed to the fiber pool, \<open>hc_async\<close>
  those an asynchronous handler holds together with the callback that writes the answer; \<open>hc_seen\<close> is the history of
  the requests the parser handed over.\<close>

record ('q, 'r) http_conn =
  hc_out :: "string list"
  hc_writes :: nat
  hc_shut :: bool
  hc_parser :: bool
  hc_thrown :: bool
  hc_undefined :: bool
  hc_has_pool :: bool
  hc_seen :: "request_t list"
  hc_tasks :: "(string \<times> string \<times> ('q, 'r) session_t) list"
  hc_async :: "('q, 'r) session_t list"

definition http_conn_new :: "bool \<Rightarrow> ('q, 'r) http_conn" where
  "http_conn_new pool =
     \<lparr>hc_out = [], hc_writes = 0, hc_shut = False, hc_parser = True, hc_thrown = False, hc_undefined = False,
      hc_has_pool = pool, hc_seen = [], hc_tasks = [], hc_async = []\<rparr>"

definition s_err_rsp_500 :: string where "s_err_rsp_500 = ''HTTP/1.1 500 Internal Server Error'' @ CRLF"
definition s_err_rsp_400 :: string where "s_err_rsp_400 = ''HTTP/1.1 400 Bad Request'' @ CRLF"
definition s_err_rsp_404 :: string where "s_err_rsp_404 = ''HTTP/1.1 404 Not Found'' @ CRLF"

section \<open>Writing\<close>

definition conn_write :: "('q, 'r) http_env \<Rightarrow> string \<Rightarrow> ('q, 'r) http_conn \<Rightarrow> ('q, 'r) http_conn \<times> bool" where
  "conn_write E s c =
     (let c' = c\<lparr>hc_writes := Suc (hc_writes c)\<rparr>
      in if he_write_ok E (hc_writes c) then (c'\<lparr>hc_out := hc_out c @ [s]\<rparr>, True) else (c', False))"

text \<open>An exception of the socket's \<open>shutdown\<close> is swallowed; the parser is released in any case.\<close>

definition conn_shutdown :: "('q, 'r) http_conn \<Rightarrow> ('q, 'r) http_conn" where
  "conn_shutdown c = c\<lparr>hc_shut := True, hc_parser := False\<rparr>"

definition error_text :: "string \<Rightarrow> string" where
  "error_text rsp = rsp @ ''Content-Length: 0'' @ CRLF @ CRLF"

definition write_error_rsp ::
  "('q, 'r) http_env \<Rightarrow> string \<Rightarrow> ('q, 'r) http_conn \<Rightarrow> ('q, 'r) http_conn \<times> unit option" where
  "write_error_rsp E rsp c =
     (case conn_write E (error_text rsp) c of
        (c', ok) \<Rightarrow> if ok then (conn_shutdown c', Some ()) else (c', None))"

definition after_write :: "('q, 'r) session_t \<Rightarrow> ('q, 'r) http_conn \<Rightarrow> ('q, 'r) http_conn" where
  "after_write ctx c = (if rq_keep_alive (se_req ctx) then c else conn_shutdown c)"

text \<open>The response as \<open>write_rsp\<close> fills it.\<close>

definition final_rsp :: "('q, 'r) http_env \<Rightarrow> ('q, 'r) session_t \<Rightarrow> response_t" where
  "final_rsp E ctx =
     (let json = (if he_check_time E (se_json_req ctx) then he_set_server_time E (se_json_rsp ctx) else se_json_rsp ctx);
          rsp = (se_rsp ctx)\<lparr>rp_code := status_val OK\<rparr>;
          rsp = (if rp_body rsp = '''' then rsp\<lparr>rp_body := he_write_json E json\<rparr> else rsp)
      in rsp\<lparr>rp_headers := rp_headers rsp @ [(''ContentType'', ''application/json'')] @
           (if rq_keep_alive (se_req ctx) then [(''Connection'', ''keep-alive''), (''Keep-Alive'', ''timeout=100'')]
            else [(''Connection'', ''close'')])\<rparr>)"

definition write_rsp ::
  "('q, 'r) http_env \<Rightarrow> ('q, 'r) session_t \<Rightarrow> ('q, 'r) http_conn \<Rightarrow> ('q, 'r) http_conn \<times> unit option" where
  "write_rsp E ctx c =
     (case print_response (he_boost E) (final_rsp E ctx) of
        None \<Rightarrow> (c\<lparr>hc_undefined := True\<rparr>, None)
      | Some text \<Rightarrow>
          (case conn_write E text c of
             (c', ok) \<Rightarrow> if ok then (after_write ctx c', Some ()) else (c', None)))"

definition onReadError :: "('q, 'r) http_env \<Rightarrow> ('q, 'r) http_conn \<Rightarrow> ('q, 'r) http_conn" where
  "onReadError E c = fst (write_error_rsp E s_err_rsp_500 c)"

section \<open>Handling a request\<close>

definition answer_error ::
  "('q, 'r) http_env \<Rightarrow> string \<Rightarrow> ('q, 'r) http_conn \<Rightarrow> ('q, 'r) http_conn \<times> bool option" where
  "answer_error E rsp c = (case write_error_rsp E rsp c of (c', r) \<Rightarrow> (c', map_option (\<lambda>_. False) r))"

definition handler_path :: "request_t \<Rightarrow> string" where
  "handler_path r = rq_path r @ (if rq_query r = '''' then '''' else ''?'' @ rq_query r)"

definition handleRequestFunc ::
  "('q, 'r) http_env \<Rightarrow> string \<Rightarrow> string \<Rightarrow> ('q, 'r) session_t \<Rightarrow> ('q, 'r) http_conn \<Rightarrow>
     ('q, 'r) http_conn \<times> bool option" where
  "handleRequestFunc E controller action ctx c =
     (case he_router_find E controller action of
        None \<Rightarrow> answer_error E s_err_rsp_404 c
      | Some h \<Rightarrow>
          (let r = se_req ctx;
               ctx1 = ctx\<lparr>se_json_rsp := he_set_success E (se_json_rsp ctx), se_rsp := response_clear (se_rsp ctx)\<rparr>
           in if is_async h
              then if invoke_raw_async h (se_json_req ctx1) (se_json_rsp ctx1) (rq_body r) (handler_path r) (rq_method r)
                   then (c\<lparr>hc_async := hc_async c @ [ctx1]\<rparr>, Some True)
                   else answer_error E s_err_rsp_500 c
              else (case invoke_raw h (se_json_req ctx1) (se_json_rsp ctx1) (rq_body r) (handler_path r) (rq_method r) of
                      None \<Rightarrow> answer_error E s_err_rsp_500 c
                    | Some (q, j, body) \<Rightarrow>
                        (case write_rsp E (ctx1\<lparr>se_json_req := q, se_json_rsp := j,
                                  se_rsp := (se_rsp ctx1)\<lparr>rp_body := body\<rparr>\<rparr>) c of
                           (c', None) \<Rightarrow> answer_error E s_err_rsp_500 c'
                         | (c', Some _) \<Rightarrow> (c', Some True)))))"

text \<open>The first two parts of the path; the path itself stays trimmed in the request.\<close>

definition path_elems :: "('q, 'r) http_env \<Rightarrow> request_t \<Rightarrow> string list" where
  "path_elems E r = b_split_compress (he_boost E) ''/'' (b_trim_if (he_boost E) ''/'' (rq_path r))"

definition handleRequest ::
  "('q, 'r) http_env \<Rightarrow> ('q, 'r) session_t \<Rightarrow> ('q, 'r) http_conn \<Rightarrow> ('q, 'r) http_conn \<times> bool option" where
  "handleRequest E ctx c =
     (let r = se_req ctx; elems = path_elems E r;
          ctx1 = ctx\<lparr>se_req := r\<lparr>rq_path := b_trim_if (he_boost E) ''/'' (rq_path r)\<rparr>\<rparr>
      in if rq_path r = '''' \<or> length elems < 1 then answer_error E s_err_rsp_400 c
         else let controller = elems ! 0; action = (if length elems > 1 then elems ! 1 else '''')
              in if hc_has_pool c then (c\<lparr>hc_tasks := hc_tasks c @ [(controller, action, ctx1)]\<rparr>, Some True)
                 else handleRequestFunc E controller action ctx1 c)"

definition session_of :: "('q, 'r) http_env \<Rightarrow> request_t \<Rightarrow> ('q, 'r) session_t" where
  "session_of E r = \<lparr>se_req = r, se_rsp = response_new, se_json_req = he_new_request E, se_json_rsp = he_new_response E\<rparr>"

text \<open>\<open>request_cb\<close>: the parsed request is swapped out for a new one.  An exception leaves the parsing loop, so nothing
  more is read.\<close>

definition conn_request_cb :: "('q, 'r) http_env \<Rightarrow> ('q, 'r) http_conn request_cb" where
  "conn_request_cb E r c =
     (case handleRequest E (session_of E r) (c\<lparr>hc_seen := hc_seen c @ [r]\<rparr>) of
        (c', None) \<Rightarrow> (request_new, c'\<lparr>hc_thrown := True\<rparr>, False)
      | (c', Some go) \<Rightarrow> (request_new, c', go \<and> rq_keep_alive r))"

definition conn_start_cbs :: "('q, 'r) http_env \<Rightarrow> ('q, 'r) http_conn conn_cbs" where
  "conn_start_cbs E = \<lparr>close_cb = conn_shutdown, read_error_cb = onReadError E\<rparr>"

definition conn_impl :: "('q, 'r) http_conn \<Rightarrow> ('q, 'r) http_conn request_impl" where
  "conn_impl c = \<lparr>ri_req = request_new, ri_url = '''', ri_state = P_none, ri_continue = True, ri_undefined = False, ri_conn = c\<rparr>"

definition conn_start ::
  "('q, 'r) http_env \<Rightarrow> http_parser_url \<Rightarrow> ('q, 'r) http_conn \<Rightarrow> read_event list \<Rightarrow>
     (parse_end \<times> http_parser \<times> ('q, 'r) http_conn request_impl) option" where
  "conn_start E u0 c evs =
     do_parse (request_settings (conn_request_cb E) u0) (conn_start_cbs E) (http_parser_init HTTP_REQUEST) (conn_impl c) evs"

text \<open>What happens to a connection while its fiber waits: a task of the pool runs, or an asynchronous handler answers.
  An exception ends the fiber it is thrown in.\<close>

datatype ('q, 'r) conn_event = Ev_request request_t | Ev_task nat | Ev_answer nat "'q \<times> 'r \<times> string"

definition drop_nth :: "nat \<Rightarrow> 'a list \<Rightarrow> 'a list" where
  "drop_nth i xs = take i xs @ drop (Suc i) xs"

definition run_task :: "('q, 'r) http_env \<Rightarrow> nat \<Rightarrow> ('q, 'r) http_conn \<Rightarrow> ('q, 'r) http_conn" where
  "run_task E i c =
     (case hc_tasks c ! i of
        (controller, action, ctx) \<Rightarrow>
          fst (handleRequestFunc E controller action ctx (c\<lparr>hc_tasks := drop_nth i (hc_tasks c)\<rparr>)))"

definition async_answer ::
  "('q, 'r) http_env \<Rightarrow> nat \<Rightarrow> 'q \<times> 'r \<times> string \<Rightarrow> ('q, 'r) http_conn \<Rightarrow> ('q, 'r) http_conn" where
  "async_answer E i res c =
     (case res of
        (q, j, body) \<Rightarrow>
          (let ctx = hc_async c ! i
           in fst (write_rsp E (ctx\<lparr>se_json_req := q, se_json_rsp := j, se_rsp := (se_rsp ctx)\<lparr>rp_body := body\<rparr>\<rparr>)
                (c\<lparr>hc_async := drop_nth i (hc_async c)\<rparr>))))"

inductive conn_step ::
  "('q, 'r) http_env \<Rightarrow> ('q, 'r) http_conn \<Rightarrow> ('q, 'r) conn_event \<Rightarrow> ('q, 'r) http_conn \<Rightarrow> bool" for E where
  request: "hc_parser c \<Longrightarrow> conn_request_cb E r c = (r', c', go) \<Longrightarrow> conn_step E c (Ev_request r) c'"
| task: "i < length (hc_tasks c) \<Longrightarrow> conn_step E c (Ev_task i) (run_task E i c)"
| answer: "i < length (hc_async c) \<Longrightarrow> conn_step E c (Ev_answer i res) (async_answer E i res c)"

inductive_cases conn_stepE: "conn_step E c ev c'"

inductive conn_run ::
  "('q, 'r) http_env \<Rightarrow> ('q, 'r) http_conn \<Rightarrow> ('q, 'r) conn_event list \<Rightarrow> ('q, 'r) http_conn \<Rightarrow> bool" for E where
  stop: "conn_run E c [] c"
| step: "conn_step E c ev c1 \<Longrightarrow> conn_run E c1 evs c2 \<Longrightarrow> conn_run E c (ev # evs) c2"

section \<open>One response for each request\<close>

definition writes_ok :: "('q, 'r) http_env \<Rightarrow> bool" where
  "writes_ok E \<longleftrightarrow> (\<forall>n. he_write_ok E n)"

definition synchronous :: "('q, 'r) http_env \<Rightarrow> bool" where
  "synchronous E \<longleftrightarrow> (\<forall>controller action h. he_router_find E controller action = Some h \<longrightarrow> \<not> is_async h)"

text \<open>The answer to a request, as a function of the request alone.\<close>

definition answer_of :: "('q, 'r) http_env \<Rightarrow> request_t \<Rightarrow> string option" where
  "answer_of E r =
     (let elems = path_elems E r; r1 = r\<lparr>rq_path := b_trim_if (he_boost E) ''/'' (rq_path r)\<rparr>
      in if rq_path r = '''' \<or> elems = [] then Some (error_text s_err_rsp_400)
         else case he_router_find E (elems ! 0) (if length elems > 1 then elems ! 1 else '''') of
           None \<Rightarrow> Some (error_text s_err_rsp_404)
         | Some h \<Rightarrow>
             (case invoke_raw h (he_new_request E) (he_set_success E (he_new_response E)) (rq_body r) (handler_path r1)
                     (rq_method r) of
                None \<Rightarrow> Some (error_text s_err_rsp_500)
              | Some (q, j, body) \<Rightarrow>
                  print_response (he_boost E) (final_rsp E
                    \<lparr>se_req = r1, se_rsp = (response_clear response_new)\<lparr>rp_body := body\<rparr>, se_json_req = q, se_json_rsp = j\<rparr>)))"

lemma conn_write_ok:
  "writes_ok E \<Longrightarrow> conn_write E s c = (c\<lparr>hc_writes := Suc (hc_writes c), hc_out := hc_out c @ [s]\<rparr>, True)"
  by (simp add: conn_write_def writes_ok_def Let_def)

lemma answer_error_ok:
  assumes "writes_ok E"
  shows "answer_error E rsp c =
    (conn_shutdown (c\<lparr>hc_writes := Suc (hc_writes c), hc_out := hc_out c @ [error_text rsp]\<rparr>), Some False)"
  using assms by (simp add: answer_error_def write_error_rsp_def conn_write_ok)

lemma conn_shutdown_sel [simp]:
  "hc_out (conn_shutdown c) = hc_out c" "hc_seen (conn_shutdown c) = hc_seen c" "\<not> hc_parser (conn_shutdown c)"
  "hc_has_pool (conn_shutdown c) = hc_has_pool c" "hc_undefined (conn_shutdown c) = hc_undefined c"
  "hc_tasks (conn_shutdown c) = hc_tasks c" "hc_async (conn_shutdown c) = hc_async c" "hc_shut (conn_shutdown c)"
  by (simp_all add: conn_shutdown_def)

text \<open>One response more, and the parser is gone unless the connection stays open.\<close>

definition answered_with :: "string \<Rightarrow> bool \<Rightarrow> ('q, 'r) http_conn \<Rightarrow> ('q, 'r) http_conn \<Rightarrow> bool" where
  "answered_with text go c c' \<longleftrightarrow>
     hc_out c' = hc_out c @ [text] \<and> hc_parser c' = (hc_parser c \<and> go) \<and> hc_seen c' = hc_seen c \<and>
     hc_has_pool c' = hc_has_pool c \<and> hc_tasks c' = hc_tasks c \<and> hc_async c' = hc_async c"

lemma write_rsp_answered:
  assumes "writes_ok E" "print_response (he_boost E) (final_rsp E ctx) = Some text"
  obtains c' where "write_rsp E ctx c = (c', Some ())" "answered_with text (rq_keep_alive (se_req ctx)) c c'"
    "hc_undefined c' = hc_undefined c"
  using assms by (simp add: write_rsp_def conn_write_ok after_write_def answered_with_def)

lemma write_rsp_undefined:
  "print_response (he_boost E) (final_rsp E ctx) = None \<Longrightarrow> write_rsp E ctx c = (c\<lparr>hc_undefined := True\<rparr>, None)"
  by (simp add: write_rsp_def)

lemma handleRequest_sync:
  assumes "writes_ok E" "synchronous E" "\<not> hc_has_pool c" "handleRequest E (session_of E r) c = (c', res)"
  shows "hc_undefined c' \<or>
    (\<exists>text go. res = Some go \<and> answer_of E r = Some text \<and> answered_with text (go \<and> rq_keep_alive r) c c')"
proof -
  let ?elems = "path_elems E r" and ?r = "r\<lparr>rq_path := b_trim_if (he_boost E) ''/'' (rq_path r)\<rparr>"
  let ?h = "he_router_find E (?elems ! 0) (if length ?elems > 1 then ?elems ! 1 else '''')"
  note defs = handleRequest_def Let_def session_of_def handleRequestFunc_def
  have refused: ?thesis if "handleRequest E (session_of E r) c = answer_error E rsp c" "answer_of E r = Some (error_text rsp)" for rsp
    using that assms(4) answer_error_ok[OF assms(1), of rsp c] by (simp add: answered_with_def) auto
  consider (bad) "rq_path r = '''' \<or> ?elems = []" | (unknown) "rq_path r \<noteq> ''''" "?elems \<noteq> []" "?h = None"
    | (found) h where "rq_path r \<noteq> ''''" "?elems \<noteq> []" "?h = Some h" by (cases ?h) blast+
  then show ?thesis
  proof cases
    case bad
    then show ?thesis by (intro refused[of s_err_rsp_400]) (simp_all add: defs answer_of_def Suc_le_eq)
  next
    case unknown
    then show ?thesis using assms(3) by (intro refused[of s_err_rsp_404]) (simp_all add: defs answer_of_def Suc_le_eq)
  next
    case found
    have sync: "\<not> is_async h" using assms(2) found(3) by (auto simp: synchronous_def split: if_splits)
    let ?res = "invoke_raw h (he_new_request E) (he_set_success E (he_new_response E)) (rq_body r) (handler_path ?r) (rq_method r)"
    show ?thesis
    proof (cases ?res)
      case None
      then show ?thesis using assms(3) found sync by (intro refused[of s_err_rsp_500]) (simp_all add: defs answer_of_def Suc_le_eq)
    next
      case (Some x)
      obtain q j body where x: "x = (q, j, body)" by (rule prod_cases3)
      let ?ctx = "\<lparr>se_req = ?r, se_rsp = (response_clear response_new)\<lparr>rp_body := body\<rparr>, se_json_req = q, se_json_rsp = j\<rparr>"
      show ?thesis
      proof (cases "print_response (he_boost E) (final_rsp E ?ctx)")
        case None
        have "handleRequest E (session_of E r) c = answer_error E s_err_rsp_500 (c\<lparr>hc_undefined := True\<rparr>)"
          using assms(3) found sync Some x write_rsp_undefined[OF None, of c] by (simp add: defs Suc_le_eq)
        then show ?thesis using assms(4) answer_error_ok[OF assms(1)] by auto
      next
        case printed: (Some t)
        obtain c1 where w: "write_rsp E ?ctx c = (c1, Some ())" "answered_with t (rq_keep_alive r) c c1"
          using write_rsp_answered[OF assms(1) printed, of c] by auto
        have "handleRequest E (session_of E r) c = (c1, Some True)" "answer_of E r = Some t"
          using w(1) assms(3) found sync Some x printed by (simp_all add: defs answer_of_def Suc_le_eq)
        then show ?thesis using assms(4) w(2) by (intro disjI2 exI[of _ t] exI[of _ True]) simp
      qed
    qed
  qed
qed


text \<open>Every request seen is answered, in order; \<open>alive\<close> says whether the parser object still exists.\<close>

definition conn_good :: "('q, 'r) http_env \<Rightarrow> bool \<Rightarrow> ('q, 'r) http_conn \<Rightarrow> bool" where
  "conn_good E alive c \<longleftrightarrow>
     map Some (hc_out c) = map (answer_of E) (hc_seen c) \<and> hc_parser c = alive \<and> \<not> hc_has_pool c"

definition impl_good :: "('q, 'r) http_env \<Rightarrow> bool \<Rightarrow> ('q, 'r) http_conn request_impl \<Rightarrow> bool" where
  "impl_good E alive u \<longleftrightarrow> ri_undefined u \<or> hc_undefined (ri_conn u) \<or> ri_continue u = alive \<and> conn_good E alive (ri_conn u)"

lemma request_cb_good:
  assumes "writes_ok E" "synchronous E" "conn_good E True c" "conn_request_cb E r c = (r', c', go)"
  shows "hc_undefined c' \<or> conn_good E go c'"
proof -
  let ?c = "c\<lparr>hc_seen := hc_seen c @ [r]\<rparr>"
  obtain c1 res where h: "handleRequest E (session_of E r) ?c = (c1, res)" by (rule prod.exhaust)
  have "\<not> hc_has_pool ?c" using assms(3) by (simp add: conn_good_def)
  from handleRequest_sync[OF assms(1,2) this h] show ?thesis
  proof
    assume "hc_undefined c1"
    then show ?thesis using assms(4) h by (auto simp: conn_request_cb_def split: option.splits)
  next
    assume "\<exists>t go. res = Some go \<and> answer_of E r = Some t \<and> answered_with t (go \<and> rq_keep_alive r) ?c c1"
    then obtain t g where "res = Some g" "answer_of E r = Some t" "answered_with t (g \<and> rq_keep_alive r) ?c c1" by blast
    then show ?thesis using assms(3,4) h by (auto simp: conn_request_cb_def conn_good_def answered_with_def)
  qed
qed

lemma request_on_data_keeps:
  "ri_conn (request_on_data m s u) = ri_conn u" "ri_continue (request_on_data m s u) = ri_continue u"
  "ri_undefined u \<Longrightarrow> ri_undefined (request_on_data m s u)"
  by (cases m; simp add: request_headers_def split: option.split)+

lemma request_cb_undefined: "hc_undefined c \<Longrightarrow> conn_request_cb E r c = (r', c', go) \<Longrightarrow> hc_undefined c'"
  by (auto simp: conn_request_cb_def handleRequest_def handleRequestFunc_def answer_error_def write_error_rsp_def
      write_rsp_def conn_write_def after_write_def Let_def split: option.splits prod.splits if_splits)

lemma msg_complete_good:
  assumes "writes_ok E" "synchronous E" "impl_good E True u" "request_on_msg_complete (conn_request_cb E) u0 q u = (u', x)"
  shows "impl_good E (x = 0) u' \<and> (x = 0 \<or> x = -1)"
proof -
  let ?r = "(ri_req u)\<lparr>rq_method := int (ps_method q), rq_http_major := int (ps_http_major q),
                rq_http_minor := int (ps_http_minor q)\<rparr>"
  show ?thesis
  proof (cases "request_url_parts u0 (ri_url u) ?r")
    case None
    then show ?thesis using assms(4) by (auto simp: request_on_msg_complete_def impl_good_def)
  next
    case (Some r1)
    obtain r2 w cont where cb: "conn_request_cb E (r1\<lparr>rq_keep_alive := http_should_keep_alive q\<rparr>) (ri_conn u) = (r2, w, cont)"
      by (rule prod_cases3)
    have "ri_undefined u \<or> hc_undefined w \<or> conn_good E cont w"
      using request_cb_good[OF assms(1,2) _ cb] request_cb_undefined[OF _ cb] assms(3) by (auto simp: impl_good_def)
    then show ?thesis using assms(4) Some cb by (cases cont) (auto simp: request_on_msg_complete_def impl_good_def)
  qed
qed

lemma conn_callbacks_keep:
  assumes "writes_ok E" "synchronous E"
  shows "callbacks_keep (impl_good E True) (impl_good E False) (request_settings (conn_request_cb E) u0)"
proof -
  have "impl_good E True (request_on_data m s u)" if "impl_good E True u" for m s u
    using that by (auto simp: impl_good_def request_on_data_keeps)
  moreover have "impl_good E True (request_on_msg_begin u)" if "impl_good E True u" for u
    using that by (simp add: impl_good_def request_on_msg_begin_def)
  moreover have "(snd x \<in> {0, 1} \<longrightarrow> impl_good E True (fst x)) \<and> (snd x \<noteq> 0 \<longrightarrow> impl_good E False (fst x))"
    if "impl_good E True u" "x = request_on_msg_complete (conn_request_cb E) u0 q u" for u q x
    using msg_complete_good[OF assms that(1), of u0 q "fst x" "snd x"] that(2) by auto
  ultimately show ?thesis
    by (simp add: callbacks_keep_def request_settings_def split: notification.split)
qed

text \<open>Also for a call with no bytes, which tells the end of the stream and can complete a message.\<close>

lemma execute_keeps_either:
  assumes "callbacks_keep I J S" "I u" "resumable q" "http_parser_execute S q bytes u = Executed n q' u'"
  shows "I u' \<or> J u'"
proof (cases "ps_errno q = HPE_OK \<and> bytes \<noteq> []")
  case True
  then show ?thesis using execute_keeps[OF assms(1,2) _ _ assms(4)] assms(3) by (auto simp: resumable_def)
next
  case False
  obtain v r where on: "on_notify S N_message_complete q u = (v, r)" by (rule prod.exhaust)
  have "I v \<or> J v" using callbacks_keepD(2)[OF assms(1,2) on] by (cases "r = 0") auto
  with on False assms(2,4) show ?thesis by (cases "ps_state q") (auto simp: http_parser_execute_def split: if_splits)
qed

lemma conn_read_good:
  assumes "writes_ok E" "synchronous E" "resumable q" "impl_good E True u"
    "read_some_handler (request_settings (conn_request_cb E) u0) (conn_start_cbs E) q u ev = Some (e, q', u')"
  shows "resumable q' \<and>
    (if e = Reading then impl_good E True u'
     else ri_undefined u' \<or> hc_undefined (ri_conn u') \<or> \<not> hc_parser (ri_conn u') \<and>
       map Some (hc_out (ri_conn u')) = map (answer_of E) (hc_seen (ri_conn u')) @
         (if e = Read_failed then [Some (error_text s_err_rsp_500)] else []))"
proof (cases ev)
  case Read_error
  have "onReadError E c = conn_shutdown (c\<lparr>hc_writes := Suc (hc_writes c), hc_out := hc_out c @ [error_text s_err_rsp_500]\<rparr>)" for c
    using assms(1) by (simp add: onReadError_def write_error_rsp_def conn_write_ok)
  then show ?thesis using assms(4,5) Read_error init_resumable
    by (auto simp: read_some_handler_def conn_start_cbs_def tell_conn_def impl_good_def conn_good_def)
next
  case (Read bytes)
  obtain n q1 u1 where ex: "http_parser_execute (request_settings (conn_request_cb E) u0) q bytes u = Executed n q1 u1"
    "resumable q1" by (rule execute_resumable[OF assms(3)])
  have "impl_good E True u1 \<or> impl_good E False u1"
    by (rule execute_keeps_either[OF conn_callbacks_keep[OF assms(1,2)] assms(4,3) ex(1)])
  then consider "ri_undefined u1 \<or> hc_undefined (ri_conn u1)" | "ri_continue u1" "conn_good E True (ri_conn u1)"
    | "\<not> ri_continue u1" "conn_good E False (ri_conn u1)" unfolding impl_good_def by blast
  then show ?thesis using assms(5) Read ex init_resumable
    by cases (auto simp: read_some_handler_def conn_start_cbs_def tell_conn_def impl_good_def conn_good_def split: if_splits)
qed

lemma conn_loop_good:
  fixes u0 :: http_parser_url
  assumes "writes_ok E" "synchronous E"
  defines "S \<equiv> request_settings (conn_request_cb E) u0"
  shows "resumable q \<Longrightarrow> impl_good E True u \<Longrightarrow> parse_loop S (conn_start_cbs E) q u evs = Some (e, q', u') \<Longrightarrow>
    ri_undefined u' \<or> hc_undefined (ri_conn u') \<or>
      map Some (hc_out (ri_conn u')) = map (answer_of E) (hc_seen (ri_conn u')) @
         (if e = Read_failed then [Some (error_text s_err_rsp_500)] else []) \<and>
       hc_parser (ri_conn u') = (e = Reading)"
proof (induction evs arbitrary: q u)
  case Nil
  then show ?case by (auto simp: impl_good_def conn_good_def)
next
  case (Cons ev evs)
  obtain e1 q1 u1 where r: "read_some_handler S (conn_start_cbs E) q u ev = Some (e1, q1, u1)"
    using Cons.prems(3) by (cases "read_some_handler S (conn_start_cbs E) q u ev") auto
  note good = conn_read_good[OF assms(1,2) Cons.prems(1,2) r[unfolded S_def]]
  show ?case
  proof (cases "e1 = Reading")
    case True
    then show ?thesis using Cons.IH[of q1 u1] Cons.prems(3) r good by simp
  next
    case False
    then have "e1 = e" "u1 = u'" using Cons.prems(3) r by (cases e1; simp)+
    then show ?thesis using False good by auto
  qed
qed

lemma conn_start_good:
  assumes "writes_ok E" "synchronous E" "conn_start E u0 (http_conn_new False) evs = Some (e, q, u)"
    "\<not> ri_undefined u" "\<not> hc_undefined (ri_conn u)"
  shows "map Some (hc_out (ri_conn u)) = map (answer_of E) (hc_seen (ri_conn u)) @
      (if e = Read_failed then [Some (error_text s_err_rsp_500)] else [])"
    "hc_parser (ri_conn u) \<longleftrightarrow> e = Reading"
proof -
  have "impl_good E True ((conn_impl (http_conn_new False))\<lparr>ri_continue := True, ri_state := P_none\<rparr>)"
    by (simp add: impl_good_def conn_good_def conn_impl_def http_conn_new_def)
  from conn_loop_good[OF assms(1,2) init_resumable this assms(3)[unfolded conn_start_def do_parse_def]] assms(4,5)
  show "map Some (hc_out (ri_conn u)) = map (answer_of E) (hc_seen (ri_conn u)) @
      (if e = Read_failed then [Some (error_text s_err_rsp_500)] else [])" "hc_parser (ri_conn u) \<longleftrightarrow> e = Reading" by simp_all
qed

section \<open>Nothing is lost\<close>

text \<open>The task of a request, what its asynchronous handler holds, and the responses it may get: the answer of \<open>answer_of\<close> unless
  its handler is asynchronous, then the rendering of whatever the handler gives, or error 500 when the handler throws.\<close>

definition route_of :: "('q, 'r) http_env \<Rightarrow> request_t \<Rightarrow> string \<times> string" where
  "route_of E r = (path_elems E r ! 0, if length (path_elems E r) > 1 then path_elems E r ! 1 else '''')"

definition trimmed :: "('q, 'r) http_env \<Rightarrow> request_t \<Rightarrow> request_t" where
  "trimmed E r = r\<lparr>rq_path := b_trim_if (he_boost E) ''/'' (rq_path r)\<rparr>"

definition task_for :: "('q, 'r) http_env \<Rightarrow> request_t \<Rightarrow> string \<times> string \<times> ('q, 'r) session_t \<Rightarrow> bool" where
  "task_for E r t \<longleftrightarrow> rq_path r \<noteq> '''' \<and> path_elems E r \<noteq> [] \<and>
     t = (fst (route_of E r), snd (route_of E r), (session_of E r)\<lparr>se_req := trimmed E r\<rparr>)"

definition async_for :: "('q, 'r) http_env \<Rightarrow> request_t \<Rightarrow> bool" where
  "async_for E r \<longleftrightarrow> rq_path r \<noteq> '''' \<and> path_elems E r \<noteq> [] \<and>
     (\<exists>h. he_router_find E (fst (route_of E r)) (snd (route_of E r)) = Some h \<and> is_async h)"

definition held_for :: "('q, 'r) http_env \<Rightarrow> request_t \<Rightarrow> ('q, 'r) session_t \<Rightarrow> bool" where
  "held_for E r ctx \<longleftrightarrow> async_for E r \<and> ctx =
     \<lparr>se_req = trimmed E r, se_rsp = response_clear response_new, se_json_req = he_new_request E,
      se_json_rsp = he_set_success E (he_new_response E)\<rparr>"

definition response_to :: "('q, 'r) http_env \<Rightarrow> request_t \<Rightarrow> string \<Rightarrow> bool" where
  "response_to E r text \<longleftrightarrow>
     (if async_for E r
      then text = error_text s_err_rsp_500 \<or>
        (\<exists>q j body. print_response (he_boost E) (final_rsp E
           \<lparr>se_req = trimmed E r, se_rsp = (response_clear response_new)\<lparr>rp_body := body\<rparr>, se_json_req = q, se_json_rsp = j\<rparr>) = Some text)
      else answer_of E r = Some text)"

text \<open>\<open>rd\<close>, \<open>rt\<close> and \<open>ra\<close> are the requests that were answered, wait in the pool and are held by a handler.\<close>

definition accounted :: "('q, 'r) http_env \<Rightarrow> ('q, 'r) http_conn \<Rightarrow> bool" where
  "accounted E c \<longleftrightarrow> (\<exists>rd rt ra. mset (hc_seen c) = mset rd + mset rt + mset ra \<and>
     list_all2 (response_to E) rd (hc_out c) \<and> list_all2 (task_for E) rt (hc_tasks c) \<and> list_all2 (held_for E) ra (hc_async c))"

lemma length_drop_nth [simp]: "i < length xs \<Longrightarrow> length (drop_nth i xs) = length xs - 1"
  by (simp add: drop_nth_def)

lemma mset_drop_nth: "i < length xs \<Longrightarrow> mset xs = add_mset (xs ! i) (mset (drop_nth i xs))"
  by (metis drop_nth_def id_take_nth_drop mset.simps(2) mset_append union_mset_add_mset_right)

lemma list_all2_drop_nth: "list_all2 P xs ys \<Longrightarrow> list_all2 P (drop_nth i xs) (drop_nth i ys)"
  by (simp add: drop_nth_def list_all2_appendI list_all2_takeI list_all2_dropI)

text \<open>What becomes of a request in one step.\<close>

definition settled :: "('q, 'r) http_env \<Rightarrow> request_t \<Rightarrow> ('q, 'r) http_conn \<Rightarrow> ('q, 'r) http_conn \<Rightarrow> bool" where
  "settled E r c c' \<longleftrightarrow> hc_seen c' = hc_seen c \<and>
     ((\<exists>text. response_to E r text \<and> hc_out c' = hc_out c @ [text] \<and> hc_tasks c' = hc_tasks c \<and> hc_async c' = hc_async c) \<or>
      (\<exists>t. task_for E r t \<and> hc_out c' = hc_out c \<and> hc_tasks c' = hc_tasks c @ [t] \<and> hc_async c' = hc_async c) \<or>
      (\<exists>x. held_for E r x \<and> hc_out c' = hc_out c \<and> hc_tasks c' = hc_tasks c \<and> hc_async c' = hc_async c @ [x]))"

lemma settled_answered: "response_to E r text \<Longrightarrow> answered_with text go c c' \<Longrightarrow> settled E r c c'"
  by (auto simp: settled_def answered_with_def)

lemma settled_accounted:
  assumes "settled E r c c'" "mset (hc_seen c) = add_mset r (mset rd + mset rt + mset ra)"
    "list_all2 (response_to E) rd (hc_out c)" "list_all2 (task_for E) rt (hc_tasks c)" "list_all2 (held_for E) ra (hc_async c)"
  shows "accounted E c'"
proof -
  have eq: "mset (rd @ [r]) = add_mset r (mset rd)" "mset (rt @ [r]) = add_mset r (mset rt)" "mset (ra @ [r]) = add_mset r (mset ra)"
    by simp_all
  have ext: "list_all2 P (xs @ [r]) (ys @ [y])" if "list_all2 P xs ys" "P r y" for P and xs :: "request_t list" and ys and y :: 'x
    using that by (simp add: list_all2_appendI)
  consider (out) tx where "response_to E r tx" "hc_out c' = hc_out c @ [tx]" "hc_tasks c' = hc_tasks c" "hc_async c' = hc_async c"
    | (task) t where "task_for E r t" "hc_out c' = hc_out c" "hc_tasks c' = hc_tasks c @ [t]" "hc_async c' = hc_async c"
    | (held) x where "held_for E r x" "hc_out c' = hc_out c" "hc_tasks c' = hc_tasks c" "hc_async c' = hc_async c @ [x]"
    using assms(1) unfolding settled_def by blast
  moreover have "hc_seen c' = hc_seen c" using assms(1) by (simp add: settled_def)
  ultimately show ?thesis
    unfolding accounted_def
  proof cases
    case out
    then show "\<exists>rd rt ra. mset (hc_seen c') = mset rd + mset rt + mset ra \<and> list_all2 (response_to E) rd (hc_out c') \<and>
        list_all2 (task_for E) rt (hc_tasks c') \<and> list_all2 (held_for E) ra (hc_async c')"
      using assms(2-5) ext[OF assms(3)] \<open>hc_seen c' = _\<close>
      by (intro exI[of _ "rd @ [r]"] exI[of _ rt] exI[of _ ra]) simp
  next
    case task
    then show "\<exists>rd rt ra. mset (hc_seen c') = mset rd + mset rt + mset ra \<and> list_all2 (response_to E) rd (hc_out c') \<and>
        list_all2 (task_for E) rt (hc_tasks c') \<and> list_all2 (held_for E) ra (hc_async c')"
      using assms(2-5) ext[OF assms(4)] \<open>hc_seen c' = _\<close>
      by (intro exI[of _ rd] exI[of _ "rt @ [r]"] exI[of _ ra]) simp
  next
    case held
    then show "\<exists>rd rt ra. mset (hc_seen c') = mset rd + mset rt + mset ra \<and> list_all2 (response_to E) rd (hc_out c') \<and>
        list_all2 (task_for E) rt (hc_tasks c') \<and> list_all2 (held_for E) ra (hc_async c')"
      using assms(2-5) ext[OF assms(5)] \<open>hc_seen c' = _\<close>
      by (intro exI[of _ rd] exI[of _ rt] exI[of _ "ra @ [r]"]) simp
  qed
qed

lemma answer_error_settled:
  assumes "writes_ok E" "answer_error E rsp c = (c', res)" "response_to E r (error_text rsp)"
  shows "settled E r c c'"
  using assms by (auto simp: answer_error_ok settled_def)

lemma handleRequestFunc_settled:
  assumes "writes_ok E" "task_for E r (controller, action, ctx)" "handleRequestFunc E controller action ctx c = (c', res)"
  shows "hc_undefined c' \<or> settled E r c c'"
proof -
  have t: "rq_path r \<noteq> ''''" "path_elems E r \<noteq> []" "controller = fst (route_of E r)" "action = snd (route_of E r)"
    "ctx = (session_of E r)\<lparr>se_req := trimmed E r\<rparr>" using assms(2) by (simp_all add: task_for_def)
  have ans: "answer_of E r = (case he_router_find E controller action of None \<Rightarrow> Some (error_text s_err_rsp_404) | Some h \<Rightarrow>
      (case invoke_raw h (he_new_request E) (he_set_success E (he_new_response E)) (rq_body r) (handler_path (trimmed E r)) (rq_method r) of
         None \<Rightarrow> Some (error_text s_err_rsp_500)
       | Some (q, j, body) \<Rightarrow> print_response (he_boost E) (final_rsp E
           \<lparr>se_req = trimmed E r, se_rsp = (response_clear response_new)\<lparr>rp_body := body\<rparr>, se_json_req = q, se_json_rsp = j\<rparr>)))"
    unfolding answer_of_def t(3,4) route_of_def trimmed_def Let_def using t(1,2) by simp
  show ?thesis
  proof (cases "he_router_find E controller action")
    case None
    then have "response_to E r (error_text s_err_rsp_404)" using ans by (simp add: response_to_def async_for_def t(3,4))
    then show ?thesis using None assms(3) answer_error_settled[OF assms(1)] by (simp add: handleRequestFunc_def)
  next
    case (Some h)
    have async: "async_for E r \<longleftrightarrow> is_async h" using t Some by (simp add: async_for_def)
    let ?ctx = "\<lparr>se_req = trimmed E r, se_rsp = response_clear response_new, se_json_req = he_new_request E,
      se_json_rsp = he_set_success E (he_new_response E)\<rparr>"
    let ?res = "invoke_raw h (he_new_request E) (he_set_success E (he_new_response E)) (rq_body r) (handler_path (trimmed E r)) (rq_method r)"
    have body: "rq_body (trimmed E r) = rq_body r" "rq_method (trimmed E r) = rq_method r" by (simp_all add: trimmed_def)
    show ?thesis
    proof (cases "is_async h")
      case True
      then have "response_to E r (error_text s_err_rsp_500)" "held_for E r ?ctx" using async by (simp_all add: response_to_def held_for_def)
      then show ?thesis using True Some assms(3) answer_error_settled[OF assms(1)]
        by (auto simp: handleRequestFunc_def Let_def t(5) session_of_def settled_def split: if_splits)
    next
      case False
      show ?thesis
      proof (cases ?res)
        case None
        then have "response_to E r (error_text s_err_rsp_500)" using ans Some False async by (simp add: response_to_def)
        then show ?thesis using None Some False assms(3) answer_error_settled[OF assms(1)] body
          by (auto simp: handleRequestFunc_def Let_def t(5) session_of_def)
      next
        case res: (Some x)
        obtain q j b where x: "x = (q, j, b)" by (rule prod_cases3)
        let ?ctx2 = "\<lparr>se_req = trimmed E r, se_rsp = (response_clear response_new)\<lparr>rp_body := b\<rparr>, se_json_req = q, se_json_rsp = j\<rparr>"
        have h: "handleRequestFunc E controller action ctx c = (case write_rsp E ?ctx2 c of
            (c', None) \<Rightarrow> answer_error E s_err_rsp_500 c' | (c', Some _) \<Rightarrow> (c', Some True))"
          using Some False res x body by (simp add: handleRequestFunc_def Let_def t(5) session_of_def)
        show ?thesis
        proof (cases "print_response (he_boost E) (final_rsp E ?ctx2)")
          case None
          then show ?thesis using h assms(3) write_rsp_undefined[OF None, of c] answer_error_ok[OF assms(1)] by auto
        next
          case printed: (Some tx)
          obtain c1 where w: "write_rsp E ?ctx2 c = (c1, Some ())" "answered_with tx (rq_keep_alive (se_req ?ctx2)) c c1"
            using write_rsp_answered[OF assms(1) printed, of c] by blast
          have "response_to E r tx" using ans Some False async res x printed by (simp add: response_to_def)
          then show ?thesis using settled_answered[OF _ w(2)] h w(1) assms(3) by simp
        qed
      qed
    qed
  qed
qed

lemma handleRequest_settled:
  assumes "writes_ok E" "handleRequest E (session_of E r) c = (c', res)"
  shows "hc_undefined c' \<or> settled E r c c'"
proof (cases "rq_path r = '''' \<or> path_elems E r = []")
  case True
  then have "response_to E r (error_text s_err_rsp_400)" by (auto simp: response_to_def async_for_def answer_of_def)
  then show ?thesis using True assms(2) answer_error_settled[OF assms(1)]
    by (auto simp: handleRequest_def Let_def session_of_def Suc_le_eq)
next
  case False
  let ?ctx = "(session_of E r)\<lparr>se_req := trimmed E r\<rparr>"
  have t: "task_for E r (fst (route_of E r), snd (route_of E r), ?ctx)" using False by (simp add: task_for_def)
  have h: "handleRequest E (session_of E r) c =
     (if hc_has_pool c then (c\<lparr>hc_tasks := hc_tasks c @ [(fst (route_of E r), snd (route_of E r), ?ctx)]\<rparr>, Some True)
      else handleRequestFunc E (fst (route_of E r)) (snd (route_of E r)) ?ctx c)"
    using False by (simp add: handleRequest_def Let_def session_of_def route_of_def trimmed_def Suc_le_eq)
  show ?thesis
  proof (cases "hc_has_pool c")
    case True
    then show ?thesis using assms(2) t h by (auto simp: settled_def)
  next
    case False
    then show ?thesis using assms(2) h handleRequestFunc_settled[OF assms(1) t] by simp
  qed
qed

lemma conn_step_accounts:
  assumes "writes_ok E" "conn_step E c ev c'" "accounted E c"
  shows "hc_undefined c' \<or> accounted E c'"
proof -
  obtain rd rt ra where acc: "mset (hc_seen c) = mset rd + mset rt + mset ra" "list_all2 (response_to E) rd (hc_out c)"
    "list_all2 (task_for E) rt (hc_tasks c)" "list_all2 (held_for E) ra (hc_async c)"
    using assms(3) unfolding accounted_def by blast
  show ?thesis
    using assms(2)
  proof (cases rule: conn_step.cases)
    case (request r r' go)
    let ?c = "c\<lparr>hc_seen := hc_seen c @ [r]\<rparr>"
    obtain c1 res where h: "handleRequest E (session_of E r) ?c = (c1, res)" by (rule prod.exhaust)
    have "c' = c1 \<or> c' = c1\<lparr>hc_thrown := True\<rparr>" using request(3) h by (auto simp: conn_request_cb_def split: option.splits)
    then have "hc_undefined c' = hc_undefined c1" "accounted E c' = accounted E c1" unfolding accounted_def by (elim disjE; simp)+
    moreover have "settled E r ?c c1 \<Longrightarrow> accounted E c1" by (erule settled_accounted[of _ _ _ _ rd rt ra]) (use acc in simp_all)
    ultimately show ?thesis using handleRequest_settled[OF assms(1) h] by blast
  next
    case (task i)
    obtain controller action ctx where t: "hc_tasks c ! i = (controller, action, ctx)" by (rule prod_cases3)
    let ?c = "c\<lparr>hc_tasks := drop_nth i (hc_tasks c)\<rparr>"
    obtain c1 res where h: "handleRequestFunc E controller action ctx ?c = (c1, res)" by (rule prod.exhaust)
    have len: "i < length rt" using task(3) acc(3) by (simp add: list_all2_lengthD)
    then have "task_for E (rt ! i) (controller, action, ctx)" using acc(3) t by (metis list_all2_nthD)
    moreover have "settled E (rt ! i) ?c c1 \<Longrightarrow> accounted E c1"
      by (erule settled_accounted[of _ _ _ _ rd "drop_nth i rt" ra])
         (use acc list_all2_drop_nth[OF acc(3)] mset_drop_nth[OF len] in simp_all)
    ultimately show ?thesis using handleRequestFunc_settled[OF assms(1) _ h] t h task(2) by (auto simp: run_task_def)
  next
    case (answer i res)
    obtain q j b where x: "res = (q, j, b)" by (rule prod_cases3)
    let ?ctx = "(hc_async c ! i)\<lparr>se_json_req := q, se_json_rsp := j, se_rsp := (se_rsp (hc_async c ! i))\<lparr>rp_body := b\<rparr>\<rparr>"
    let ?c = "c\<lparr>hc_async := drop_nth i (hc_async c)\<rparr>"
    have len: "i < length ra" using answer(3) acc(4) by (simp add: list_all2_lengthD)
    then have held: "held_for E (ra ! i) (hc_async c ! i)" using acc(4) by (simp add: list_all2_nthD)
    have c': "c' = fst (write_rsp E ?ctx ?c)" using answer(2) x by (simp add: async_answer_def Let_def)
    show ?thesis
    proof (cases "print_response (he_boost E) (final_rsp E ?ctx)")
      case None
      then show ?thesis using c' write_rsp_undefined[OF None, of ?c] by simp
    next
      case (Some tx)
      obtain c1 where w: "write_rsp E ?ctx ?c = (c1, Some ())" "answered_with tx (rq_keep_alive (se_req ?ctx)) ?c c1"
        using write_rsp_answered[OF assms(1) Some, of ?c] by blast
      have "response_to E (ra ! i) tx" using held Some by (auto simp: held_for_def response_to_def)
      from settled_answered[OF this w(2)] have "accounted E c1"
        by (rule settled_accounted[of _ _ _ _ rd rt "drop_nth i ra"])
           (use acc list_all2_drop_nth[OF acc(4)] mset_drop_nth[OF len] in simp_all)
      then show ?thesis using c' w(1) by simp
    qed
  qed
qed

lemma conn_step_undefined: "conn_step E c ev c' \<Longrightarrow> hc_undefined c \<Longrightarrow> hc_undefined c'"
proof (erule conn_step.cases, goal_cases)
  case (1 c r r' c' go)
  then show ?case by (simp add: request_cb_undefined)
next
  case (2 i c)
  then show ?case
    by (auto simp: run_task_def handleRequestFunc_def answer_error_def write_error_rsp_def write_rsp_def conn_write_def
        after_write_def Let_def split: option.splits prod.splits if_splits)
next
  case (3 i c res)
  then show ?case
    by (auto simp: async_answer_def write_rsp_def conn_write_def after_write_def Let_def split: option.splits prod.splits)
qed

lemma conn_run_accounts:
  assumes "writes_ok E" "conn_run E c evs c'"
  shows "hc_undefined c \<or> accounted E c \<Longrightarrow> hc_undefined c' \<or> accounted E c'"
  using assms(2)
proof induction
  case (step c ev c1 evs c2)
  then show ?case using conn_step_accounts[OF assms(1) step.hyps(1)] conn_step_undefined[OF step.hyps(1)] by blast
qed

section \<open>Properties\<close>

text \<open>\<^bold>\<open>C28\<close>. With synchronous handlers, no fiber pool and a socket that takes all writes, a connection answers the requests
  it is sent one by one and in their order: what it has written is the list of the answers to the requests the
  parser handed over, each a function of its request alone, followed by an error response if reading failed.\<close>

theorem responses_in_request_order:
  assumes "writes_ok E" "synchronous E" "conn_start E u0 (http_conn_new False) evs = Some (e, q, u)"
    "\<not> ri_undefined u" "\<not> hc_undefined (ri_conn u)"
  shows "map Some (hc_out (ri_conn u)) = map (answer_of E) (hc_seen (ri_conn u)) @
    (if e = Read_failed then [Some (error_text s_err_rsp_500)] else [])"
  using conn_start_good(1)[OF assms] .

text \<open>\<^bold>\<open>C30\<close>. Whenever the parsing loop of such a connection (synchronous handlers, no fiber pool, all writes taken) ends, the connection has already released the
  parser the loop runs in: the \<open>http_parser_init\<close> at the end of \<open>do_parse\<close> writes to a destroyed object.\<close>

theorem parser_released_under_loop:
  assumes "writes_ok E" "synchronous E" "conn_start E u0 (http_conn_new False) evs = Some (e, q, u)"
    "\<not> ri_undefined u" "\<not> hc_undefined (ri_conn u)"
  shows "hc_parser (ri_conn u) \<longleftrightarrow> e = Reading"
  using conn_start_good(2)[OF assms] .

text \<open>\<^bold>\<open>C29\<close>. No request is lost and none is answered twice, also with a fiber pool and asynchronous handlers, as long as
  the socket takes all writes and no response is undefined: however the pool's tasks and the handlers' answers are
  interleaved with the reading of further requests, the requests seen so far are, each exactly once, those
  whose responses were written, each response being one to its own request, those whose tasks wait in the pool, and
  those that an asynchronous handler holds.\<close>

theorem requests_accounted_for:
  assumes "writes_ok E" "conn_run E (http_conn_new pool) evs c" "\<not> hc_undefined c"
  shows "\<exists>rd rt ra. mset (hc_seen c) = mset rd + mset rt + mset ra \<and>
    list_all2 (response_to E) rd (hc_out c) \<and> list_all2 (task_for E) rt (hc_tasks c) \<and> list_all2 (held_for E) ra (hc_async c)"
  using conn_run_accounts[OF assms(1,2)] assms(3) by (simp add: accounted_def http_conn_new_def)

definition wit_handler :: "bool \<Rightarrow> (unit, unit) handler_t" where
  "wit_handler async = \<lparr>is_async = async, invoke_raw = (\<lambda>q j b p m. if b = '''' then None else Some (q, j, p @ '':'' @ b)),
     invoke_raw_async = (\<lambda>q j b p m. True)\<rparr>"

definition wit_http_env :: "bool \<Rightarrow> (unit, unit) http_env" where
  "wit_http_env async =
     \<lparr>he_boost = ref_boost, he_new_request = (), he_new_response = (), he_set_success = id, he_check_time = (\<lambda>q. False),
      he_set_server_time = id, he_write_json = (\<lambda>j. ''json''),
      he_router_find = (\<lambda>controller action. if controller = ''test'' then Some (wit_handler async) else None),
      he_write_ok = (\<lambda>n. True)\<rparr>"

lemma wit_http_env_ok: "writes_ok (wit_http_env async)" "synchronous (wit_http_env False)"
  by (auto simp: writes_ok_def synchronous_def wit_http_env_def wit_handler_def split: if_splits)

definition wit_requests :: string where
  "wit_requests =
     ''POST /test/echo HTTP/1.1'' @ CRLF @ ''Content-Length: 2'' @ CRLF @ CRLF @ ''hi'' @
     ''GET /none HTTP/1.1'' @ CRLF @ CRLF"

lemma wit_conn_start:
  "case conn_start (wit_http_env False) garbage_url (http_conn_new False) [Read wit_requests] of
     Some (e, q, u) \<Rightarrow> e = Stopped \<and> \<not> ri_undefined u \<and> \<not> hc_undefined (ri_conn u) \<and>
       map (\<lambda>r. (rq_path r, rq_body r)) (hc_seen (ri_conn u)) = [(''/test/echo'', ''hi''), (''/none'', '''')]
   | None \<Rightarrow> False"
  by code_simp

theorem responses_in_request_order_witness:
  "case conn_start (wit_http_env False) garbage_url (http_conn_new False) [Read wit_requests] of
     Some (e, q, u) \<Rightarrow> map Some (hc_out (ri_conn u)) = map (answer_of (wit_http_env False)) (hc_seen (ri_conn u)) \<and>
       map (\<lambda>r. (rq_path r, rq_body r)) (hc_seen (ri_conn u)) = [(''/test/echo'', ''hi''), (''/none'', '''')]
   | None \<Rightarrow> False"
  using wit_conn_start responses_in_request_order[OF wit_http_env_ok(1) wit_http_env_ok(2)]
  by (fastforce split: option.splits prod.splits)

theorem parser_released_under_loop_witness:
  "case conn_start (wit_http_env False) garbage_url (http_conn_new False) [Read wit_requests] of
     Some (e, q, u) \<Rightarrow> \<not> hc_parser (ri_conn u) | None \<Rightarrow> False"
  using wit_conn_start parser_released_under_loop[OF wit_http_env_ok(1) wit_http_env_ok(2)]
  by (fastforce split: option.splits prod.splits)

definition wit_keep :: "string \<Rightarrow> request_t" where
  "wit_keep path = request_new\<lparr>rq_path := path, rq_keep_alive := True\<rparr>"

text \<open>The states of a connection on which two requests arrive and the second is answered first.\<close>

definition wit_conn_at :: "nat \<Rightarrow> (unit, unit) http_conn" where
  "wit_conn_at n =
     (let E = wit_http_env True; c0 = http_conn_new False;
          c1 = fst (snd (conn_request_cb E (wit_keep ''/test/a'') c0));
          c2 = fst (snd (conn_request_cb E (wit_keep ''/test/b'') c1));
          c3 = async_answer E 1 ((), (), ''second'') c2;
          c4 = async_answer E 0 ((), (), ''first!'') c3
      in [c0, c1, c2, c3, c4] ! n)"

lemma wit_conn_runs:
  shows wit_conn_run: "conn_run (wit_http_env True) (http_conn_new False)
     [Ev_request (wit_keep ''/test/a''), Ev_request (wit_keep ''/test/b''), Ev_answer 1 ((), (), ''second''),
      Ev_answer 0 ((), (), ''first!'')] (wit_conn_at 4)"
    and wit_conn_run3: "conn_run (wit_http_env True) (http_conn_new False)
     [Ev_request (wit_keep ''/test/a''), Ev_request (wit_keep ''/test/b''), Ev_answer 1 ((), (), ''second'')] (wit_conn_at 3)"
proof -
  let ?E = "wit_http_env True"
  have alive: "hc_parser (wit_conn_at 0)" "hc_parser (wit_conn_at 1)" "1 < length (hc_async (wit_conn_at 2))"
    "0 < length (hc_async (wit_conn_at 3))" by code_simp+
  have start: "http_conn_new False = wit_conn_at 0" by (simp add: wit_conn_at_def Let_def)
  have s: "conn_step ?E (wit_conn_at 0) (Ev_request (wit_keep ''/test/a'')) (wit_conn_at 1)"
    by (rule conn_step.request[OF alive(1)]) (simp add: wit_conn_at_def Let_def prod_eq_iff)
  have s1: "conn_step ?E (wit_conn_at 1) (Ev_request (wit_keep ''/test/b'')) (wit_conn_at 2)"
    by (rule conn_step.request[OF alive(2)]) (simp add: wit_conn_at_def Let_def prod_eq_iff)
  have s2: "conn_step ?E (wit_conn_at 2) (Ev_answer 1 ((), (), ''second'')) (wit_conn_at 3)"
    using conn_step.answer[OF alive(3)] by (simp add: wit_conn_at_def Let_def)
  have s3: "conn_step ?E (wit_conn_at 3) (Ev_answer 0 ((), (), ''first!'')) (wit_conn_at 4)"
    using conn_step.answer[OF alive(4)] by (simp add: wit_conn_at_def Let_def)
  note run = conn_run.step[OF s] conn_run.step[OF s1] conn_run.step[OF s2] conn_run.step[OF s3] conn_run.stop
  show "conn_run ?E (http_conn_new False)
     [Ev_request (wit_keep ''/test/a''), Ev_request (wit_keep ''/test/b''), Ev_answer 1 ((), (), ''second''),
      Ev_answer 0 ((), (), ''first!'')] (wit_conn_at 4)" unfolding start by (intro run)
  show "conn_run ?E (http_conn_new False)
     [Ev_request (wit_keep ''/test/a''), Ev_request (wit_keep ''/test/b''), Ev_answer 1 ((), (), ''second'')] (wit_conn_at 3)"
    unfolding start by (intro run)
qed

theorem requests_accounted_for_witness:
  "\<exists>rd rt ra. mset [wit_keep ''/test/a'', wit_keep ''/test/b''] = mset rd + mset rt + mset ra \<and>
    list_all2 (response_to (wit_http_env True)) rd (hc_out (wit_conn_at 3)) \<and> length rd = 1 \<and> length rt = 0 \<and> length ra = 1"
proof -
  have d: "\<not> hc_undefined (wit_conn_at 3)" "length (hc_out (wit_conn_at 3)) = 1" "length (hc_tasks (wit_conn_at 3)) = 0"
    "length (hc_async (wit_conn_at 3)) = 1" "hc_seen (wit_conn_at 3) = [wit_keep ''/test/a'', wit_keep ''/test/b'']" by code_simp+
  obtain rd rt ra where r: "mset (hc_seen (wit_conn_at 3)) = mset rd + mset rt + mset ra"
    "list_all2 (response_to (wit_http_env True)) rd (hc_out (wit_conn_at 3))"
    "list_all2 (task_for (wit_http_env True)) rt (hc_tasks (wit_conn_at 3))"
    "list_all2 (held_for (wit_http_env True)) ra (hc_async (wit_conn_at 3))"
    using requests_accounted_for[OF wit_http_env_ok(1) wit_conn_run3 d(1)] by blast
  then show ?thesis using d list_all2_lengthD[OF r(2)] list_all2_lengthD[OF r(3)] list_all2_lengthD[OF r(4)]
    by (intro exI[of _ rd] exI[of _ rt] exI[of _ ra]) simp
qed

text \<open>Asynchronous handlers can overtake each other: two requests sent one after the other are answered
  in the order in which their handlers finish, although a client matches responses to requests by their order.\<close>

theorem async_answers_overtake:
  "\<exists>c. conn_run (wit_http_env True) (http_conn_new False)
     [Ev_request (wit_keep ''/test/a''), Ev_request (wit_keep ''/test/b''), Ev_answer 1 ((), (), ''second''),
      Ev_answer 0 ((), (), ''first!'')] c \<and>
     map rq_path (hc_seen c) = [''/test/a'', ''/test/b''] \<and>
     map (\<lambda>s. drop (length s - 6) s) (hc_out c) = [''second'', ''first!'']"
proof -
  have "map rq_path (hc_seen (wit_conn_at 4)) = [''/test/a'', ''/test/b'']"
    "map (\<lambda>s. drop (length s - 6) s) (hc_out (wit_conn_at 4)) = [''second'', ''first!'']" by code_simp+
  then show ?thesis using wit_conn_run by (intro exI[of _ "wit_conn_at 4"] conjI)
qed

end
