(* ===== verification/Http_Exchange.thy ===== *)
theory Http_Exchange
  imports Client_Session Http_Handler
begin

text \<open>
  An HTTP client reads its response: \<open>FibpHttpClient::get_response\<close> of \<open>forward-manager/FibpClient.cpp\<close> with the response
  parser of \<open>fiber-server/HttpProtocolHandler.cpp\<close> that it calls.  The client clears the response it reads into, so what the
  parser has not reported keeps the values of a cleared response: status 504 and a connection that is not kept.
\<close>

definition response_impl_new :: "response_t \<Rightarrow> response_impl" where
  "response_impl_new r = \<lparr>pi_resp = r, pi_state = P_none, pi_continue = True, pi_undefined = False\<rparr>"

text \<open>\<open>evs\<close> is what the reads of the socket give, \<open>q\<close> the parser, which the client keeps between the responses, and
  \<open>ex_ec x\<close> the code of the last read.  \<open>None\<close> is an abort of the parser.\<close>

definition get_response :: "exchange \<Rightarrow> read_event list \<Rightarrow> http_parser \<Rightarrow> http_client \<Rightarrow>
    ((http_client \<times> bool \<times> string) \<times> http_parser \<times> response_impl) option" where
  "get_response x evs q c =
     (case response_parse q (response_impl_new (response_clear (hc_next_rsp c))) evs of
        None \<Rightarrow> None
      | Some (ret, q', u) \<Rightarrow> Some (http_get_response (x\<lparr>ex_parse := ret, ex_rsp := pi_resp u\<rparr>) c, q', u))"

text \<open>What every callback of the response parser keeps holds when it returns.\<close>

lemma response_loop_keeps:
  assumes "callbacks_keep I I response_settings" "resumable q" "I u" "response_loop q u evs = Some (ok, q', u')"
  shows "I u'"
  using assms(2-)
proof (induction q u evs rule: response_loop.induct)
  case (3 q u bytes evs)
  obtain n q1 u1 where ex: "http_parser_execute response_settings q bytes u = Executed n q1 u1" "resumable q1"
    by (rule execute_resumable[OF "3.prems"(1)])
  have "I u1" using execute_always_keeps[OF assms(1) "3.prems"(2,1) ex(1)] .
  then show ?case using "3.IH"[OF ex(1)] "3.prems"(3) ex by (auto split: if_splits)
qed auto

definition unreported :: "response_impl \<Rightarrow> bool" where
  "unreported u \<longleftrightarrow> (pi_continue u \<longrightarrow> rp_code (pi_resp u) = status_val GATEWAY_TIMEOUT \<and> \<not> rp_keep_alive (pi_resp u))"

lemma response_keeps_unreported: "callbacks_keep unreported unreported response_settings"
proof -
  have "rp_code (pi_resp (response_on_data m s u)) = rp_code (pi_resp u) \<and> pi_continue (response_on_data m s u) = pi_continue u \<and>
      rp_keep_alive (pi_resp (response_on_data m s u)) = rp_keep_alive (pi_resp u)" for m s u
    by (cases m) (simp_all add: response_headers_def split: option.split)
  then show ?thesis
    by (simp add: callbacks_keep_def unreported_def response_settings_def response_on_msg_begin_def response_clear_def
        response_on_msg_complete_def split: notification.split)
qed

text \<open>\<^bold>\<open>C21\<close>. An answer that \<open>get_response\<close> reports as a success is the body of a message whose end the parser has seen and whose
  status is 200.  When the message is cut short, whether the peer closes, the connection is reset, the time runs out or
  the bytes are no HTTP, the call fails, may be retried, and leaves the session closed; only the statuses 400 and 404
  rule a retry out, and the session stays open only after a complete message that keeps the connection.\<close>

theorem http_response_outcome:
  assumes "resumable q" "get_response x evs q c = Some ((c', ok, rsp), q', u)"
  shows "(ok \<longrightarrow> \<not> pi_continue u \<and> rp_code (pi_resp u) = 200 \<and> rsp = rp_body (pi_resp u)) \<and>
    (pi_continue u \<longrightarrow> \<not> ok \<and> hc_can_retry c' \<and> \<not> se_open (hc_session c')) \<and>
    (\<not> ok \<longrightarrow> rsp = (if ex_ec x = Ec_aborted then TIMEOUT_ERR else rp_status_message (pi_resp u))) \<and>
    (\<not> hc_can_retry c' \<longleftrightarrow> rp_code (pi_resp u) \<in> {400, 404}) \<and>
    (se_open (hc_session c') \<longrightarrow> \<not> pi_continue u \<and> rp_keep_alive (pi_resp u) \<and> ex_ec x \<notin> {Ec_eof, Ec_aborted})"
proof -
  obtain ret where r: "response_parse q (response_impl_new (response_clear (hc_next_rsp c))) evs = Some (ret, q', u)"
    "http_get_response (x\<lparr>ex_parse := ret, ex_rsp := pi_resp u\<rparr>) c = (c', ok, rsp)"
    using assms(2) by (auto simp: get_response_def split: option.splits)
  have "unreported u"
    using response_loop_keeps[OF response_keeps_unreported assms(1) _ r(1)[unfolded response_parse_def]]
    by (simp add: unreported_def response_impl_new_def response_clear_def)
  then show ?thesis
    using r(2) by (auto simp: unreported_def http_get_response_def read_response_def permanent_code_def Let_def split: if_splits)
qed

definition wit_exchange :: exchange where
  "wit_exchange = \<lparr>ex_connect = Connect_result Ec_ok True, ex_write = Write_result Ec_ok, ex_throws = False,
     ex_parse = True, ex_ec = Ec_other 104, ex_rsp = response_new\<rparr>"

definition wit_client :: http_client where
  "wit_client = (http_client_new ''h'' ''80'')\<lparr>hc_session := (client_session_new ''h'' ''80'')\<lparr>se_open := True\<rparr>\<rparr>"

lemma wit_reset_read:
  "case get_response wit_exchange [Read (take 30 wit_response), Read_error] (http_parser_init HTTP_RESPONSE) wit_client of
     Some (_, _, u) \<Rightarrow> pi_continue u | None \<Rightarrow> False"
  by code_simp

text \<open>The connection is reset in the middle of the response.\<close>

theorem http_response_outcome_witness:
  "case get_response wit_exchange [Read (take 30 wit_response), Read_error] (http_parser_init HTTP_RESPONSE) wit_client of
     Some ((c', ok, rsp), _, _) \<Rightarrow> \<not> ok \<and> hc_can_retry c' \<and> \<not> se_open (hc_session c') | None \<Rightarrow> False"
  using wit_reset_read http_response_outcome[OF init_resumable, of wit_exchange]
  by (auto split: option.splits)

end
