(* ===== verification/Fiber_Queue.thy ===== *)
theory Fiber_Queue
  imports Fibp_Prelude
begin

text \<open>
  The queues of \<open>boost/fiber/unbounded_queue.hpp\<close> and \<open>bounded_queue.hpp\<close>: singly linked nodes in a store, the
  operations on them, and the fibers that wait on the queue's conditions.  A node is an index into the store; the
  reference counts of the nodes only decide when their memory is given back and are left out.  Every operation
  runs under the queue's mutex, so a step of the transition system is one operation up to its end or to the wait that
  releases the mutex.
\<close>

section \<open>Linked nodes\<close>

datatype queue_op_status = success | empty | full | closed | timeout

record 'a queue_node =
  nd_va :: 'a
  nd_next :: "nat option"

record 'a unbounded_queue =
  q_closed :: bool
  q_nodes :: "'a queue_node list"
  q_head :: "nat option"
  q_tail :: "nat option"

definition queue_empty :: "('a, 'z) unbounded_queue_scheme \<Rightarrow> bool" where
  "queue_empty q \<longleftrightarrow> q_head q = None"

text \<open>\<open>new node_type(va)\<close>.\<close>

definition new_node :: "'a \<Rightarrow> ('a, 'z) unbounded_queue_scheme \<Rightarrow> ('a, 'z) unbounded_queue_scheme \<times> nat" where
  "new_node x q = (q\<lparr>q_nodes := q_nodes q @ [\<lparr>nd_va = x, nd_next = None\<rparr>]\<rparr>, length (q_nodes q))"

text \<open>The tail of a queue that is not empty is set; \<open>the\<close> is the dereference.\<close>

definition push_tail :: "nat \<Rightarrow> ('a, 'z) unbounded_queue_scheme \<Rightarrow> ('a, 'z) unbounded_queue_scheme" where
  "push_tail n q =
     (if queue_empty q then q\<lparr>q_head := Some n, q_tail := Some n\<rparr>
      else let t = the (q_tail q)
           in q\<lparr>q_nodes := (q_nodes q)[t := (q_nodes q ! t)\<lparr>nd_next := Some n\<rparr>], q_tail := Some n\<rparr>)"

definition pop_head :: "('a, 'z) unbounded_queue_scheme \<Rightarrow> ('a, 'z) unbounded_queue_scheme \<times> nat" where
  "pop_head q =
     (let old_head = the (q_head q); next = nd_next (q_nodes q ! old_head)
      in (q\<lparr>q_head := next, q_tail := (if next = None then None else q_tail q),
            q_nodes := (q_nodes q)[old_head := (q_nodes q ! old_head)\<lparr>nd_next := None\<rparr>]\<rparr>, old_head))"

section \<open>Operations\<close>

definition uq_new :: "'a unbounded_queue" where
  "uq_new = \<lparr>q_closed = False, q_nodes = [], q_head = None, q_tail = None\<rparr>"

text \<open>An operation either returns or waits for a condition.\<close>

datatype 'b attempt = Returns 'b | Waits

definition uq_push_node :: "'a \<Rightarrow> ('a, 'z) unbounded_queue_scheme \<Rightarrow> ('a, 'z) unbounded_queue_scheme" where
  "uq_push_node x q = (case new_node x q of (q', n) \<Rightarrow> push_tail n q')"

definition uq_push :: "'a \<Rightarrow> 'a unbounded_queue \<Rightarrow> 'a unbounded_queue \<times> queue_op_status" where
  "uq_push x q =
     (let (q', n) = new_node x q
      in if q_closed q' then (q', closed) else (push_tail n q', success))"

definition uq_value_pop :: "('a, 'z) unbounded_queue_scheme \<Rightarrow> ('a, 'z) unbounded_queue_scheme \<times> 'a" where
  "uq_value_pop q = (case pop_head q of (q', n) \<Rightarrow> (q', nd_va (q_nodes q' ! n)))"

text \<open>\<open>pop\<close> and \<open>value_pop\<close> up to the wait; \<open>None\<close> is the closed queue: a status for \<open>pop\<close>, an exception for
  \<open>value_pop\<close>.\<close>

definition uq_pop :: "'a unbounded_queue \<Rightarrow> 'a unbounded_queue \<times> 'a option attempt" where
  "uq_pop q =
     (if \<not> q_closed q \<and> queue_empty q then (q, Waits)
      else if q_closed q \<and> queue_empty q then (q, Returns None)
      else case uq_value_pop q of (q', x) \<Rightarrow> (q', Returns (Some x)))"

definition uq_try_pop :: "'a unbounded_queue \<Rightarrow> 'a unbounded_queue \<times> queue_op_status \<times> 'a option" where
  "uq_try_pop q =
     (if q_closed q \<and> queue_empty q then (q, closed, None)
      else if queue_empty q then (q, empty, None)
      else case uq_value_pop q of (q', x) \<Rightarrow> (q', success, Some x))"

definition uq_close :: "'a unbounded_queue \<Rightarrow> 'a unbounded_queue" where
  "uq_close q = q\<lparr>q_closed := True\<rparr>"

subsection \<open>The bounded queue\<close>

record 'a bounded_queue = "'a unbounded_queue" +
  bq_count :: "64 word"
  bq_hwm :: "64 word"
  bq_lwm :: "64 word"

definition bq_new :: "64 word \<Rightarrow> 64 word \<Rightarrow> 'a bounded_queue option" where
  "bq_new hwm lwm =
     (if hwm < lwm then None
      else Some \<lparr>q_closed = False, q_nodes = [], q_head = None, q_tail = None, bq_count = 0, bq_hwm = hwm, bq_lwm = lwm\<rparr>)"

definition queue_full :: "'a bounded_queue \<Rightarrow> bool" where
  "queue_full q \<longleftrightarrow> bq_count q \<ge> bq_hwm q"

definition bq_push_tail :: "nat \<Rightarrow> 'a bounded_queue \<Rightarrow> 'a bounded_queue" where
  "bq_push_tail n q = (let q' = push_tail n q in q'\<lparr>bq_count := bq_count q' + 1\<rparr>)"

definition bq_push_node :: "'a \<Rightarrow> 'a bounded_queue \<Rightarrow> 'a bounded_queue" where
  "bq_push_node x q = (case new_node x q of (q', n) \<Rightarrow> bq_push_tail n q')"

text \<open>\<open>push_\<close> from its start, and from the test of the loop at which a fiber resumes that waited for room.\<close>

definition bq_push_resumed :: "nat \<Rightarrow> 'a bounded_queue \<Rightarrow> 'a bounded_queue \<times> queue_op_status attempt" where
  "bq_push_resumed n q = (if queue_full q then (q, Waits) else (bq_push_tail n q, Returns success))"

definition bq_push :: "nat \<Rightarrow> 'a bounded_queue \<Rightarrow> 'a bounded_queue \<times> queue_op_status attempt" where
  "bq_push n q = (if q_closed q then (q, Returns closed) else bq_push_resumed n q)"

definition bq_try_push :: "'a \<Rightarrow> 'a bounded_queue \<Rightarrow> 'a bounded_queue \<times> queue_op_status" where
  "bq_try_push x q =
     (let (q', n) = new_node x q
      in if q_closed q' then (q', closed) else if queue_full q' then (q', full) else (bq_push_tail n q', success))"

text \<open>Whether a pop tells the producers that there is room: none, one or all of them.\<close>

datatype notification_kind = Notify_none | Notify_one | Notify_all

definition bq_value_pop :: "'a bounded_queue \<Rightarrow> 'a bounded_queue \<times> 'a \<times> notification_kind" where
  "bq_value_pop q =
     (case pop_head q of
        (q', n) \<Rightarrow>
          (q', nd_va (q_nodes q' ! n),
           if bq_count q' \<le> bq_lwm q' then if bq_lwm q' = bq_hwm q' then Notify_one else Notify_all else Notify_none))"

definition bq_pop :: "'a bounded_queue \<Rightarrow> 'a bounded_queue \<times> ('a \<times> notification_kind) option attempt" where
  "bq_pop q =
     (if \<not> q_closed q \<and> queue_empty q then (q, Waits)
      else if q_closed q \<and> queue_empty q then (q, Returns None)
      else case bq_value_pop q of (q', x, k) \<Rightarrow> (q', Returns (Some (x, k))))"

definition bq_try_pop :: "'a bounded_queue \<Rightarrow> 'a bounded_queue \<times> queue_op_status \<times> ('a \<times> notification_kind) option" where
  "bq_try_pop q =
     (if q_closed q \<and> queue_empty q then (q, closed, None)
      else if queue_empty q then (q, empty, None)
      else case bq_value_pop q of (q', x, k) \<Rightarrow> (q', success, Some (x, k)))"

definition bq_close :: "'a bounded_queue \<Rightarrow> 'a bounded_queue" where
  "bq_close q = q\<lparr>q_closed := True\<rparr>"

section \<open>Fibers at an unbounded queue\<close>

text \<open>\<open>us_waiting\<close>: the fibers in \<open>not_empty_cond_\<close>, first the one that is woken first; \<open>us_popping\<close>: the fibers in
  \<open>pop\<close> that are not waiting; the last two fields are the history.\<close>

record 'a uq_system =
  us_queue :: "'a unbounded_queue"
  us_waiting :: "nat list"
  us_popping :: "nat list"
  us_pushed :: "'a list"
  us_popped :: "'a list"

definition uq_start :: "'a uq_system" where
  "uq_start = \<lparr>us_queue = uq_new, us_waiting = [], us_popping = [], us_pushed = [], us_popped = []\<rparr>"

definition wake_one :: "'a uq_system \<Rightarrow> 'a uq_system" where
  "wake_one s =
     (case us_waiting s of [] \<Rightarrow> s | f # fs \<Rightarrow> s\<lparr>us_waiting := fs, us_popping := f # us_popping s\<rparr>)"

inductive uq_step :: "'a uq_system \<Rightarrow> 'a uq_system \<Rightarrow> bool" where
  push_done: "uq_push x (us_queue s) = (q, success) \<Longrightarrow>
     uq_step s (wake_one (s\<lparr>us_queue := q, us_pushed := us_pushed s @ [x]\<rparr>))"
| push_refused: "uq_push x (us_queue s) = (q, closed) \<Longrightarrow> uq_step s (s\<lparr>us_queue := q\<rparr>)"
| pop_called: "uq_step s (s\<lparr>us_popping := f # us_popping s\<rparr>)"
| pop_waits: "f \<in> set (us_popping s) \<Longrightarrow> uq_pop (us_queue s) = (q, Waits) \<Longrightarrow>
     uq_step s (s\<lparr>us_queue := q, us_popping := remove1 f (us_popping s), us_waiting := us_waiting s @ [f]\<rparr>)"
| pop_done: "f \<in> set (us_popping s) \<Longrightarrow> uq_pop (us_queue s) = (q, Returns (Some x)) \<Longrightarrow>
     uq_step s (s\<lparr>us_queue := q, us_popping := remove1 f (us_popping s), us_popped := us_popped s @ [x]\<rparr>)"
| pop_closed: "f \<in> set (us_popping s) \<Longrightarrow> uq_pop (us_queue s) = (q, Returns None) \<Longrightarrow>
     uq_step s (s\<lparr>us_queue := q, us_popping := remove1 f (us_popping s)\<rparr>)"
| close: "uq_step s (s\<lparr>us_queue := uq_close (us_queue s), us_waiting := [], us_popping := us_waiting s @ us_popping s\<rparr>)"

inductive_cases uq_stepE: "uq_step s s'"

section \<open>Producers at a bounded queue\<close>

text \<open>\<open>bs_full\<close>: producers waiting for room, with the node they bring; \<open>bs_resumed\<close>: producers that were woken.\<close>

record 'a bq_system =
  bs_queue :: "'a bounded_queue"
  bs_full :: "(nat \<times> nat) list"
  bs_resumed :: "(nat \<times> nat) list"
  bs_pushed :: "'a list"
  bs_popped :: "'a list"

definition bq_start :: "'a bounded_queue \<Rightarrow> 'a bq_system" where
  "bq_start q = \<lparr>bs_queue = q, bs_full = [], bs_resumed = [], bs_pushed = [], bs_popped = []\<rparr>"

definition wake_producers :: "notification_kind \<Rightarrow> 'a bq_system \<Rightarrow> 'a bq_system" where
  "wake_producers k s =
     (case k of
        Notify_none \<Rightarrow> s
      | Notify_one \<Rightarrow> s\<lparr>bs_full := tl (bs_full s), bs_resumed := take 1 (bs_full s) @ bs_resumed s\<rparr>
      | Notify_all \<Rightarrow> s\<lparr>bs_full := [], bs_resumed := bs_full s @ bs_resumed s\<rparr>)"

inductive bq_step :: "'a bq_system \<Rightarrow> 'a bq_system \<Rightarrow> bool" where
  push_done: "new_node x (bs_queue s) = (q, n) \<Longrightarrow> bq_push n q = (q', Returns success) \<Longrightarrow>
     bq_step s (s\<lparr>bs_queue := q', bs_pushed := bs_pushed s @ [x]\<rparr>)"
| push_refused: "new_node x (bs_queue s) = (q, n) \<Longrightarrow> bq_push n q = (q', Returns closed) \<Longrightarrow>
     bq_step s (s\<lparr>bs_queue := q'\<rparr>)"
| push_waits: "new_node x (bs_queue s) = (q, n) \<Longrightarrow> bq_push n q = (q', Waits) \<Longrightarrow>
     bq_step s (s\<lparr>bs_queue := q', bs_full := bs_full s @ [(f, n)]\<rparr>)"
| resume_done: "(f, n) \<in> set (bs_resumed s) \<Longrightarrow> bq_push_resumed n (bs_queue s) = (q', Returns success) \<Longrightarrow>
     bq_step s (s\<lparr>bs_queue := q', bs_resumed := remove1 (f, n) (bs_resumed s),
       bs_pushed := bs_pushed s @ [nd_va (q_nodes (bs_queue s) ! n)]\<rparr>)"
| resume_waits: "(f, n) \<in> set (bs_resumed s) \<Longrightarrow> bq_push_resumed n (bs_queue s) = (q', Waits) \<Longrightarrow>
     bq_step s (s\<lparr>bs_queue := q', bs_resumed := remove1 (f, n) (bs_resumed s), bs_full := bs_full s @ [(f, n)]\<rparr>)"
| try_push_done: "bq_try_push x (bs_queue s) = (q', success) \<Longrightarrow>
     bq_step s (s\<lparr>bs_queue := q', bs_pushed := bs_pushed s @ [x]\<rparr>)"
| try_push_fails: "bq_try_push x (bs_queue s) = (q', st) \<Longrightarrow> st \<noteq> success \<Longrightarrow> bq_step s (s\<lparr>bs_queue := q'\<rparr>)"
| pop_done: "bq_pop (bs_queue s) = (q', Returns (Some (x, k))) \<Longrightarrow>
     bq_step s (wake_producers k (s\<lparr>bs_queue := q', bs_popped := bs_popped s @ [x]\<rparr>))"
| close: "bq_step s (wake_producers Notify_all (s\<lparr>bs_queue := bq_close (bs_queue s)\<rparr>))"

section \<open>The queue as a list\<close>

text \<open>The contents, by following the links.\<close>

fun walk :: "nat \<Rightarrow> 'a queue_node list \<Rightarrow> nat option \<Rightarrow> 'a list" where
  "walk (Suc k) ns (Some a) = nd_va (ns ! a) # walk k ns (nd_next (ns ! a))"
| "walk k ns p = []"

definition q_values :: "('a, 'z) unbounded_queue_scheme \<Rightarrow> 'a list" where
  "q_values q = walk (length (q_nodes q)) (q_nodes q) (q_head q)"

primrec chain :: "'a queue_node list \<Rightarrow> nat option \<Rightarrow> nat list \<Rightarrow> bool" where
  "chain ns p [] \<longleftrightarrow> p = None"
| "chain ns p (a # as) \<longleftrightarrow> p = Some a \<and> a < length ns \<and> chain ns (nd_next (ns ! a)) as"

definition links :: "('a, 'z) unbounded_queue_scheme \<Rightarrow> nat list \<Rightarrow> bool" where
  "links q as \<longleftrightarrow> chain (q_nodes q) (q_head q) as \<and> distinct as \<and> q_tail q = (if as = [] then None else Some (last as))"

definition q_inv :: "('a, 'z) unbounded_queue_scheme \<Rightarrow> bool" where
  "q_inv q \<longleftrightarrow> (\<exists>as. links q as)"

lemma chain_bound: "chain ns p as \<Longrightarrow> set as \<subseteq> {..<length ns}"
  by (induction as arbitrary: p) auto

lemma chain_update_other: "a \<notin> set as \<Longrightarrow> chain (ns[a := n]) p as = chain ns p as"
  by (induction as arbitrary: p) auto

lemma chain_append_node: "chain ns p as \<Longrightarrow> chain (ns @ [n]) p as"
  by (induction as arbitrary: p) (auto simp: nth_append)

lemma walk_chain: "chain ns p as \<Longrightarrow> length as \<le> k \<Longrightarrow> walk k ns p = map (\<lambda>a. nd_va (ns ! a)) as"
proof (induction as arbitrary: p k)
  case (Cons a as)
  then show ?case by (cases k) auto
qed simp

lemma links_short: "links q as \<Longrightarrow> length as \<le> length (q_nodes q)"
  using chain_bound[of "q_nodes q" "q_head q" as] card_mono[of "{..<length (q_nodes q)}" "set as"] distinct_card[of as]
  by (simp add: links_def)

lemma q_values_links: "links q as \<Longrightarrow> q_values q = map (\<lambda>a. nd_va (q_nodes q ! a)) as"
  using walk_chain[of "q_nodes q" "q_head q" as] links_short[of q as] by (simp add: links_def q_values_def)

lemma chain_extend:
  assumes "chain ns p as" "as \<noteq> []" "distinct as" "n < length ns" "n \<notin> set as" "nd_next (ns ! n) = None"
  shows "chain (ns[last as := (ns ! last as)\<lparr>nd_next := Some n\<rparr>]) p (as @ [n])"
  using assms
proof (induction as arbitrary: p)
  case (Cons a as)
  show ?case
  proof (cases "as = []")
    case True
    then show ?thesis using Cons.prems by (auto simp: nth_list_update)
  next
    case False
    then have "a \<noteq> last as" using Cons.prems(3) by auto
    then show ?thesis using False Cons.IH[of "nd_next (ns ! a)"] Cons.prems by auto
  qed
qed simp

subsection \<open>The operations on the links\<close>

lemma links_new_node:
  assumes "links q as" "new_node x q = (q', n)"
  shows "links q' as" "n < length (q_nodes q')" "n \<notin> set as" "q_nodes q' ! n = \<lparr>nd_va = x, nd_next = None\<rparr>"
    "q_values q' = q_values q" "q_closed q' = q_closed q"
proof -
  show links': "links q' as" and "n < length (q_nodes q')" "q_nodes q' ! n = \<lparr>nd_va = x, nd_next = None\<rparr>"
    "q_closed q' = q_closed q" using assms by (auto simp: links_def new_node_def chain_append_node)
  have "set as \<subseteq> {..<length (q_nodes q)}" using assms(1) chain_bound by (auto simp: links_def)
  then show "n \<notin> set as" "q_values q' = q_values q"
    unfolding q_values_links[OF assms(1)] q_values_links[OF links'] using assms(2) by (auto simp: new_node_def nth_append)
qed

lemma links_push_tail:
  assumes "links q as" "n < length (q_nodes q)" "n \<notin> set as" "nd_next (q_nodes q ! n) = None"
  shows "links (push_tail n q) (as @ [n])" "q_values (push_tail n q) = q_values q @ [nd_va (q_nodes q ! n)]"
    "q_closed (push_tail n q) = q_closed q"
proof -
  have emp: "queue_empty q \<longleftrightarrow> as = []" using assms(1) by (cases as) (auto simp: links_def queue_empty_def)
  have tail: "as \<noteq> [] \<Longrightarrow> the (q_tail q) = last as \<and> last as < length (q_nodes q)"
    using assms(1) chain_bound[of "q_nodes q" "q_head q" as] by (auto simp: links_def subset_iff)
  show links': "links (push_tail n q) (as @ [n])"
  proof (cases "as = []")
    case True
    then show ?thesis using assms emp by (simp add: links_def push_tail_def)
  next
    case False
    then show ?thesis using assms emp tail chain_extend[of "q_nodes q" "q_head q" as n]
      by (simp add: links_def push_tail_def Let_def)
  qed
  have "nd_va (q_nodes (push_tail n q) ! a) = nd_va (q_nodes q ! a)" for a
    using tail emp by (cases "a = last as") (auto simp: push_tail_def Let_def)
  then show "q_values (push_tail n q) = q_values q @ [nd_va (q_nodes q ! n)]"
    unfolding q_values_links[OF links'] q_values_links[OF assms(1)] by simp
  show "q_closed (push_tail n q) = q_closed q" by (simp add: push_tail_def Let_def)
qed

lemma links_pop_head:
  assumes "links q (a # as)"
  obtains q' where "pop_head q = (q', a)" "links q' as" "nd_va (q_nodes q' ! a) = nd_va (q_nodes q ! a)"
    "q_values q' = map (\<lambda>a. nd_va (q_nodes q ! a)) as" "q_closed q' = q_closed q"
proof -
  obtain q' n where q': "pop_head q = (q', n)" by (rule prod.exhaust)
  have a: "q_head q = Some a" "a < length (q_nodes q)" "a \<notin> set as" "chain (q_nodes q) (nd_next (q_nodes q ! a)) as"
    using assms by (auto simp: links_def)
  have n: "n = a" using q' a(1) by (simp add: pop_head_def Let_def)
  have links': "links q' as" using q' a assms by (cases as) (auto simp: pop_head_def Let_def links_def chain_update_other)
  have "q_values q' = map (\<lambda>a. nd_va (q_nodes q ! a)) as"
    unfolding q_values_links[OF links'] using q' a(1,3) by (auto simp: pop_head_def Let_def) (metis nth_list_update_neq)
  moreover have "nd_va (q_nodes q' ! a) = nd_va (q_nodes q ! a)" "q_closed q' = q_closed q"
    using q' a by (auto simp: pop_head_def Let_def)
  ultimately show ?thesis using that q' n links' by blast
qed

lemma queue_empty_iff: "q_inv q \<Longrightarrow> queue_empty q \<longleftrightarrow> q_values q = []"
proof -
  assume "q_inv q"
  then obtain as where as: "links q as" by (auto simp: q_inv_def)
  then show ?thesis using q_values_links[OF as] by (cases as) (auto simp: queue_empty_def links_def)
qed

lemma pop_head_spec:
  assumes "q_inv q" "q_values q = x # xs"
  obtains q' n where "pop_head q = (q', n)" "q_inv q'" "nd_va (q_nodes q' ! n) = x" "q_values q' = xs" "q_closed q' = q_closed q"
proof -
  obtain as where "links q as" using assms(1) by (auto simp: q_inv_def)
  moreover then obtain a bs where "as = a # bs" using assms(2) by (cases as) (auto simp: q_values_links)
  ultimately have l: "links q (a # bs)" by simp
  show ?thesis using links_pop_head[OF l] that assms(2) q_values_links[OF l] by (metis list.inject list.simps(9) q_inv_def)
qed

lemma push_node_spec:
  assumes "q_inv q" "new_node x q = (q', n)"
  shows "q_inv (push_tail n q')" "q_values (push_tail n q') = q_values q @ [x]" "q_inv q'" "q_values q' = q_values q"
    "q_closed (push_tail n q') = q_closed q" "q_closed q' = q_closed q"
proof -
  obtain as where as: "links q as" using assms(1) by (auto simp: q_inv_def)
  note n = links_new_node[OF as assms(2)]
  then show "q_inv (push_tail n q')" "q_values (push_tail n q') = q_values q @ [x]" "q_inv q'" "q_values q' = q_values q"
    "q_closed (push_tail n q') = q_closed q" "q_closed q' = q_closed q"
    using links_push_tail[OF n(1,2,3)] by (auto simp: q_inv_def)
qed


section \<open>First in, first out\<close>

text \<open>What the fibers rely on: a queue is the list of its values, a push appends and a pop takes the first one.  The
  history of a queue with this contract adds up: what was taken, then what is in the queue, is what was put in.\<close>

locale fifo =
  fixes inv :: "'q \<Rightarrow> bool" and elems :: "'q \<Rightarrow> 'a list" and put :: "'a \<Rightarrow> 'q \<Rightarrow> 'q" and take_out :: "'q \<Rightarrow> 'q \<times> 'a"
    and nothing :: "'q \<Rightarrow> bool"
  assumes nothing_iff: "inv q \<Longrightarrow> nothing q \<longleftrightarrow> elems q = []"
    and put_inv: "inv q \<Longrightarrow> inv (put x q)"
    and put_elems: "inv q \<Longrightarrow> elems (put x q) = elems q @ [x]"
    and take_law: "inv q \<Longrightarrow> elems q = x # xs \<Longrightarrow> \<exists>q'. take_out q = (q', x) \<and> inv q' \<and> elems q' = xs"
begin

definition adds_up :: "'a list \<Rightarrow> 'a list \<Rightarrow> 'q \<Rightarrow> bool" where
  "adds_up pushed popped q \<longleftrightarrow> inv q \<and> pushed = popped @ elems q"

lemma adds_up_put: "adds_up pushed popped q \<Longrightarrow> adds_up (pushed @ [x]) popped (put x q)"
  by (simp add: adds_up_def put_inv put_elems)

lemma adds_up_take:
  assumes "adds_up pushed popped q" "\<not> nothing q" "take_out q = (q', x)"
  shows "adds_up pushed (popped @ [x]) q'"
proof -
  have "elems q \<noteq> []" using assms(1,2) nothing_iff by (auto simp: adds_up_def)
  then obtain y ys where "elems q = y # ys" by (cases "elems q") auto
  then show ?thesis using take_law[of q y ys] assms(1,3) by (auto simp: adds_up_def)
qed

lemma adds_up_first: "adds_up pushed popped q \<Longrightarrow> popped = take (length popped) pushed"
  by (simp add: adds_up_def)

end

lemma uq_value_pop_spec:
  assumes "q_inv q" "q_values q = x # xs"
  shows "\<exists>q'. uq_value_pop q = (q', x) \<and> q_inv q' \<and> q_values q' = xs"
  by (rule pop_head_spec[OF assms]) (auto simp: uq_value_pop_def)

interpretation uq: fifo q_inv q_values uq_push_node uq_value_pop queue_empty
proof
  fix q :: "('a, 'b) unbounded_queue_scheme" and x :: 'a
  obtain q' n where n: "new_node x q = (q', n)" by (rule prod.exhaust)
  assume "q_inv q"
  from push_node_spec[OF this n] n show "q_inv (uq_push_node x q)" "q_values (uq_push_node x q) = q_values q @ [x]"
    by (simp_all add: uq_push_node_def)
qed (simp_all add: queue_empty_iff uq_value_pop_spec)

text \<open>The count is not looked at by the list operations.\<close>

lemma count_ignored [simp]:
  "q_values (q\<lparr>bq_count := n\<rparr>) = q_values q" "q_inv (q\<lparr>bq_count := n\<rparr>) = q_inv q" "q_head (q\<lparr>bq_count := n\<rparr>) = q_head q"
  "q_closed (q\<lparr>bq_count := n\<rparr>) = q_closed q"
  by (simp_all add: q_values_def q_inv_def links_def)

definition bq_take :: "'a bounded_queue \<Rightarrow> 'a bounded_queue \<times> 'a" where
  "bq_take q = (case bq_value_pop q of (q', x, k) \<Rightarrow> (q', x))"

interpretation bq: fifo q_inv q_values bq_push_node bq_take queue_empty
proof
  fix q :: "'a bounded_queue" and x :: 'a
  obtain q' n where n: "new_node x q = (q', n)" by (rule prod.exhaust)
  assume "q_inv q"
  from push_node_spec[OF this n] n show "q_inv (bq_push_node x q)" "q_values (bq_push_node x q) = q_values q @ [x]"
    by (simp_all add: bq_push_node_def bq_push_tail_def Let_def)
next
  fix q :: "'a bounded_queue" and x :: 'a and xs
  assume "q_inv q" "q_values q = x # xs"
  then show "\<exists>q'. bq_take q = (q', x) \<and> q_inv q' \<and> q_values q' = xs"
    by (rule pop_head_spec) (auto simp: bq_take_def bq_value_pop_def)
qed (rule queue_empty_iff)

subsection \<open>Unbounded\<close>

text \<open>The invariant of the fibers: the history adds up, nobody waits at a closed queue, and beside a waiting fiber there
  are at least as many fibers about to pop as there are values.\<close>

definition uq_ok :: "'a uq_system \<Rightarrow> bool" where
  "uq_ok s \<longleftrightarrow>
     uq.adds_up (us_pushed s) (us_popped s) (us_queue s) \<and>
     (q_closed (us_queue s) \<longrightarrow> us_waiting s = []) \<and>
     (us_waiting s \<noteq> [] \<longrightarrow> length (q_values (us_queue s)) \<le> length (us_popping s))"

lemma uq_push_cases:
  assumes "uq.adds_up pushed popped q" "uq_push x q = (q', st)"
  shows "(q_closed q \<and> st = closed \<and> uq.adds_up pushed popped q' \<and> q_values q' = q_values q \<and> q_closed q') \<or>
    (\<not> q_closed q \<and> st = success \<and> uq.adds_up (pushed @ [x]) popped q' \<and> q_values q' = q_values q @ [x] \<and> \<not> q_closed q')"
proof -
  obtain q1 n where n: "new_node x q = (q1, n)" by (rule prod.exhaust)
  have inv: "q_inv q" using assms(1) by (simp add: uq.adds_up_def)
  note spec = push_node_spec[OF inv n]
  show ?thesis using assms n spec by (cases "q_closed q") (auto simp: uq_push_def uq.adds_up_def)
qed

lemma uq_pop_cases:
  assumes "uq.adds_up pushed popped q" "uq_pop q = (q', r)"
  obtains (wait) "r = Waits" "q' = q" "q_values q = []" "\<not> q_closed q"
  | (shut) "r = Returns None" "q' = q" "q_values q = []" "q_closed q"
  | (got) x where "r = Returns (Some x)" "uq.adds_up pushed (popped @ [x]) q'" "q_values q = x # q_values q'" "q_closed q' = q_closed q"
proof (cases "q_values q")
  case Nil
  then have "queue_empty q" using assms(1) queue_empty_iff by (auto simp: uq.adds_up_def)
  then show ?thesis using assms(2) Nil wait shut by (cases "q_closed q") (auto simp: uq_pop_def)
next
  case (Cons x xs)
  have inv: "q_inv q" using assms(1) by (simp add: uq.adds_up_def)
  obtain q1 n where p: "pop_head q = (q1, n)" "q_inv q1" "nd_va (q_nodes q1 ! n) = x" "q_values q1 = xs" "q_closed q1 = q_closed q"
    by (rule pop_head_spec[OF inv Cons])
  have "\<not> queue_empty q" using queue_empty_iff[OF inv] Cons by simp
  then have "q' = q1" "r = Returns (Some x)" using assms(2) p(1,3) by (auto simp: uq_pop_def uq_value_pop_def)
  then show ?thesis using got[of x] p Cons assms(1) by (simp add: uq.adds_up_def)
qed

lemma uq_ok_pop:
  assumes "uq_ok s" "f \<in> set (us_popping s)" "uq_pop (us_queue s) = (q, r)"
  shows "r = Waits \<Longrightarrow> uq_ok (s\<lparr>us_queue := q, us_popping := remove1 f (us_popping s), us_waiting := us_waiting s @ [f]\<rparr>)"
    "r = Returns (Some x) \<Longrightarrow> uq_ok (s\<lparr>us_queue := q, us_popping := remove1 f (us_popping s), us_popped := us_popped s @ [x]\<rparr>)"
    "r = Returns None \<Longrightarrow> uq_ok (s\<lparr>us_queue := q, us_popping := remove1 f (us_popping s)\<rparr>)"
proof -
  have adds: "uq.adds_up (us_pushed s) (us_popped s) (us_queue s)" using assms(1) by (simp add: uq_ok_def)
  have n: "length (remove1 f (us_popping s)) = length (us_popping s) - 1" using assms(2) by (simp add: length_remove1)
  have "0 < length (us_popping s)" using assms(2) by (cases "us_popping s") auto
  with assms(1) n adds
  show "r = Waits \<Longrightarrow> uq_ok (s\<lparr>us_queue := q, us_popping := remove1 f (us_popping s), us_waiting := us_waiting s @ [f]\<rparr>)"
    "r = Returns (Some x) \<Longrightarrow> uq_ok (s\<lparr>us_queue := q, us_popping := remove1 f (us_popping s), us_popped := us_popped s @ [x]\<rparr>)"
    "r = Returns None \<Longrightarrow> uq_ok (s\<lparr>us_queue := q, us_popping := remove1 f (us_popping s)\<rparr>)"
    by (cases rule: uq_pop_cases[OF adds assms(3)]; simp add: uq_ok_def; linarith?)+
qed

lemma uq_ok_push:
  assumes "uq_ok s" "uq_push x (us_queue s) = (q, st)"
  shows "st = success \<Longrightarrow> uq_ok (wake_one (s\<lparr>us_queue := q, us_pushed := us_pushed s @ [x]\<rparr>))"
    "st = closed \<Longrightarrow> uq_ok (s\<lparr>us_queue := q\<rparr>)"
proof -
  have adds: "uq.adds_up (us_pushed s) (us_popped s) (us_queue s)" using assms(1) by (simp add: uq_ok_def)
  note push = uq_push_cases[OF adds assms(2)]
  show "uq_ok (wake_one (s\<lparr>us_queue := q, us_pushed := us_pushed s @ [x]\<rparr>))" if "st = success"
    using push that assms(1) by (cases "us_waiting s") (simp_all add: uq_ok_def wake_one_def)
  show "uq_ok (s\<lparr>us_queue := q\<rparr>)" if "st = closed" using push that assms(1) by (simp add: uq_ok_def)
qed

lemma uq_ok_step: "uq_step s s' \<Longrightarrow> uq_ok s \<Longrightarrow> uq_ok s'"
proof (induction rule: uq_step.induct)
  case (pop_called s f)
  then show ?case by (auto simp: uq_ok_def)
next
  case (close s)
  then show ?case by (simp add: uq_ok_def uq_close_def uq.adds_up_def q_inv_def links_def q_values_def)
qed (simp_all add: uq_ok_pop uq_ok_push)

lemma uq_ok_start: "uq_ok uq_start"
  by (simp add: uq_ok_def uq_start_def uq_new_def uq.adds_up_def q_inv_def links_def q_values_def)

lemma uq_ok_run: "uq_step\<^sup>*\<^sup>* uq_start s \<Longrightarrow> uq_ok s"
  by (induction rule: rtranclp_induct) (simp_all add: uq_ok_start uq_ok_step)


subsection \<open>Bounded\<close>

text \<open>The count is the number of values ever pushed, and a producer waits only at a full queue.\<close>

definition bq_ok :: "64 word \<Rightarrow> 'a bq_system \<Rightarrow> bool" where
  "bq_ok hwm s \<longleftrightarrow>
     bq.adds_up (bs_pushed s) (bs_popped s) (bs_queue s) \<and> bq_hwm (bs_queue s) = hwm \<and>
     length (bs_pushed s) \<le> unat hwm \<and> bq_count (bs_queue s) = of_nat (length (bs_pushed s)) \<and>
     (bs_full s \<noteq> [] \<or> bs_resumed s \<noteq> [] \<longrightarrow> queue_full (bs_queue s))"

lemma new_node_bounded: "new_node x q = (q', n) \<Longrightarrow> bq_count q' = bq_count q \<and> bq_hwm q' = bq_hwm q \<and> queue_full q' = queue_full q"
  by (auto simp: new_node_def queue_full_def)

lemma push_tail_bounded [simp]: "bq_count (push_tail n q) = bq_count q" "bq_hwm (push_tail n q) = bq_hwm q"
  by (simp_all add: push_tail_def Let_def)

lemma pop_head_bounded: "pop_head q = (q', n) \<Longrightarrow> bq_count q' = bq_count q \<and> bq_hwm q' = bq_hwm q"
  by (auto simp: pop_head_def Let_def)

lemma count_room:
  assumes "bq_ok hwm s" "\<not> queue_full (bs_queue s)"
  shows "length (bs_pushed s) < unat hwm"
proof -
  have ok: "length (bs_pushed s) \<le> unat hwm" "bq_count (bs_queue s) = of_nat (length (bs_pushed s))" "bq_hwm (bs_queue s) = hwm"
    using assms(1) by (simp_all add: bq_ok_def)
  have "unat hwm < 2 ^ LENGTH(64)" by (rule unsigned_less)
  with ok(1) have "length (bs_pushed s) < 2 ^ LENGTH(64)" by (rule le_less_trans)
  then have n: "unat (of_nat (length (bs_pushed s)) :: 64 word) = length (bs_pushed s)" by (simp only: unat_of_nat mod_less)
  have "(of_nat (length (bs_pushed s)) :: 64 word) < hwm" using assms(2) ok(2,3) by (simp only: queue_full_def not_le)
  then show ?thesis by (simp only: word_less_nat_alt n)
qed

lemma bq_ok_pushed:
  assumes "bq_ok hwm s" "new_node x (bs_queue s) = (q, n)" "\<not> queue_full q"
  shows "bq_ok hwm (s\<lparr>bs_queue := bq_push_tail n q, bs_pushed := bs_pushed s @ [x]\<rparr>)"
proof -
  have room: "\<not> queue_full (bs_queue s)" using assms(3) new_node_bounded[OF assms(2)] by simp
  then have "bs_full s = []" "bs_resumed s = []" "length (bs_pushed s) < unat hwm"
    using assms(1) count_room[OF assms(1) room] by (auto simp: bq_ok_def)
  moreover have "bq.adds_up (bs_pushed s @ [x]) (bs_popped s) (bq_push_tail n q)"
    using bq.adds_up_put[of "bs_pushed s" "bs_popped s" "bs_queue s" x] assms(1,2) by (simp add: bq_ok_def bq_push_node_def)
  ultimately show ?thesis using assms(1,2) new_node_bounded[OF assms(2)] by (simp add: bq_ok_def bq_push_tail_def Let_def)
qed

lemma bq_ok_allocated:
  assumes "bq_ok hwm s" "new_node x (bs_queue s) = (q, n)"
  shows "bq_ok hwm (s\<lparr>bs_queue := q\<rparr>)"
proof -
  have adds: "bq.adds_up (bs_pushed s) (bs_popped s) (bs_queue s)" using assms(1) by (simp add: bq_ok_def)
  then have "q_inv (bs_queue s)" by (simp add: bq.adds_up_def)
  from push_node_spec[OF this assms(2)] adds have "bq.adds_up (bs_pushed s) (bs_popped s) q" by (simp add: bq.adds_up_def)
  then show ?thesis using assms(1) new_node_bounded[OF assms(2)] by (simp add: bq_ok_def)
qed

lemma bq_ok_popped:
  assumes "bq_ok hwm s" "bq_pop (bs_queue s) = (q, Returns (Some (x, k)))"
  shows "bq_ok hwm (s\<lparr>bs_queue := q, bs_popped := bs_popped s @ [x]\<rparr>)"
proof -
  have t: "bq_take (bs_queue s) = (q, x)" "\<not> queue_empty (bs_queue s)"
    using assms(2) by (auto simp: bq_pop_def bq_take_def split: if_splits prod.splits)
  have "bq_count q = bq_count (bs_queue s)" "bq_hwm q = bq_hwm (bs_queue s)"
    using t(1) pop_head_bounded by (auto simp: bq_take_def bq_value_pop_def split: prod.splits)
  moreover have "bq.adds_up (bs_pushed s) (bs_popped s @ [x]) q"
    using bq.adds_up_take[OF _ t(2,1)] assms(1) by (simp add: bq_ok_def)
  ultimately show ?thesis using assms(1) by (auto simp: bq_ok_def queue_full_def)
qed

lemma bq_ok_wake: "bq_ok hwm s \<Longrightarrow> bq_ok hwm (wake_producers k s)"
  by (cases k; cases "bs_full s") (auto simp: bq_ok_def wake_producers_def)

lemma bq_ok_step: "bq_step s s' \<Longrightarrow> bq_ok hwm s \<Longrightarrow> bq_ok hwm s'"
proof (induction rule: bq_step.induct)
  case (push_done x s q n q')
  then show ?case using bq_ok_pushed[of hwm s x q n] by (auto simp: bq_push_def bq_push_resumed_def split: if_splits)
next
  case (push_refused x s q n q')
  then show ?case using bq_ok_allocated[of hwm s x q n] by (auto simp: bq_push_def bq_push_resumed_def split: if_splits)
next
  case (push_waits x s q n q' f)
  then have "queue_full q" "q' = q" by (auto simp: bq_push_def bq_push_resumed_def split: if_splits)
  then show ?case using bq_ok_allocated[OF push_waits(3,1)] by (simp add: bq_ok_def)
next
  case (resume_done f n s q')
  then have "queue_full (bs_queue s)" by (auto simp: bq_ok_def)
  then show ?case using resume_done(2) by (simp add: bq_push_resumed_def)
next
  case (resume_waits f n s q')
  then show ?case by (auto simp: bq_push_resumed_def bq_ok_def split: if_splits)
next
  case (try_push_done x s q')
  obtain q n where n: "new_node x (bs_queue s) = (q, n)" by (rule prod.exhaust)
  then show ?case using try_push_done(1) bq_ok_pushed[OF try_push_done(2) n] by (auto simp: bq_try_push_def split: if_splits)
next
  case (try_push_fails x s q' st)
  obtain q n where n: "new_node x (bs_queue s) = (q, n)" by (rule prod.exhaust)
  then show ?case using try_push_fails(1,2) bq_ok_allocated[OF try_push_fails(3) n] by (auto simp: bq_try_push_def split: if_splits)
next
  case (pop_done s q' x k)
  show ?case by (rule bq_ok_wake[OF bq_ok_popped[OF pop_done(2,1)]])
next
  case (close s)
  have "bq.adds_up pushed popped (bq_close q) = bq.adds_up pushed popped q" for pushed popped and q :: "'a bounded_queue"
    by (simp add: bq_close_def bq.adds_up_def q_inv_def links_def q_values_def)
  then have "bq_ok hwm (s\<lparr>bs_queue := bq_close (bs_queue s)\<rparr>)"
    using close by (simp add: bq_ok_def) (auto simp: bq_close_def queue_full_def)
  then show ?case by (rule bq_ok_wake)
qed

lemma bq_ok_start:
  assumes "bq_new hwm lwm = Some q"
  shows "bq_ok hwm (bq_start q)"
proof -
  have q: "q = \<lparr>q_closed = False, q_nodes = [], q_head = None, q_tail = None, bq_count = 0, bq_hwm = hwm, bq_lwm = lwm\<rparr>"
    using assms by (simp add: bq_new_def split: if_splits)
  then have l: "links q []" by (simp add: links_def)
  have "bq.adds_up [] [] q" using q_values_links[OF l] l by (simp add: bq.adds_up_def q_inv_def) (rule exI)
  then show ?thesis using q by (simp add: bq_ok_def bq_start_def)
qed

lemma bq_ok_run: "bq_step\<^sup>*\<^sup>* (bq_start q) s \<Longrightarrow> bq_new hwm lwm = Some q \<Longrightarrow> bq_ok hwm s"
  by (induction rule: rtranclp_induct) (simp_all add: bq_ok_start bq_ok_step)

section \<open>Properties\<close>

text \<open>\<^bold>\<open>C12\<close>. The unbounded queue is first in, first out, for any number of fibers that push, pop and close in
  any interleaving: what has been popped, followed by what is linked in the queue, is what has been pushed.\<close>

theorem unbounded_queue_fifo:
  assumes "uq_step\<^sup>*\<^sup>* uq_start s"
  shows "us_pushed s = us_popped s @ q_values (us_queue s)"
  using uq_ok_run[OF assms] by (simp add: uq_ok_def uq.adds_up_def)

text \<open>No wake-up is lost at the unbounded queue: while a fiber waits in \<open>pop\<close> the queue is open, and for
  every value in it some other fiber is already on its way to take it.\<close>

theorem unbounded_queue_no_lost_wakeup:
  assumes "uq_step\<^sup>*\<^sup>* uq_start s" "us_waiting s \<noteq> []"
  shows "\<not> q_closed (us_queue s) \<and> length (q_values (us_queue s)) \<le> length (us_popping s)"
  using uq_ok_run[OF assms(1)] assms(2) by (auto simp: uq_ok_def)

text \<open>\<^bold>\<open>C17\<close>. The bounded queue wears out: as a pop does not lower the count, a queue takes only as many values
  as its high-watermark says over its whole life, however many of them are popped.\<close>

theorem bounded_queue_wears_out:
  assumes "bq_new hwm lwm = Some q" "bq_step\<^sup>*\<^sup>* (bq_start q) s"
  shows "length (bs_pushed s) \<le> unat hwm \<and> bs_pushed s = bs_popped s @ q_values (bs_queue s)"
  using bq_ok_run[OF assms(2,1)] unfolding bq_ok_def bq.adds_up_def by blast

text \<open>A producer that waits for room never returns: whatever happens, also when the queue is emptied or
  closed, it finds the queue full again.\<close>

theorem waiting_producer_is_stuck:
  assumes "bq_new hwm lwm = Some q" "bq_step\<^sup>*\<^sup>* (bq_start q) s" "(f, n) \<in> set (bs_full s) \<union> set (bs_resumed s)"
  shows "bq_push_resumed n (bs_queue s) = (bs_queue s, Waits)"
  using bq_ok_run[OF assms(2,1)] assms(3) by (auto simp: bq_ok_def bq_push_resumed_def)


text \<open>Two fibers wait, then a value is pushed.\<close>

definition wit_uq :: "nat uq_system" where
  "wit_uq = \<lparr>us_queue = fst (uq_push 7 uq_new), us_waiting = [2], us_popping = [1], us_pushed = [7], us_popped = []\<rparr>"

lemma wit_uq_run: "uq_step\<^sup>*\<^sup>* uq_start wit_uq"
proof -
  let ?s = "\<lambda>p w. (uq_start :: nat uq_system)\<lparr>us_popping := p, us_waiting := w\<rparr>"
  have pop: "uq_pop (uq_new :: nat unbounded_queue) = (uq_new, Waits)"
    and push: "uq_push 7 (uq_new :: nat unbounded_queue) = (fst (uq_push 7 uq_new), success)" by code_simp+
  have "uq_step uq_start (?s [1] [])" using uq_step.pop_called[of uq_start 1] by (simp add: uq_start_def)
  moreover have "uq_step (?s [1] []) (?s [] [1])" using uq_step.pop_waits[of 1 "?s [1] []"] pop by (simp add: uq_start_def)
  moreover have "uq_step (?s [] [1]) (?s [2] [1])" using uq_step.pop_called[of "?s [] [1]" 2] by (simp add: uq_start_def)
  moreover have "uq_step (?s [2] [1]) (?s [] [1, 2])" using uq_step.pop_waits[of 2 "?s [2] [1]"] pop by (simp add: uq_start_def)
  moreover have "uq_step (?s [] [1, 2]) wit_uq"
    using uq_step.push_done[of 7 "?s [] [1, 2]"] push by (simp add: uq_start_def wit_uq_def wake_one_def)
  ultimately show ?thesis by (meson converse_rtranclp_into_rtranclp rtranclp.rtrancl_refl)
qed

theorem unbounded_queue_fifo_witness: "us_pushed wit_uq = us_popped wit_uq @ q_values (us_queue wit_uq) \<and> us_pushed wit_uq = [7]"
  using unbounded_queue_fifo[OF wit_uq_run] by (simp add: wit_uq_def)

theorem unbounded_queue_no_lost_wakeup_witness:
  "us_waiting wit_uq = [2] \<and> length (q_values (us_queue wit_uq)) \<le> length (us_popping wit_uq)"
  using unbounded_queue_no_lost_wakeup[OF wit_uq_run] by (simp add: wit_uq_def)

text \<open>A queue for one value: the value is pushed and popped, and the next producer waits for ever.\<close>

definition wit_bq :: "nat bounded_queue" where
  "wit_bq = \<lparr>q_closed = False, q_nodes = [], q_head = None, q_tail = None, bq_count = 0, bq_hwm = 1, bq_lwm = 1\<rparr>"

definition wit_bq_pushed :: "nat bounded_queue" where "wit_bq_pushed = bq_push_node 7 wit_bq"
definition wit_bq_popped :: "nat bounded_queue" where "wit_bq_popped = fst (bq_pop wit_bq_pushed)"

definition wit_bs :: "nat bq_system" where
  "wit_bs = \<lparr>bs_queue = fst (new_node 8 wit_bq_popped), bs_full = [(3, 1)], bs_resumed = [], bs_pushed = [7], bs_popped = [7]\<rparr>"

lemma wit_bq_new: "bq_new 1 1 = Some wit_bq"
  by (simp add: bq_new_def wit_bq_def)

lemma wit_bs_run: "bq_step\<^sup>*\<^sup>* (bq_start wit_bq) wit_bs"
proof -
  let ?s1 = "(bq_start wit_bq)\<lparr>bs_queue := wit_bq_pushed, bs_pushed := [7]\<rparr>" and ?s2 = "wit_bs\<lparr>bs_queue := wit_bq_popped, bs_full := []\<rparr>"
  have "bq_push (snd (new_node 7 wit_bq)) (fst (new_node 7 wit_bq)) = (wit_bq_pushed, Returns success)" by code_simp
  then have "bq_step (bq_start wit_bq) ?s1"
    using bq_step.push_done[of 7 "bq_start wit_bq" "fst (new_node 7 wit_bq)" "snd (new_node 7 wit_bq)" wit_bq_pushed]
    by (simp add: bq_start_def)
  moreover have "bq_pop wit_bq_pushed = (wit_bq_popped, Returns (Some (7, Notify_one)))" by code_simp
  then have "bq_step ?s1 ?s2"
    using bq_step.pop_done[of ?s1 wit_bq_popped 7 Notify_one] by (simp add: bq_start_def wit_bs_def wake_producers_def)
  moreover have "new_node 8 wit_bq_popped = (fst (new_node 8 wit_bq_popped), 1)"
    "bq_push 1 (fst (new_node 8 wit_bq_popped)) = (fst (new_node 8 wit_bq_popped), Waits)" by code_simp+
  then have "bq_step ?s2 wit_bs"
    using bq_step.push_waits[of 8 ?s2 "fst (new_node 8 wit_bq_popped)" 1 "fst (new_node 8 wit_bq_popped)" 3] by (simp add: wit_bs_def)
  ultimately show ?thesis by (meson converse_rtranclp_into_rtranclp rtranclp.rtrancl_refl)
qed

theorem bounded_queue_wears_out_witness:
  "length (bs_pushed wit_bs) \<le> unat (1 :: 64 word) \<and> bs_popped wit_bs = [7] \<and> bs_full wit_bs \<noteq> []"
  using bounded_queue_wears_out[OF wit_bq_new wit_bs_run] by (simp add: wit_bs_def)

theorem waiting_producer_is_stuck_witness: "bq_push_resumed 1 (bs_queue wit_bs) = (bs_queue wit_bs, Waits)"
  by (rule waiting_producer_is_stuck[OF wit_bq_new wit_bs_run, of 3]) (simp add: wit_bs_def)


end
