(* ===== verification/Fiber_Future.thy ===== *)
theory Fiber_Future
  imports Fiber_Queue
begin

text \<open>
  \<open>boost/fiber/future\<close>: the state shared by a promise or a packaged task and its futures, with its reference
  count.  Shared states live at addresses of a store; \<open>None\<close> is the undefined behaviour of an access to a state
  that was freed.  A call that waits is \<open>Waits\<close>; a condition variable may wake it at any time and it tests again.
  The locks of the states make the operations atomic.
\<close>

section \<open>The shared state\<close>

datatype 'e future_error =
  broken_promise
| promise_already_satisfied
| promise_uninitialized
| future_already_retrieved
| future_uninitialized
| packaged_task_uninitialized
| Thrown 'e

record ('a, 'e) shared_state =
  use_count :: nat
  ss_ready :: bool
  ss_value :: "'a option"
  ss_except :: "'e future_error option"

definition shared_state_new :: "('a, 'e) shared_state" where
  "shared_state_new = \<lparr>use_count = 0, ss_ready = False, ss_value = None, ss_except = None\<rparr>"

definition mark_ready_and_notify :: "('a, 'e) shared_state \<Rightarrow> ('a, 'e) shared_state" where
  "mark_ready_and_notify s = s\<lparr>ss_ready := True\<rparr>"

definition ss_set_value :: "'a \<Rightarrow> ('a, 'e) shared_state \<Rightarrow> 'e future_error + ('a, 'e) shared_state" where
  "ss_set_value v s =
     (if ss_ready s then Inl promise_already_satisfied else Inr (mark_ready_and_notify (s\<lparr>ss_value := Some v\<rparr>)))"

definition ss_set_exception :: "'e future_error \<Rightarrow> ('a, 'e) shared_state \<Rightarrow> 'e future_error + ('a, 'e) shared_state" where
  "ss_set_exception e s =
     (if ss_ready s then Inl promise_already_satisfied else Inr (mark_ready_and_notify (s\<lparr>ss_except := Some e\<rparr>)))"

definition owner_destroyed :: "('a, 'e) shared_state \<Rightarrow> ('a, 'e) shared_state" where
  "owner_destroyed s =
     (if ss_ready s then s else (case ss_set_exception broken_promise s of Inr s' \<Rightarrow> s' | Inl e \<Rightarrow> s))"

definition ss_wait :: "('a, 'e) shared_state \<Rightarrow> unit attempt" where
  "ss_wait s = (if ss_ready s then Returns () else Waits)"

text \<open>\<open>value_.get()\<close> of an empty optional is undefined.\<close>

definition ss_get :: "('a, 'e) shared_state \<Rightarrow> ('e future_error + 'a) option attempt" where
  "ss_get s =
     (case ss_wait s of
        Waits \<Rightarrow> Waits
      | Returns _ \<Rightarrow> Returns (case ss_except s of Some e \<Rightarrow> Some (Inl e) | None \<Rightarrow> map_option Inr (ss_value s)))"

definition ss_get_exception_ptr :: "('a, 'e) shared_state \<Rightarrow> 'e future_error option attempt" where
  "ss_get_exception_ptr s = (case ss_wait s of Waits \<Rightarrow> Waits | Returns _ \<Rightarrow> Returns (ss_except s))"

datatype future_status = status_ready | status_timeout | status_deferred

text \<open>A test of the loop, after a wait that timed out or not; at the entrance nothing has timed out.\<close>

definition ss_wait_for :: "bool \<Rightarrow> ('a, 'e) shared_state \<Rightarrow> future_status attempt" where
  "ss_wait_for timed_out s =
     (if ss_ready s then Returns status_ready else if timed_out then Returns status_timeout else Waits)"

definition ss_reset :: "('a, 'e) shared_state \<Rightarrow> ('a, 'e) shared_state" where
  "ss_reset s = s\<lparr>ss_ready := False\<rparr>"

section \<open>Counted pointers\<close>

type_synonym ('a, 'e) store = "nat \<rightharpoonup> ('a, 'e) shared_state"

definition intrusive_ptr_add_ref :: "nat \<Rightarrow> ('a, 'e) store \<Rightarrow> ('a, 'e) store option" where
  "intrusive_ptr_add_ref a h =
     (case h a of None \<Rightarrow> None | Some s \<Rightarrow> Some (h(a \<mapsto> s\<lparr>use_count := use_count s + 1\<rparr>)))"

definition intrusive_ptr_release :: "nat \<Rightarrow> ('a, 'e) store \<Rightarrow> ('a, 'e) store option" where
  "intrusive_ptr_release a h =
     (case h a of
        None \<Rightarrow> None
      | Some s \<Rightarrow>
          (let s' = s\<lparr>use_count := use_count s - 1\<rparr>
           in if use_count s' = 0 then Some (h(a := None)) else Some (h(a \<mapsto> s'))))"

definition ptr_copy :: "nat option \<Rightarrow> ('a, 'e) store \<Rightarrow> ('a, 'e) store option" where
  "ptr_copy p h = (case p of None \<Rightarrow> Some h | Some a \<Rightarrow> intrusive_ptr_add_ref a h)"

definition ptr_drop :: "nat option \<Rightarrow> ('a, 'e) store \<Rightarrow> ('a, 'e) store option" where
  "ptr_drop p h = (case p of None \<Rightarrow> Some h | Some a \<Rightarrow> intrusive_ptr_release a h)"

text \<open>A call of a member of the state behind a pointer that may throw.\<close>

definition on_state ::
  "(('a, 'e) shared_state \<Rightarrow> 'e future_error + ('a, 'e) shared_state) \<Rightarrow> nat \<Rightarrow> ('a, 'e) store \<Rightarrow>
     ('e future_error option \<times> ('a, 'e) store) option" where
  "on_state f a h =
     (case h a of
        None \<Rightarrow> None
      | Some s \<Rightarrow> Some (case f s of Inl e \<Rightarrow> (Some e, h) | Inr s' \<Rightarrow> (None, h(a \<mapsto> s'))))"

section \<open>Promises and packaged tasks\<close>

text \<open>The operator new returns an address that is not in use: it is an argument.\<close>

record promise =
  pr_obtained :: bool
  pr_future :: "nat option"

definition promise_new :: "nat \<Rightarrow> ('a, 'e) store \<Rightarrow> promise \<times> ('a, 'e) store" where
  "promise_new a h =
     (\<lparr>pr_obtained = False, pr_future = Some a\<rparr>, h(a \<mapsto> shared_state_new\<lparr>use_count := 1\<rparr>))"

definition owner_drop :: "nat option \<Rightarrow> ('a, 'e) store \<Rightarrow> ('a, 'e) store option" where
  "owner_drop p h =
     (case p of
        None \<Rightarrow> Some h
      | Some a \<Rightarrow> (case h a of None \<Rightarrow> None | Some s \<Rightarrow> ptr_drop p (h(a \<mapsto> owner_destroyed s))))"

definition promise_destroy :: "promise \<Rightarrow> ('a, 'e) store \<Rightarrow> ('a, 'e) store option" where
  "promise_destroy p h = owner_drop (pr_future p) h"

definition promise_null :: promise where
  "promise_null = \<lparr>pr_obtained = False, pr_future = None\<rparr>"

definition promise_swap :: "promise \<Rightarrow> promise \<Rightarrow> promise \<times> promise" where
  "promise_swap p q =
     (p\<lparr>pr_obtained := pr_obtained q, pr_future := pr_future q\<rparr>, q\<lparr>pr_obtained := pr_obtained p, pr_future := pr_future p\<rparr>)"

text \<open>The new promise and what is left of the other.\<close>

definition promise_move :: "promise \<Rightarrow> promise \<times> promise" where
  "promise_move other = promise_swap promise_null other"

definition promise_move_assign ::
  "promise \<Rightarrow> promise \<Rightarrow> ('a, 'e) store \<Rightarrow> (promise \<times> promise \<times> ('a, 'e) store) option" where
  "promise_move_assign this other h =
     (let (tmp, other') = promise_move other; (this', tmp') = promise_swap this tmp
      in map_option (\<lambda>h'. (this', other', h')) (promise_destroy tmp' h))"

definition promise_get_future ::
  "promise \<Rightarrow> ('a, 'e) store \<Rightarrow> (('e future_error + promise \<times> nat option) \<times> ('a, 'e) store) option" where
  "promise_get_future p h =
     (if pr_obtained p then Some (Inl future_already_retrieved, h)
      else if pr_future p = None then Some (Inl promise_uninitialized, h)
      else map_option (\<lambda>h'. (Inr (p\<lparr>pr_obtained := True\<rparr>, pr_future p), h')) (ptr_copy (pr_future p) h))"

definition promise_set_value ::
  "promise \<Rightarrow> 'a \<Rightarrow> ('a, 'e) store \<Rightarrow> ('e future_error option \<times> ('a, 'e) store) option" where
  "promise_set_value p v h =
     (case pr_future p of None \<Rightarrow> Some (Some promise_uninitialized, h) | Some a \<Rightarrow> on_state (ss_set_value v) a h)"

definition promise_set_exception ::
  "promise \<Rightarrow> 'e \<Rightarrow> ('a, 'e) store \<Rightarrow> ('e future_error option \<times> ('a, 'e) store) option" where
  "promise_set_exception p e h =
     (case pr_future p of None \<Rightarrow> Some (Some promise_uninitialized, h) | Some a \<Rightarrow> on_state (ss_set_exception (Thrown e)) a h)"

record packaged_task =
  pt_obtained :: bool
  pt_task :: "nat option"

definition packaged_task_new :: "nat \<Rightarrow> ('a, 'e) store \<Rightarrow> packaged_task \<times> ('a, 'e) store" where
  "packaged_task_new a h =
     (\<lparr>pt_obtained = False, pt_task = Some a\<rparr>, h(a \<mapsto> shared_state_new\<lparr>use_count := 1\<rparr>))"

definition packaged_task_null :: packaged_task where
  "packaged_task_null = \<lparr>pt_obtained = False, pt_task = None\<rparr>"

definition packaged_task_destroy :: "packaged_task \<Rightarrow> ('a, 'e) store \<Rightarrow> ('a, 'e) store option" where
  "packaged_task_destroy t h = owner_drop (pt_task t) h"

definition packaged_task_swap :: "packaged_task \<Rightarrow> packaged_task \<Rightarrow> packaged_task \<times> packaged_task" where
  "packaged_task_swap p q =
     (p\<lparr>pt_obtained := pt_obtained q, pt_task := pt_task q\<rparr>, q\<lparr>pt_obtained := pt_obtained p, pt_task := pt_task p\<rparr>)"

definition packaged_task_move :: "packaged_task \<Rightarrow> packaged_task \<times> packaged_task" where
  "packaged_task_move other = packaged_task_swap packaged_task_null other"

definition packaged_task_move_assign ::
  "packaged_task \<Rightarrow> packaged_task \<Rightarrow> ('a, 'e) store \<Rightarrow> (packaged_task \<times> packaged_task \<times> ('a, 'e) store) option" where
  "packaged_task_move_assign this other h =
     (let (tmp, other') = packaged_task_move other; (this', tmp') = packaged_task_swap this tmp
      in map_option (\<lambda>h'. (this', other', h')) (packaged_task_destroy tmp' h))"

definition packaged_task_get_future ::
  "packaged_task \<Rightarrow> ('a, 'e) store \<Rightarrow> (('e future_error + packaged_task \<times> nat option) \<times> ('a, 'e) store) option" where
  "packaged_task_get_future t h =
     (if pt_obtained t then Some (Inl future_already_retrieved, h)
      else if pt_task t = None then Some (Inl packaged_task_uninitialized, h)
      else map_option (\<lambda>h'. (Inr (t\<lparr>pt_obtained := True\<rparr>, pt_task t), h')) (ptr_copy (pt_task t) h))"

text \<open>\<open>run\<close> with the outcome of the function: what \<open>set_value\<close> throws is caught and given to \<open>set_exception\<close>.\<close>

definition task_run :: "'e + 'a \<Rightarrow> ('a, 'e) shared_state \<Rightarrow> 'e future_error + ('a, 'e) shared_state" where
  "task_run r s =
     (case r of
        Inl e \<Rightarrow> ss_set_exception (Thrown e) s
      | Inr v \<Rightarrow> (case ss_set_value v s of Inr s' \<Rightarrow> Inr s' | Inl e \<Rightarrow> ss_set_exception e s))"

definition packaged_task_call ::
  "packaged_task \<Rightarrow> 'e + 'a \<Rightarrow> ('a, 'e) store \<Rightarrow> ('e future_error option \<times> ('a, 'e) store) option" where
  "packaged_task_call t r h =
     (case pt_task t of None \<Rightarrow> Some (Some packaged_task_uninitialized, h) | Some a \<Rightarrow> on_state (task_run r) a h)"

definition packaged_task_reset ::
  "packaged_task \<Rightarrow> ('a, 'e) store \<Rightarrow> (('e future_error + packaged_task) \<times> ('a, 'e) store) option" where
  "packaged_task_reset t h =
     (case pt_task t of
        None \<Rightarrow> Some (Inl packaged_task_uninitialized, h)
      | Some a \<Rightarrow>
          (case h a of None \<Rightarrow> None | Some s \<Rightarrow> Some (Inr (t\<lparr>pt_obtained := False\<rparr>), h(a \<mapsto> ss_reset s))))"

section \<open>Futures\<close>

text \<open>A future is its pointer.  \<open>get\<close> moves it to a local of the call, which keeps the state while the call
  waits; \<open>future_get\<close> is what it does up to the wait: the local.\<close>

definition future_valid :: "nat option \<Rightarrow> bool" where
  "future_valid f \<longleftrightarrow> f \<noteq> None"

definition future_move_assign ::
  "nat option \<Rightarrow> nat option \<Rightarrow> ('a, 'e) store \<Rightarrow> (nat option \<times> nat option \<times> ('a, 'e) store) option" where
  "future_move_assign this other h = map_option (\<lambda>h'. (other, None, h')) (ptr_drop this h)"

definition future_get :: "nat option \<Rightarrow> 'e future_error + nat option \<times> nat option" where
  "future_get f = (if \<not> future_valid f then Inl future_uninitialized else Inr (None, f))"

text \<open>The wait, the result and the end of the local.\<close>

definition future_get_finish ::
  "nat option \<Rightarrow> ('a, 'e) store \<Rightarrow> (('e future_error + 'a) \<times> ('a, 'e) store) option attempt" where
  "future_get_finish tmp h =
     (case tmp of
        None \<Rightarrow> Returns None
      | Some a \<Rightarrow>
          (case h a of
             None \<Rightarrow> Returns None
           | Some s \<Rightarrow>
               (case ss_get s of
                  Waits \<Rightarrow> Waits
                | Returns None \<Rightarrow> Returns None
                | Returns (Some r) \<Rightarrow> Returns (map_option (Pair r) (ptr_drop tmp h)))))"

definition future_share :: "nat option \<Rightarrow> 'e future_error + nat option \<times> nat option" where
  "future_share f = (if \<not> future_valid f then Inl future_uninitialized else Inr (None, f))"

text \<open>Waiting members of futures and shared futures, which keep their pointer.\<close>

definition with_state ::
  "(('a, 'e) shared_state \<Rightarrow> 'b attempt) \<Rightarrow> nat option \<Rightarrow> ('a, 'e) store \<Rightarrow> ('e future_error + 'b) option attempt" where
  "with_state f p h =
     (case p of
        None \<Rightarrow> Returns (Some (Inl future_uninitialized))
      | Some a \<Rightarrow>
          (case h a of
             None \<Rightarrow> Returns None
           | Some s \<Rightarrow> (case f s of Waits \<Rightarrow> Waits | Returns r \<Rightarrow> Returns (Some (Inr r)))))"

definition future_wait :: "nat option \<Rightarrow> ('a, 'e) store \<Rightarrow> ('e future_error + unit) option attempt" where
  "future_wait f h = with_state ss_wait f h"

definition future_wait_for :: "bool \<Rightarrow> nat option \<Rightarrow> ('a, 'e) store \<Rightarrow> ('e future_error + future_status) option attempt" where
  "future_wait_for timed_out f h = with_state (ss_wait_for timed_out) f h"

definition future_get_exception_ptr ::
  "nat option \<Rightarrow> ('a, 'e) store \<Rightarrow> ('e future_error + 'e future_error option) option attempt" where
  "future_get_exception_ptr f h = with_state ss_get_exception_ptr f h"

definition shared_future_copy :: "nat option \<Rightarrow> ('a, 'e) store \<Rightarrow> (nat option \<times> ('a, 'e) store) option" where
  "shared_future_copy other h = map_option (Pair other) (ptr_copy other h)"

definition shared_future_assign ::
  "nat option \<Rightarrow> nat option \<Rightarrow> ('a, 'e) store \<Rightarrow> (nat option \<times> ('a, 'e) store) option" where
  "shared_future_assign this other h =
     (case shared_future_copy other h of
        None \<Rightarrow> None
      | Some (tmp, h') \<Rightarrow> map_option (Pair tmp) (ptr_drop this h'))"

definition shared_future_get :: "nat option \<Rightarrow> ('a, 'e) store \<Rightarrow> ('e future_error + ('e future_error + 'a) option) option attempt" where
  "shared_future_get f h = with_state ss_get f h"

text \<open>\<open>async\<close>: the task goes to a fiber that runs and destroys it, the future to the caller; the local task is
  left empty.\<close>

definition async :: "nat \<Rightarrow> ('a, 'e) store \<Rightarrow> ((packaged_task \<times> nat option) \<times> ('a, 'e) store) option" where
  "async a h =
     (case packaged_task_new a h of
        (pt, h1) \<Rightarrow>
          (case packaged_task_get_future pt h1 of
             Some (Inr (pt', fi), h2) \<Rightarrow>
               (case packaged_task_move pt' of (tmp, rest) \<Rightarrow> map_option (Pair (tmp, fi)) (packaged_task_destroy rest h2))
           | _ \<Rightarrow> None))"

section \<open>Programs with futures\<close>

text \<open>The variables of a program, with the local of a \<open>get\<close> in progress; any fiber may do any operation on them.\<close>

datatype handle =
  Promise promise
| Task packaged_task
| Future "nat option"
| Shared "nat option"
| Local "nat option"

record ('a, 'e) future_system =
  fs_store :: "('a, 'e) store"
  fs_vars :: "nat \<rightharpoonup> handle"

definition future_start :: "('a, 'e) future_system" where
  "future_start = \<lparr>fs_store = Map.empty, fs_vars = Map.empty\<rparr>"

inductive future_step :: "('a, 'e) future_system \<Rightarrow> ('a, 'e) future_system \<Rightarrow> bool" where
  make_promise: "fs_vars s v = None \<Longrightarrow> fs_store s a = None \<Longrightarrow> promise_new a (fs_store s) = (p, h) \<Longrightarrow>
     future_step s (s\<lparr>fs_store := h, fs_vars := (fs_vars s)(v \<mapsto> Promise p)\<rparr>)"
| end_promise: "fs_vars s v = Some (Promise p) \<Longrightarrow> promise_destroy p (fs_store s) = Some h \<Longrightarrow>
     future_step s (s\<lparr>fs_store := h, fs_vars := (fs_vars s)(v := None)\<rparr>)"
| assign_promise: "fs_vars s v = Some (Promise p) \<Longrightarrow> fs_vars s w = Some (Promise q) \<Longrightarrow> v \<noteq> w \<Longrightarrow>
     promise_move_assign p q (fs_store s) = Some (p', q', h) \<Longrightarrow>
     future_step s (s\<lparr>fs_store := h, fs_vars := (fs_vars s)(v \<mapsto> Promise p', w \<mapsto> Promise q')\<rparr>)"
| obtain_promise: "fs_vars s v = Some (Promise p) \<Longrightarrow> fs_vars s w = None \<Longrightarrow>
     promise_get_future p (fs_store s) = Some (Inr (p', f), h) \<Longrightarrow>
     future_step s (s\<lparr>fs_store := h, fs_vars := (fs_vars s)(v \<mapsto> Promise p', w \<mapsto> Future f)\<rparr>)"
| keep_value: "fs_vars s v = Some (Promise p) \<Longrightarrow> promise_set_value p x (fs_store s) = Some (e, h) \<Longrightarrow>
     future_step s (s\<lparr>fs_store := h\<rparr>)"
| keep_exception: "fs_vars s v = Some (Promise p) \<Longrightarrow> promise_set_exception p x (fs_store s) = Some (e, h) \<Longrightarrow>
     future_step s (s\<lparr>fs_store := h\<rparr>)"
| make_task: "fs_vars s v = None \<Longrightarrow> fs_store s a = None \<Longrightarrow> packaged_task_new a (fs_store s) = (t, h) \<Longrightarrow>
     future_step s (s\<lparr>fs_store := h, fs_vars := (fs_vars s)(v \<mapsto> Task t)\<rparr>)"
| end_task: "fs_vars s v = Some (Task t) \<Longrightarrow> packaged_task_destroy t (fs_store s) = Some h \<Longrightarrow>
     future_step s (s\<lparr>fs_store := h, fs_vars := (fs_vars s)(v := None)\<rparr>)"
| assign_task: "fs_vars s v = Some (Task t) \<Longrightarrow> fs_vars s w = Some (Task u) \<Longrightarrow> v \<noteq> w \<Longrightarrow>
     packaged_task_move_assign t u (fs_store s) = Some (t', u', h) \<Longrightarrow>
     future_step s (s\<lparr>fs_store := h, fs_vars := (fs_vars s)(v \<mapsto> Task t', w \<mapsto> Task u')\<rparr>)"
| obtain_task: "fs_vars s v = Some (Task t) \<Longrightarrow> fs_vars s w = None \<Longrightarrow>
     packaged_task_get_future t (fs_store s) = Some (Inr (t', f), h) \<Longrightarrow>
     future_step s (s\<lparr>fs_store := h, fs_vars := (fs_vars s)(v \<mapsto> Task t', w \<mapsto> Future f)\<rparr>)"
| call_task: "fs_vars s v = Some (Task t) \<Longrightarrow> packaged_task_call t r (fs_store s) = Some (e, h) \<Longrightarrow>
     future_step s (s\<lparr>fs_store := h\<rparr>)"
| reset_task: "fs_vars s v = Some (Task t) \<Longrightarrow> packaged_task_reset t (fs_store s) = Some (Inr t', h) \<Longrightarrow>
     future_step s (s\<lparr>fs_store := h, fs_vars := (fs_vars s)(v \<mapsto> Task t')\<rparr>)"
| start_async: "fs_vars s v = None \<Longrightarrow> fs_vars s w = None \<Longrightarrow> v \<noteq> w \<Longrightarrow> fs_store s a = None \<Longrightarrow>
     async a (fs_store s) = Some ((t, f), h) \<Longrightarrow>
     future_step s (s\<lparr>fs_store := h, fs_vars := (fs_vars s)(v \<mapsto> Task t, w \<mapsto> Future f)\<rparr>)"
| end_future: "fs_vars s v = Some (Future f) \<Longrightarrow> ptr_drop f (fs_store s) = Some h \<Longrightarrow>
     future_step s (s\<lparr>fs_store := h, fs_vars := (fs_vars s)(v := None)\<rparr>)"
| assign_future: "fs_vars s v = Some (Future f) \<Longrightarrow> fs_vars s w = Some (Future g) \<Longrightarrow> v \<noteq> w \<Longrightarrow>
     future_move_assign f g (fs_store s) = Some (f', g', h) \<Longrightarrow>
     future_step s (s\<lparr>fs_store := h, fs_vars := (fs_vars s)(v \<mapsto> Future f', w \<mapsto> Future g')\<rparr>)"
| begin_get: "fs_vars s v = Some (Future f) \<Longrightarrow> fs_vars s w = None \<Longrightarrow>
     (future_get f :: 'e future_error + _) = Inr (f', tmp) \<Longrightarrow>
     future_step s (s\<lparr>fs_vars := (fs_vars s)(v \<mapsto> Future f', w \<mapsto> Local tmp)\<rparr>)"
| finish_get: "fs_vars s v = Some (Local tmp) \<Longrightarrow> future_get_finish tmp (fs_store s) = Returns (Some (r, h)) \<Longrightarrow>
     future_step s (s\<lparr>fs_store := h, fs_vars := (fs_vars s)(v := None)\<rparr>)"
| share: "fs_vars s v = Some (Future f) \<Longrightarrow> fs_vars s w = None \<Longrightarrow>
     (future_share f :: 'e future_error + _) = Inr (f', g) \<Longrightarrow>
     future_step s (s\<lparr>fs_vars := (fs_vars s)(v \<mapsto> Future f', w \<mapsto> Shared g)\<rparr>)"
| copy_shared: "fs_vars s v = Some (Shared f) \<Longrightarrow> fs_vars s w = None \<Longrightarrow>
     shared_future_copy f (fs_store s) = Some (g, h) \<Longrightarrow>
     future_step s (s\<lparr>fs_store := h, fs_vars := (fs_vars s)(w \<mapsto> Shared g)\<rparr>)"
| assign_shared: "fs_vars s v = Some (Shared f) \<Longrightarrow> fs_vars s w = Some (Shared g) \<Longrightarrow>
     shared_future_assign f g (fs_store s) = Some (f', h) \<Longrightarrow>
     future_step s (s\<lparr>fs_store := h, fs_vars := (fs_vars s)(v \<mapsto> Shared f')\<rparr>)"
| end_shared: "fs_vars s v = Some (Shared f) \<Longrightarrow> ptr_drop f (fs_store s) = Some h \<Longrightarrow>
     future_step s (s\<lparr>fs_store := h, fs_vars := (fs_vars s)(v := None)\<rparr>)"

abbreviation future_run :: "('a, 'e) future_system \<Rightarrow> ('a, 'e) future_system \<Rightarrow> bool" where
  "future_run \<equiv> future_step\<^sup>*\<^sup>*"

section \<open>Counts and owners\<close>

text \<open>The pointers of the variables, and those of the promises and tasks among them.\<close>

definition pointer :: "handle \<Rightarrow> nat option" where
  "pointer x = (case x of Promise p \<Rightarrow> pr_future p | Task t \<Rightarrow> pt_task t | Future f \<Rightarrow> f | Shared f \<Rightarrow> f | Local f \<Rightarrow> f)"

definition owning :: "handle \<Rightarrow> nat option" where
  "owning x = (case x of Promise p \<Rightarrow> pr_future p | Task t \<Rightarrow> pt_task t | _ \<Rightarrow> None)"

definition pointers :: "(nat \<rightharpoonup> handle) \<Rightarrow> nat \<Rightarrow> nat option" where
  "pointers m v = Option.bind (m v) pointer"

definition owners :: "(nat \<rightharpoonup> handle) \<Rightarrow> nat \<Rightarrow> nat option" where
  "owners m v = Option.bind (m v) owning"

lemma pointers_upd [simp]: "pointers (m(v := x)) = (pointers m)(v := Option.bind x pointer)"
  by (auto simp: pointers_def fun_eq_iff)

lemma owners_upd [simp]: "owners (m(v := x)) = (owners m)(v := Option.bind x owning)"
  by (auto simp: owners_def fun_eq_iff)

lemma at_var: "fs_vars s v = Some x \<Longrightarrow> pointers (fs_vars s) v = pointer x \<and> owners (fs_vars s) v = owning x"
  "fs_vars s v = None \<Longrightarrow> pointers (fs_vars s) v = None \<and> owners (fs_vars s) v = None"
  by (simp_all add: pointers_def owners_def)

definition state_ok :: "(nat \<Rightarrow> nat option) \<Rightarrow> (nat \<Rightarrow> nat option) \<Rightarrow> nat \<Rightarrow> ('a, 'e) shared_state \<Rightarrow> bool" where
  "state_ok ptr own a s \<longleftrightarrow>
     use_count s = card {v. ptr v = Some a} \<and> use_count s \<noteq> 0 \<and>
     (ss_ready s \<longrightarrow> ss_value s \<noteq> None \<or> ss_except s \<noteq> None) \<and> (\<not> ss_ready s \<longrightarrow> (\<exists>v. own v = Some a))"

definition store_ok :: "('a, 'e) store \<Rightarrow> (nat \<Rightarrow> nat option) \<Rightarrow> (nat \<Rightarrow> nat option) \<Rightarrow> bool" where
  "store_ok h ptr own \<longleftrightarrow>
     finite {v. ptr v \<noteq> None} \<and> (\<forall>v. own v \<noteq> None \<longrightarrow> own v = ptr v) \<and>
     (\<forall>v w a. own v = Some a \<longrightarrow> own w = Some a \<longrightarrow> v = w) \<and>
     (\<forall>a. h a = None \<longrightarrow> (\<forall>v. ptr v \<noteq> Some a)) \<and>
     (\<forall>a s. h a = Some s \<longrightarrow> state_ok ptr own a s)"

lemma store_okD:
  assumes "store_ok h ptr own"
  shows "finite {v. ptr v \<noteq> None}" "own v \<noteq> None \<Longrightarrow> own v = ptr v"
    "own v = Some a \<Longrightarrow> own w = Some a \<Longrightarrow> v = w" "ptr v = Some a \<Longrightarrow> h a \<noteq> None" "h a = Some s \<Longrightarrow> state_ok ptr own a s"
  using assms unfolding store_ok_def by blast+

lemma store_okI:
  assumes "finite {v. ptr v \<noteq> None}" "\<And>v. own v \<noteq> None \<Longrightarrow> own v = ptr v"
    "\<And>v w a. own v = Some a \<Longrightarrow> own w = Some a \<Longrightarrow> v = w" "\<And>v a. ptr v = Some a \<Longrightarrow> h a \<noteq> None"
    "\<And>a s. h a = Some s \<Longrightarrow> state_ok ptr own a s"
  shows "store_ok h ptr own"
  using assms unfolding store_ok_def by blast

lemma unowned: "store_ok h ptr own \<Longrightarrow> ptr v = None \<Longrightarrow> own v = None"
  using store_okD(2) by metis

lemma finite_ptr: "finite {v. ptr v \<noteq> None} \<Longrightarrow> finite {v. ptr v = Some a}"
  by (rule finite_subset[rotated]) auto

lemma card_upd:
  assumes "finite {v. ptr v \<noteq> None}"
  shows "card {w. (ptr(v := p)) w = Some a} =
    card {w. ptr w = Some a} - (if ptr v = Some a then 1 else 0) + (if p = Some a then 1 else 0)"
proof -
  have fin: "finite {w. ptr w = Some a}" using assms by (rule finite_ptr)
  have "{w. (ptr(v := p)) w = Some a} = (if p = Some a then insert v else id) ({w. ptr w = Some a} - {v})" by auto
  moreover have "ptr v = Some a \<Longrightarrow> 0 < card {w. ptr w = Some a}" using fin by (auto simp: card_gt_0_iff)
  ultimately show ?thesis using fin by (cases "ptr v = Some a"; cases "p = Some a") (simp_all add: card_insert_if)
qed

lemma finite_upd: "finite {v. ptr v \<noteq> None} \<Longrightarrow> finite {w. (ptr(v := p)) w \<noteq> None}"
  by (rule finite_subset[of _ "insert v {v. ptr v \<noteq> None}"]) auto


lemma store_ok_state:
  assumes "store_ok h ptr own" "h a = Some s" "use_count s' = use_count s"
    "ss_ready s' \<Longrightarrow> ss_value s' \<noteq> None \<or> ss_except s' \<noteq> None" "\<not> ss_ready s' \<Longrightarrow> \<exists>v. own v = Some a"
  shows "store_ok (h(a \<mapsto> s')) ptr own"
proof -
  have "state_ok ptr own a s'" using store_okD(5)[OF assms(1,2)] assms(3-5) by (simp add: state_ok_def)
  then show ?thesis using assms(1) unfolding store_ok_def by simp
qed

lemma state_ok_other:
  assumes "finite {v. ptr v \<noteq> None}" "state_ok ptr own b s" "ptr v \<noteq> Some b" "p \<noteq> Some b" "own v \<noteq> Some b"
  shows "state_ok (ptr(v := p)) (own(v := q)) b s"
  using assms(2-5) card_upd[OF assms(1), of v p b] unfolding state_ok_def by fastforce

lemma store_ok_drop:
  assumes "store_ok h ptr own" "ptr v = p" "own v = None \<or> (\<forall>a s. p = Some a \<longrightarrow> h a = Some s \<longrightarrow> ss_ready s)"
  shows "\<exists>h'. ptr_drop p h = Some h' \<and> store_ok h' (ptr(v := None)) (own(v := None))"
proof (cases p)
  case None
  then have "ptr(v := None) = ptr" "own(v := None) = own" using assms(2) unowned[OF assms(1)] by auto
  then show ?thesis using None assms(1) by (simp add: ptr_drop_def)
next
  case (Some a)
  note fin = store_okD(1)[OF assms(1)]
  obtain s where s: "h a = Some s" using store_okD(4)[OF assms(1)] assms(2) Some by blast
  have ok: "state_ok ptr own a s" using store_okD(5)[OF assms(1) s] .
  let ?s = "s\<lparr>use_count := use_count s - 1\<rparr>"
  let ?h = "if use_count ?s = 0 then h(a := None) else h(a \<mapsto> ?s)"
  have card: "card {w. (ptr(v := None)) w = Some a} = use_count ?s"
    using card_upd[OF fin, of v None a] ok assms(2) Some by (simp add: state_ok_def)
  have drop: "ptr_drop p h = Some ?h" using Some s by (simp add: ptr_drop_def intrusive_ptr_release_def Let_def)
  have free: "(ptr(v := None)) w \<noteq> Some b" if "?h b = None" for w b
  proof (cases "b = a")
    case True
    then have "card {w. (ptr(v := None)) w = Some a} = 0" using that card by (auto split: if_splits)
    then have "{w. (ptr(v := None)) w = Some a} = {}" using finite_ptr[OF finite_upd[OF fin]] by (metis card_0_eq)
    then show ?thesis using True by blast
  next
    case False
    then show ?thesis using that store_okD(4)[OF assms(1), of w b] by (auto split: if_splits)
  qed
  have kept: "state_ok (ptr(v := None)) (own(v := None)) b t" if "?h b = Some t" for b t
  proof (cases "b = a")
    case True
    then have t: "t = ?s" "use_count ?s \<noteq> 0" using that by (auto split: if_splits)
    have "\<exists>w. (own(v := None)) w = Some a" if nr: "\<not> ss_ready s"
    proof -
      obtain w where w: "own w = Some a" using ok nr by (auto simp: state_ok_def)
      have "own v = None" using assms(3) nr Some s by blast
      then show ?thesis using w by (intro exI[of _ w]) auto
    qed
    then show ?thesis using ok card t True by (simp add: state_ok_def)
  next
    case False
    then have hb: "h b = Some t" using that by (auto split: if_splits)
    have "own v \<noteq> Some b" using store_okD(2)[OF assms(1), of v] assms(2) Some False by auto
    then show ?thesis using state_ok_other[OF fin store_okD(5)[OF assms(1) hb]] assms(2) Some False by simp
  qed
  have "store_ok ?h (ptr(v := None)) (own(v := None))"
    using finite_upd[OF fin] store_okD(2,3)[OF assms(1)] free kept unfolding store_ok_def by auto
  then show ?thesis using drop by blast
qed

lemma store_ok_copy:
  assumes "store_ok h ptr own" "ptr v = p" "ptr w = None"
  shows "\<exists>h'. ptr_copy p h = Some h' \<and> store_ok h' (ptr(w := p)) own"
proof (cases p)
  case None
  then have "ptr(w := p) = ptr" using assms(3) by auto
  then show ?thesis using None assms(1) by (simp add: ptr_copy_def)
next
  case (Some a)
  note fin = store_okD(1)[OF assms(1)]
  obtain s where s: "h a = Some s" using store_okD(4)[OF assms(1)] assms(2) Some by blast
  let ?s = "s\<lparr>use_count := use_count s + 1\<rparr>"
  have w: "own w = None" using unowned[OF assms(1,3)] .
  have copy: "ptr_copy p h = Some (h(a \<mapsto> ?s))" using Some s by (simp add: ptr_copy_def intrusive_ptr_add_ref_def)
  have a: "state_ok (ptr(w := p)) own a ?s"
    using store_okD(5)[OF assms(1) s] card_upd[OF fin, of w p a] assms(3) Some by (simp add: state_ok_def)
  have b: "state_ok (ptr(w := p)) own b t" if "h b = Some t" "b \<noteq> a" for b t
    using state_ok_other[OF fin store_okD(5)[OF assms(1) that(1)], of w p "own w"] that(2) assms(3) Some w by (simp add: fun_upd_idem)
  have "store_ok (h(a \<mapsto> ?s)) (ptr(w := p)) own"
  proof (rule store_okI)
    show "own u = (ptr(w := p)) u" if "own u \<noteq> None" for u using store_okD(2)[OF assms(1) that] w that by auto
    show "(h(a \<mapsto> ?s)) b \<noteq> None" if "(ptr(w := p)) u = Some b" for u b
      using store_okD(4)[OF assms(1), of u b] that Some by (auto split: if_splits)
    show "state_ok (ptr(w := p)) own b t" if "(h(a \<mapsto> ?s)) b = Some t" for b t
      using a b[of b t] that by (auto split: if_splits)
  qed (use finite_upd[OF fin] store_okD(3)[OF assms(1)] in blast)+
  then show ?thesis using copy by blast
qed

lemma store_ok_move:
  assumes "store_ok h ptr own" "v \<noteq> w" "ptr w = None"
  shows "store_ok h (ptr(v := None, w := ptr v)) (own(v := None, w := own v))"
proof -
  note fin = store_okD(1)[OF assms(1)]
  have w: "own w = None" using unowned[OF assms(1,3)] .
  have "card {u. (ptr(v := None, w := ptr v)) u = Some a} = card {u. ptr u = Some a}" for a
  proof (cases "ptr v = Some a")
    case True
    then have "card {u. ptr u = Some a} \<noteq> 0" using finite_ptr[OF fin] by auto
    then show ?thesis
      using card_upd[OF finite_upd[OF fin, of v None], of w "ptr v" a] card_upd[OF fin, of v None a] True assms(2,3)
      by (simp add: fun_upd_other del: fun_upd_apply)
  next
    case False
    then show ?thesis
      using card_upd[OF finite_upd[OF fin, of v None], of w "ptr v" a] card_upd[OF fin, of v None a] assms(2,3)
      by (simp add: fun_upd_other del: fun_upd_apply)
  qed
  moreover have "\<exists>u. (own(v := None, w := own v)) u = Some a" if "own u = Some a" for u a
    using that w assms(2) by (intro exI[of _ "if u = v then w else u"]) auto
  ultimately have "state_ok (ptr(v := None, w := ptr v)) (own(v := None, w := own v)) a s" if "h a = Some s" for a s
    using store_okD(5)[OF assms(1) that] unfolding state_ok_def by metis
  moreover have "finite {u. (ptr(v := None, w := ptr v)) u \<noteq> None}" using finite_upd[OF finite_upd[OF fin]] .
  ultimately show ?thesis
  proof (intro store_okI)
    let ?own = "own(v := None, w := own v)" and ?ptr = "ptr(v := None, w := ptr v)"
    show "?own u = ?ptr u" if "?own u \<noteq> None" for u using store_okD(2)[OF assms(1)] that by (auto split: if_splits)
    show "u = u'" if "?own u = Some a" "?own u' = Some a" for u u' a
      using store_okD(3)[OF assms(1), of "if u = w then v else u" a "if u' = w then v else u'"] that w
      by (auto split: if_splits)
    show "h a \<noteq> None" if "?ptr u = Some a" for u a
      using store_okD(4)[OF assms(1), of "if u = w then v else u" a] that by (auto split: if_splits)
  qed blast+
qed

lemma store_ok_new:
  assumes "store_ok h ptr own" "h a = None" "ptr v = None"
  shows "store_ok (h(a \<mapsto> shared_state_new\<lparr>use_count := 1\<rparr>)) (ptr(v := Some a)) (own(v := Some a))"
proof -
  note fin = store_okD(1)[OF assms(1)]
  have none: "{w. ptr w = Some a} = {}" using store_okD(4)[OF assms(1), of _ a] assms(2) by blast
  have v: "own v = None" using unowned[OF assms(1,3)] .
  have "state_ok (ptr(v := Some a)) (own(v := Some a)) a (shared_state_new\<lparr>use_count := 1\<rparr>)"
    using card_upd[OF fin, of v "Some a" a] none assms(3) by (auto simp: state_ok_def shared_state_new_def)
  moreover have "state_ok (ptr(v := Some a)) (own(v := Some a)) b t" if "h b = Some t" for b t
    using state_ok_other[OF fin store_okD(5)[OF assms(1) that], of v "Some a" "Some a"] that v assms(2,3) by (cases "a = b") auto
  moreover have "own w \<noteq> Some a" for w using store_okD(2)[OF assms(1), of w] none by auto
  ultimately show ?thesis
  proof (intro store_okI)
    show "(own(v := Some a)) u = (ptr(v := Some a)) u" if "(own(v := Some a)) u \<noteq> None" for u
      using store_okD(2)[OF assms(1), of u] that by (auto split: if_splits)
    show "u = u'" if "(own(v := Some a)) u = Some b" "(own(v := Some a)) u' = Some b" for u u' b
      using store_okD(3)[OF assms(1), of u b u'] that \<open>\<And>w. own w \<noteq> Some a\<close> by (auto split: if_splits)
    show "(h(a \<mapsto> shared_state_new\<lparr>use_count := 1\<rparr>)) b \<noteq> None" if "(ptr(v := Some a)) u = Some b" for u b
      using store_okD(4)[OF assms(1), of u b] that by (auto split: if_splits)
    show "finite {u. (ptr(v := Some a)) u \<noteq> None}" using finite_upd[OF fin] .
  qed (auto split: if_splits)
qed

lemma owner_destroyed_simps [simp]:
  "use_count (owner_destroyed s) = use_count s" "ss_ready (owner_destroyed s)"
  "ss_ready s \<Longrightarrow> owner_destroyed s = s" "\<not> ss_ready s \<Longrightarrow> ss_except (owner_destroyed s) = Some broken_promise"
  by (simp_all add: owner_destroyed_def ss_set_exception_def mark_ready_and_notify_def)

lemma store_ok_owner_drop:
  assumes "store_ok h ptr own" "ptr v = p"
  shows "\<exists>h'. owner_drop p h = Some h' \<and> store_ok h' (ptr(v := None)) (own(v := None))"
proof (cases p)
  case None
  then show ?thesis using store_ok_drop[OF assms] by (simp add: owner_drop_def ptr_drop_def)
next
  case (Some a)
  obtain s where s: "h a = Some s" using store_okD(4)[OF assms(1)] assms(2) Some by blast
  have "ss_value (owner_destroyed s) \<noteq> None \<or> ss_except (owner_destroyed s) \<noteq> None"
    using store_okD(5)[OF assms(1) s] by (cases "ss_ready s") (simp_all add: state_ok_def)
  then have "store_ok (h(a \<mapsto> owner_destroyed s)) ptr own" using store_ok_state[OF assms(1) s, of "owner_destroyed s"] by simp
  from store_ok_drop[OF this assms(2)] show ?thesis using Some s by (simp add: owner_drop_def)
qed

definition settles :: "(('a, 'e) shared_state \<Rightarrow> 'e future_error + ('a, 'e) shared_state) \<Rightarrow> bool" where
  "settles f \<longleftrightarrow>
     (\<forall>s s'. f s = Inr s' \<longrightarrow> \<not> ss_ready s \<and> use_count s' = use_count s \<and> ss_ready s' \<and> (ss_value s' \<noteq> None \<or> ss_except s' \<noteq> None))"

lemma settles [simp]: "settles (ss_set_value x)" "settles (ss_set_exception e)" "settles (task_run r)"
  by (auto simp: settles_def ss_set_value_def ss_set_exception_def task_run_def mark_ready_and_notify_def
      split: if_splits sum.splits)

lemma store_ok_on_state:
  assumes "store_ok h ptr own" "ptr v = Some a" "on_state f a h = Some (e, h')" "settles f"
  shows "store_ok h' ptr own"
proof -
  obtain s where s: "h a = Some s" using store_okD(4)[OF assms(1,2)] by blast
  show ?thesis
  proof (cases "f s")
    case (Inl e)
    then show ?thesis using assms(1,3) s by (simp add: on_state_def)
  next
    case (Inr s')
    then show ?thesis
      using store_ok_state[OF assms(1) s, of s'] assms(3,4) s by (auto simp: on_state_def settles_def)
  qed
qed

text \<open>What the operations on the variables do to the pointers.\<close>

lemma store_ok_assign:
  assumes "store_ok h ptr own" "v \<noteq> w" "owner_drop (ptr v) h = Some h'"
  shows "store_ok h' (ptr(v := ptr w, w := None)) (own(v := own w, w := None))"
proof -
  have d: "store_ok h' (ptr(v := None)) (own(v := None))" using store_ok_owner_drop[OF assms(1) refl, of v] assms(3) by simp
  show ?thesis using store_ok_move[OF d, of w v] assms(2) by (simp add: fun_upd_twist)
qed

lemma store_ok_assign_plain:
  assumes "store_ok h ptr own" "v \<noteq> w" "own v = None" "own w = None" "ptr_drop (ptr v) h = Some h'"
  shows "store_ok h' (ptr(v := ptr w, w := None)) own"
proof -
  have d: "store_ok h' (ptr(v := None)) (own(v := None))" using store_ok_drop[OF assms(1) refl, of v] assms(3,5) by simp
  show ?thesis using store_ok_move[OF d, of w v] assms(2-4) by (simp add: fun_upd_twist fun_upd_idem)
qed

lemma store_ok_replace:
  assumes "store_ok h ptr own" "own v = None" "ptr w = g" "ptr_copy g h = Some h1" "ptr_drop (ptr v) h1 = Some h2"
  shows "store_ok h2 (ptr(v := g)) own"
proof -
  have "finite (insert v {u. ptr u \<noteq> None})" using store_okD(1)[OF assms(1)] by simp
  then obtain u where u: "u \<notin> insert v {u. ptr u \<noteq> None}" using ex_new_if_finite[OF infinite_UNIV_nat] by blast
  have none: "own u = None" using unowned[OF assms(1)] u by simp
  have c: "store_ok h1 (ptr(u := g)) own" using store_ok_copy[OF assms(1,3), of u] u assms(4) by simp
  have d: "store_ok h2 (ptr(u := g, v := None)) own"
    using store_ok_drop[OF c, of v "ptr v"] u assms(2,5) by (simp add: fun_upd_idem)
  have "ptr(u := g, v := None, u := None, v := g) = ptr(v := g)" using u by (auto simp: fun_eq_iff)
  moreover have "own(u := None, v := own u) = own" using none assms(2) by (auto simp: fun_eq_iff)
  ultimately show ?thesis using store_ok_move[OF d, of u v] u by simp
qed

abbreviation future_ok :: "('a, 'e) future_system \<Rightarrow> bool" where
  "future_ok s \<equiv> store_ok (fs_store s) (pointers (fs_vars s)) (owners (fs_vars s))"

lemmas handle_simps = pointer_def owning_def promise_new_def promise_destroy_def promise_null_def promise_swap_def promise_move_def
  promise_move_assign_def packaged_task_new_def packaged_task_null_def packaged_task_destroy_def packaged_task_swap_def
  packaged_task_move_def packaged_task_move_assign_def

lemma store_ok_obtain:
  assumes "store_ok h ptr own" "ptr v = p" "ptr w = None" "v \<noteq> w" "own v = p" "ptr_copy p h = Some h'"
  shows "store_ok h' (ptr(v := p, w := p)) (own(v := p, w := None))"
proof -
  have "own w = None" using unowned[OF assms(1,3)] .
  then have "ptr(v := p, w := p) = ptr(w := p)" "own(v := p, w := None) = own" using assms(2,4,5) by (auto simp: fun_eq_iff)
  then show ?thesis using store_ok_copy[OF assms(1-3)] assms(6) by simp
qed

lemma async_eq:
  "async a h = Some ((\<lparr>pt_obtained = True, pt_task = Some a\<rparr>, Some a), h(a \<mapsto> shared_state_new\<lparr>use_count := Suc 1\<rparr>))"
  by (simp add: async_def handle_simps packaged_task_get_future_def owner_drop_def ptr_copy_def intrusive_ptr_add_ref_def)

lemma future_ok_step: "future_step s s' \<Longrightarrow> future_ok s \<Longrightarrow> future_ok s'"
proof (induction rule: future_step.induct)
  case (make_promise s v a p h)
  then show ?case using store_ok_new[OF make_promise(4,2), of v] at_var(2)[OF make_promise(1)]
    by (auto simp: handle_simps simp del: fun_upd_apply)
next
  case (end_promise s v p h)
  then show ?case using store_ok_owner_drop[OF end_promise(3), of v] at_var(1)[OF end_promise(1)]
    by (auto simp: handle_simps simp del: fun_upd_apply)
next
  case (assign_promise s v p w q p' q' h)
  then show ?case
    using store_ok_assign[OF assign_promise(5,3)] at_var(1)[OF assign_promise(1)] at_var(1)[OF assign_promise(2)]
    by (auto simp: handle_simps simp del: fun_upd_apply)
next
  case (obtain_promise s v p w p' f h)
  then have "v \<noteq> w" by auto
  then show ?case using store_ok_obtain[OF obtain_promise(4), of v "pr_future p" w h] at_var(1)[OF obtain_promise(1)] at_var(2)[OF obtain_promise(2)] obtain_promise(3)
    by (auto simp: handle_simps promise_get_future_def split: if_splits simp del: fun_upd_apply)
next
  case (keep_value s v p x e h)
  then show ?case using store_ok_on_state[OF keep_value(3), of v _ "ss_set_value x" e h] at_var(1)[OF keep_value(1)]
    by (auto simp: handle_simps promise_set_value_def split: option.splits)
next
  case (keep_exception s v p x e h)
  then show ?case using store_ok_on_state[OF keep_exception(3), of v _ "ss_set_exception (Thrown x)" e h] at_var(1)[OF keep_exception(1)]
    by (auto simp: handle_simps promise_set_exception_def split: option.splits)
next
  case (make_task s v a t h)
  then show ?case using store_ok_new[OF make_task(4,2), of v] at_var(2)[OF make_task(1)]
    by (auto simp: handle_simps simp del: fun_upd_apply)
next
  case (end_task s v t h)
  then show ?case using store_ok_owner_drop[OF end_task(3), of v] at_var(1)[OF end_task(1)]
    by (auto simp: handle_simps simp del: fun_upd_apply)
next
  case (assign_task s v t w u t' u' h)
  then show ?case
    using store_ok_assign[OF assign_task(5,3)] at_var(1)[OF assign_task(1)] at_var(1)[OF assign_task(2)]
    by (auto simp: handle_simps simp del: fun_upd_apply)
next
  case (obtain_task s v t w t' f h)
  then have "v \<noteq> w" by auto
  then show ?case using store_ok_obtain[OF obtain_task(4), of v "pt_task t" w h] at_var(1)[OF obtain_task(1)] at_var(2)[OF obtain_task(2)] obtain_task(3)
    by (auto simp: handle_simps packaged_task_get_future_def split: if_splits simp del: fun_upd_apply)
next
  case (call_task s v t r e h)
  then show ?case using store_ok_on_state[OF call_task(3), of v _ "task_run r" e h] at_var(1)[OF call_task(1)]
    by (auto simp: handle_simps packaged_task_call_def split: option.splits)
next
  case (reset_task s v t t' h)
  then obtain a st where "pt_task t = Some a" "fs_store s a = Some st" "t' = t\<lparr>pt_obtained := False\<rparr>" "h = (fs_store s)(a \<mapsto> ss_reset st)"
    by (auto simp: packaged_task_reset_def split: option.splits)
  then show ?case
    using store_ok_state[OF reset_task(3), of a st "ss_reset st"] at_var(1)[OF reset_task(1)]
    by (auto simp: handle_simps ss_reset_def fun_upd_idem simp del: fun_upd_apply)
next
  case (start_async s v w a t f h)
  let ?t = "\<lparr>pt_obtained = False, pt_task = Some a\<rparr>" and ?h = "(fs_store s)(a \<mapsto> shared_state_new\<lparr>use_count := 1\<rparr>)"
  have new: "store_ok ?h ((pointers (fs_vars s))(v \<mapsto> a)) ((owners (fs_vars s))(v \<mapsto> a))"
    using store_ok_new[OF start_async(6,4), of v] at_var(2)[OF start_async(1)] by simp
  have "t = \<lparr>pt_obtained = True, pt_task = Some a\<rparr> \<and> f = Some a \<and> ptr_copy (Some a) ?h = Some h"
    using start_async(5) by (auto simp: async_eq ptr_copy_def intrusive_ptr_add_ref_def)
  then show ?case
    using store_ok_obtain[OF new, of v "Some a" w h] at_var(2)[OF start_async(2)] start_async(3)
    by (simp add: handle_simps fun_upd_other fun_upd_same del: fun_upd_apply)
next
  case (end_future s v f h)
  then show ?case using store_ok_drop[OF end_future(3), of v] at_var(1)[OF end_future(1)]
    by (auto simp: handle_simps simp del: fun_upd_apply)
next
  case (assign_future s v f w g f' g' h)
  then show ?case
    using store_ok_assign_plain[OF assign_future(5,3)] at_var(1)[OF assign_future(1)] at_var(1)[OF assign_future(2)]
    by (auto simp: handle_simps future_move_assign_def fun_upd_idem simp del: fun_upd_apply)
next
  case (begin_get s v f w f' tmp)
  then have "v \<noteq> w" by auto
  then show ?case
    using store_ok_move[OF begin_get(4), of v w] at_var(1)[OF begin_get(1)] at_var(2)[OF begin_get(2)] begin_get(3)
    by (auto simp: handle_simps future_get_def split: if_splits simp del: fun_upd_apply)
next
  case (finish_get s v tmp r h)
  then show ?case using store_ok_drop[OF finish_get(3), of v] at_var(1)[OF finish_get(1)]
    by (auto simp: handle_simps future_get_finish_def split: option.splits attempt.splits simp del: fun_upd_apply)
next
  case (share s v f w f' g)
  then have "v \<noteq> w" by auto
  then show ?case
    using store_ok_move[OF share(4), of v w] at_var(1)[OF share(1)] at_var(2)[OF share(2)] share(3)
    by (auto simp: handle_simps future_share_def split: if_splits simp del: fun_upd_apply)
next
  case (copy_shared s v f w g h)
  then show ?case
    using store_ok_copy[OF copy_shared(4), of v f w] at_var(1)[OF copy_shared(1)] at_var(2)[OF copy_shared(2)]
    by (auto simp: handle_simps shared_future_copy_def fun_upd_idem simp del: fun_upd_apply)
next
  case (assign_shared s v f w g f' h)
  then obtain h1 where "ptr_copy g (fs_store s) = Some h1" "ptr_drop f h1 = Some h" "f' = g"
    by (auto simp: shared_future_assign_def shared_future_copy_def split: option.splits)
  then show ?case
    using store_ok_replace[OF assign_shared(4), of v w g h1 h] at_var(1)[OF assign_shared(1)] at_var(1)[OF assign_shared(2)]
    by (auto simp: handle_simps fun_upd_idem simp del: fun_upd_apply)
next
  case (end_shared s v f h)
  then show ?case using store_ok_drop[OF end_shared(3), of v] at_var(1)[OF end_shared(1)]
    by (auto simp: handle_simps simp del: fun_upd_apply)
qed

lemma future_ok_start: "future_ok future_start"
  by (simp add: future_start_def store_ok_def pointers_def owners_def)

lemma future_ok_reachable: "future_run future_start s \<Longrightarrow> future_ok s"
  by (induction rule: rtranclp_induct) (simp_all add: future_ok_start future_ok_step)

section \<open>Results\<close>

text \<open>The three ways to store a result: they are refused once there is one.\<close>

locale settling =
  fixes target :: "'o \<Rightarrow> nat option"
    and settle :: "'o \<Rightarrow> 'x \<Rightarrow> ('a, 'e) store \<Rightarrow> ('e future_error option \<times> ('a, 'e) store) option"
  assumes refused: "target p = Some a \<Longrightarrow> h a = Some s \<Longrightarrow> ss_ready s \<Longrightarrow>
      settle p x h = Some (Some promise_already_satisfied, h)"
    and settled: "target p = Some a \<Longrightarrow> h a = Some s \<Longrightarrow> \<not> ss_ready s \<Longrightarrow>
      \<exists>s'. settle p x h = Some (None, h(a \<mapsto> s')) \<and> ss_ready s'"
begin

lemma settled_ready:
  assumes "target p = Some a" "h a = Some s" "settle p x h = Some (None, h')"
  shows "\<not> ss_ready s \<and> (\<exists>s'. h' = h(a \<mapsto> s') \<and> ss_ready s')"
proof -
  have "\<not> ss_ready s" using refused[of p a h s x] assms by auto
  then show ?thesis using settled[of p a h s x] assms by auto
qed

lemma settled_once:
  assumes "target p = Some a" "h a = Some s" "settle p x h = Some (None, h')"
  shows "settle p y h' = Some (Some promise_already_satisfied, h')"
  using settled_ready[OF assms] refused[of p a h' _ y] assms(1) by auto

end

lemmas set_simps = on_state_def ss_set_value_def ss_set_exception_def task_run_def mark_ready_and_notify_def

interpretation pv: settling pr_future promise_set_value
  by unfold_locales (auto simp: promise_set_value_def set_simps)

interpretation pe: settling pr_future promise_set_exception
  by unfold_locales (auto simp: promise_set_exception_def set_simps)

interpretation tc: settling pt_task packaged_task_call
  by unfold_locales (auto simp: packaged_task_call_def set_simps split: sum.splits)

text \<open>A result changes only through \<open>reset\<close>.\<close>

definition result :: "('a, 'e) shared_state \<Rightarrow> 'a option \<times> 'e future_error option" where
  "result s = (ss_value s, ss_except s)"

definition keeps_results :: "('a, 'e) store \<Rightarrow> ('a, 'e) store \<Rightarrow> bool" where
  "keeps_results h h' \<longleftrightarrow>
     (\<forall>a s s'. h a = Some s \<longrightarrow> h' a = Some s' \<longrightarrow> ss_ready s \<longrightarrow> ss_ready s' \<longrightarrow> result s' = result s)"

lemma keeps_results_refl [simp]: "keeps_results h h"
  by (simp add: keeps_results_def)

lemma keeps_results_new [simp]: "h a = None \<Longrightarrow> keeps_results h (h(a \<mapsto> s))"
  by (simp add: keeps_results_def)

lemma keeps_results_drop: "ptr_drop p h = Some h' \<Longrightarrow> keeps_results h h'"
  by (auto simp: keeps_results_def ptr_drop_def intrusive_ptr_release_def Let_def result_def split: option.splits if_splits)

lemma keeps_results_copy: "ptr_copy p h = Some h' \<Longrightarrow> keeps_results h h'"
  by (auto simp: keeps_results_def ptr_copy_def intrusive_ptr_add_ref_def result_def split: option.splits if_splits)

lemma keeps_results_ready:
  assumes "keeps_results h1 h'" "h a = Some s" "ss_ready s \<Longrightarrow> t = s" "h1 = h(a \<mapsto> t)"
  shows "keeps_results h h'"
  using assms unfolding keeps_results_def by (metis fun_upd_other fun_upd_same option.inject)

lemma keeps_results_owner_drop: "owner_drop p h = Some h' \<Longrightarrow> keeps_results h h'"
proof (cases p)
  case (Some a)
  assume "owner_drop p h = Some h'"
  then obtain s where "h a = Some s" "ptr_drop p (h(a \<mapsto> owner_destroyed s)) = Some h'"
    using Some by (auto simp: owner_drop_def split: option.splits)
  then show ?thesis using keeps_results_ready[of _ h' h a s "owner_destroyed s"] keeps_results_drop by (metis owner_destroyed_simps(3))
qed (simp add: owner_drop_def)

lemma keeps_results_on_state: "on_state f a h = Some (e, h') \<Longrightarrow> settles f \<Longrightarrow> keeps_results h h'"
  by (auto simp: on_state_def keeps_results_def settles_def split: option.splits sum.splits if_splits)

lemma keeps_results_trans:
  assumes "keeps_results h1 h2" "keeps_results h2 h3" "\<And>a s s'. h1 a = Some s \<Longrightarrow> h3 a = Some s' \<Longrightarrow> ss_ready s \<Longrightarrow> \<exists>t. h2 a = Some t \<and> ss_ready t"
  shows "keeps_results h1 h3"
  using assms unfolding keeps_results_def by metis

lemma ptr_copy_ready: "ptr_copy p h = Some h' \<Longrightarrow> h a = Some s \<Longrightarrow> ss_ready s \<Longrightarrow> \<exists>t. h' a = Some t \<and> ss_ready t"
  by (auto simp: ptr_copy_def intrusive_ptr_add_ref_def split: option.splits)

lemma step_keeps_results: "future_step s s' \<Longrightarrow> keeps_results (fs_store s) (fs_store s')"
proof (induction rule: future_step.induct)
  case (assign_shared s v f w g f' h)
  then obtain h1 where h: "ptr_copy g (fs_store s) = Some h1" "ptr_drop f h1 = Some h"
    by (auto simp: shared_future_assign_def shared_future_copy_def split: option.splits)
  show ?case using keeps_results_trans[OF keeps_results_copy[OF h(1)] keeps_results_drop[OF h(2)] ptr_copy_ready[OF h(1)]] by simp
next
  case (start_async s v w a t f h)
  then show ?case by (auto simp: async_eq simp del: fun_upd_apply)
next
  case (reset_task s v t t' h)
  then show ?case
    by (auto simp: keeps_results_def packaged_task_reset_def ss_reset_def split: option.splits if_splits)
next
  case (finish_get s v tmp r h)
  then show ?case
    by (auto simp: future_get_finish_def split: option.splits attempt.splits dest: keeps_results_drop)
qed (auto simp: handle_simps promise_get_future_def packaged_task_get_future_def promise_set_value_def promise_set_exception_def
    packaged_task_call_def future_move_assign_def shared_future_copy_def split: if_splits option.splits
    dest: keeps_results_drop keeps_results_copy keeps_results_owner_drop intro: keeps_results_on_state settles simp del: fun_upd_apply)


section \<open>Properties\<close>

text \<open>The reference counts are exact in every program: a shared state is there as long as some promise, task, future or
  call in progress points to it, with their number as its count, and is freed with the last; so no
  operation touches a state that was freed.\<close>

theorem futures_memory_safe:
  assumes "future_run future_start s"
  shows "(fs_store s a = None \<longleftrightarrow> {v. pointers (fs_vars s) v = Some a} = {}) \<and>
    (\<forall>st. fs_store s a = Some st \<longrightarrow> use_count st = card {v. pointers (fs_vars s) v = Some a}) \<and>
    (\<forall>v x. fs_vars s v = Some x \<longrightarrow> ptr_drop (pointer x) (fs_store s) \<noteq> None \<and> ptr_copy (pointer x) (fs_store s) \<noteq> None \<and>
      owner_drop (pointer x) (fs_store s) \<noteq> None)"
proof -
  have ok: "future_ok s" using assms by (rule future_ok_reachable)
  have "ptr_drop (pointer x) (fs_store s) \<noteq> None \<and> ptr_copy (pointer x) (fs_store s) \<noteq> None \<and>
      owner_drop (pointer x) (fs_store s) \<noteq> None" if "fs_vars s v = Some x" for v x
    using store_okD(4)[OF ok, of v] at_var(1)[OF that]
    by (auto simp: ptr_drop_def ptr_copy_def owner_drop_def intrusive_ptr_add_ref_def intrusive_ptr_release_def Let_def
        split: option.splits)
  moreover have "{v. pointers (fs_vars s) v = Some a} \<noteq> {}" if "fs_store s a = Some st" for st
    using store_okD(5)[OF ok that] unfolding state_ok_def by (metis card.empty)
  ultimately show ?thesis
    using store_okD(4,5)[OF ok] by (fastforce simp: state_ok_def)
qed

definition wit_async :: "(nat, nat) future_system" where
  "wit_async = \<lparr>fs_store = [7 \<mapsto> shared_state_new\<lparr>use_count := Suc 1\<rparr>],
     fs_vars = [0 \<mapsto> Task \<lparr>pt_obtained = True, pt_task = Some 7\<rparr>, 1 \<mapsto> Future (Some 7)]\<rparr>"

lemma wit_async_run: "future_run future_start wit_async"
  using future_step.start_async[of future_start 0 1 7]
  by (intro r_into_rtranclp) (simp add: future_start_def wit_async_def async_eq)

theorem futures_memory_safe_witness:
  "future_run future_start wit_async \<and> card {v. pointers (fs_vars wit_async) v = Some 7} = 2 \<and>
     fs_store wit_async 8 = None \<and> {v. pointers (fs_vars wit_async) v = Some 8} = {}"
  using wit_async_run futures_memory_safe[OF wit_async_run, of 7] futures_memory_safe[OF wit_async_run, of 8]
  by (simp add: wit_async_def)

text \<open>Nobody waits for a result that cannot come: every state without a result has exactly one promise or task that will
  give it one, and when that is destroyed before, the others at the state get \<open>broken_promise\<close>.\<close>

theorem waiting_has_owner:
  assumes "future_run future_start s" "fs_store s a = Some st" "ss_get st = Waits"
  shows "(\<exists>!v. owners (fs_vars s) v = Some a) \<and>
    (\<forall>h st'. owner_drop (Some a) (fs_store s) = Some h \<and> h a = Some st' \<longrightarrow> ss_get st' = Returns (Some (Inl broken_promise)))"
proof -
  have ok: "future_ok s" using assms(1) by (rule future_ok_reachable)
  have nr: "\<not> ss_ready st" using assms(3) by (auto simp: ss_get_def ss_wait_def)
  have "\<exists>!v. owners (fs_vars s) v = Some a"
    using store_okD(5)[OF ok assms(2)] nr store_okD(3)[OF ok] unfolding state_ok_def by blast
  moreover have "ss_get st' = Returns (Some (Inl broken_promise))"
    if "owner_drop (Some a) (fs_store s) = Some h" "h a = Some st'" for h st'
    using that assms(2) nr
    by (auto simp: owner_drop_def ptr_drop_def intrusive_ptr_release_def Let_def ss_get_def ss_wait_def split: if_splits)
  ultimately show ?thesis by blast
qed

theorem waiting_has_owner_witness:
  "future_run future_start wit_async \<and> (\<exists>!v. owners (fs_vars wit_async) v = Some 7)"
proof -
  have "fs_store wit_async 7 = Some (shared_state_new\<lparr>use_count := Suc 1\<rparr>)" by (simp add: wit_async_def)
  from waiting_has_owner[OF wit_async_run this] show ?thesis
    using wit_async_run by (simp add: ss_get_def ss_wait_def shared_state_new_def)
qed

text \<open>A result is stored once and stays: the promise and the task refuse a second one, and as long as nobody calls
  \<open>reset\<close> each \<open>get\<close> at the state returns the first.\<close>

theorem first_result_stays:
  assumes "future_run future_start s" "future_step s s'" "fs_store s a = Some st" "ss_get st = Returns r"
    "fs_store s' a = Some st'" "ss_get st' = Returns r'"
  shows "r' = r \<and> r \<noteq> None \<and>
    (\<forall>p x. pr_future p = Some a \<longrightarrow> promise_set_value p x (fs_store s) = Some (Some promise_already_satisfied, fs_store s)) \<and>
    (\<forall>t y. pt_task t = Some a \<longrightarrow> packaged_task_call t y (fs_store s) = Some (Some promise_already_satisfied, fs_store s))"
proof -
  have ready: "ss_ready st" "ss_ready st'" using assms(4,6) by (auto simp: ss_get_def ss_wait_def split: if_splits)
  have "result st' = result st"
    using step_keeps_results[OF assms(2)] assms(3,5) ready by (auto simp: keeps_results_def)
  then have "r' = r" using assms(4,6) ready by (simp add: ss_get_def ss_wait_def result_def split: option.splits)
  moreover have "r \<noteq> None"
    using store_okD(5)[OF future_ok_reachable[OF assms(1)] assms(3)] assms(4) ready
    by (auto simp: state_ok_def ss_get_def ss_wait_def split: option.splits)
  ultimately show ?thesis using pv.refused[of _ a "fs_store s"] tc.refused[of _ a "fs_store s"] assms(3) ready by simp
qed

definition wit_done :: "(nat, nat) future_system" where
  "wit_done = wit_async\<lparr>fs_store := [7 \<mapsto> \<lparr>use_count = Suc 1, ss_ready = True, ss_value = Some 5, ss_except = None\<rparr>]\<rparr>"

lemma wit_done_run: "future_run future_start wit_done" "future_step wit_done wit_done"
proof -
  have "future_step wit_async wit_done"
    using future_step.call_task[of wit_async 0 "\<lparr>pt_obtained = True, pt_task = Some 7\<rparr>" "Inr 5" None "fs_store wit_done"]
    by (simp add: wit_async_def wit_done_def packaged_task_call_def set_simps shared_state_new_def)
  then show "future_run future_start wit_done" using wit_async_run by (rule rtranclp.rtrancl_into_rtrancl[rotated])
  show "future_step wit_done wit_done"
    using future_step.call_task[of wit_done 0 "\<lparr>pt_obtained = True, pt_task = Some 7\<rparr>" "Inr 6" "Some promise_already_satisfied" "fs_store wit_done"]
    by (simp add: wit_async_def wit_done_def packaged_task_call_def set_simps)
qed

theorem first_result_stays_witness:
  "future_run future_start wit_done \<and> future_step wit_done wit_done \<and>
     promise_set_value \<lparr>pr_obtained = True, pr_future = Some 7\<rparr> 9 (fs_store wit_done) =
       Some (Some promise_already_satisfied, fs_store wit_done)"
proof -
  obtain st where st: "fs_store wit_done 7 = Some st" "ss_get st = Returns (Some (Inr 5))"
    by (simp add: wit_done_def ss_get_def ss_wait_def)
  show ?thesis
    using wit_done_run first_result_stays[OF wit_done_run st st] by simp
qed

text \<open>\<open>reset\<close> keeps the exception of the last run: a task that threw, was reset and then returned a value still
  throws the old exception at its future.\<close>

theorem reset_keeps_exception:
  assumes "pt_task t = Some a" "h a = Some st" "ss_get st = Waits"
  shows "\<exists>h1 t2 h2 h3. packaged_task_call t (Inl e) h = Some (None, h1) \<and> packaged_task_reset t h1 = Some (Inr t2, h2) \<and>
    packaged_task_call t2 (Inr x) h2 = Some (None, h3) \<and>
    shared_future_get (Some a) h3 = Returns (Some (Inr (Some (Inl (Thrown e)))))"
proof -
  have nr: "\<not> ss_ready st" using assms(3) by (auto simp: ss_get_def ss_wait_def)
  let ?s1 = "mark_ready_and_notify (st\<lparr>ss_except := Some (Thrown e)\<rparr>)"
  let ?s3 = "mark_ready_and_notify ((ss_reset ?s1)\<lparr>ss_value := Some x\<rparr>)"
  have "packaged_task_call t (Inl e) h = Some (None, h(a \<mapsto> ?s1))"
    using assms nr by (simp add: packaged_task_call_def on_state_def task_run_def ss_set_exception_def)
  moreover have "packaged_task_reset t (h(a \<mapsto> ?s1)) = Some (Inr (t\<lparr>pt_obtained := False\<rparr>), h(a \<mapsto> ss_reset ?s1))"
    using assms(1) by (simp add: packaged_task_reset_def)
  moreover have "packaged_task_call (t\<lparr>pt_obtained := False\<rparr>) (Inr x) (h(a \<mapsto> ss_reset ?s1)) = Some (None, h(a \<mapsto> ?s3))"
    using assms(1) by (simp add: packaged_task_call_def on_state_def task_run_def ss_set_value_def ss_reset_def)
  moreover have "shared_future_get (Some a) (h(a \<mapsto> ?s3)) = Returns (Some (Inr (Some (Inl (Thrown e)))))"
    by (simp add: shared_future_get_def with_state_def ss_get_def ss_wait_def mark_ready_and_notify_def ss_reset_def)
  ultimately show ?thesis by blast
qed

theorem reset_keeps_exception_witness:
  "\<exists>h3. shared_future_get (Some 7) h3 = Returns (Some (Inr (Some (Inl (Thrown (3 :: nat)))))) \<and>
     (\<exists>t2 h2. packaged_task_call t2 (Inr (5 :: nat)) h2 = Some (None, h3))"
  using reset_keeps_exception[of "\<lparr>pt_obtained = True, pt_task = Some 7\<rparr>" 7 "fs_store wit_async" "shared_state_new\<lparr>use_count := Suc 1\<rparr>" 3 5]
  by (auto simp: wit_async_def ss_get_def ss_wait_def shared_state_new_def)

end
