(* ===== verification/Fiber_Mutex.thy ===== *)
theory Fiber_Mutex
  imports Fibp_Prelude
begin

text \<open>
  The locks of the fiber library: \<open>mutex.cpp\<close>, \<open>recursive_mutex.cpp\<close>, the timed lock of \<open>timed_mutex.cpp\<close>,
  and \<open>barrier.cpp\<close>.  A fiber is a number.  Each operation runs under the spinlock of its object, so one step of a
  transition system is one pass through an operation up to its return or to the point where the fiber is suspended.
  \<open>unlock\<close> makes the fiber ready that it takes from the queue; from then on this fiber is in \<open>lock\<close> again, about to
  try once more.  Interruption of a suspended fiber is not modelled.
\<close>

section \<open>Mutex\<close>

record mutex =
  mx_locked :: bool
  mx_owner :: "nat option"
  mx_waiting :: "nat list"

definition mutex_new :: mutex where
  "mutex_new = \<lparr>mx_locked = False, mx_owner = None, mx_waiting = []\<rparr>"

definition lock_if_unlocked :: "nat \<Rightarrow> mutex \<Rightarrow> mutex \<times> bool" where
  "lock_if_unlocked f m =
     (if mx_locked m then (m, False) else (m\<lparr>mx_locked := True, mx_owner := Some f\<rparr>, True))"

text \<open>One turn of the loop of \<open>lock\<close>: the fiber has the lock, or it is queued and suspended.\<close>

definition mutex_lock :: "nat \<Rightarrow> mutex \<Rightarrow> mutex \<times> bool" where
  "mutex_lock f m =
     (case lock_if_unlocked f m of
        (m', True) \<Rightarrow> (m', True)
      | (m', False) \<Rightarrow> (m'\<lparr>mx_waiting := mx_waiting m' @ [f]\<rparr>, False))"

definition mutex_try_lock :: "nat \<Rightarrow> mutex \<Rightarrow> mutex \<times> bool" where
  "mutex_try_lock f m = lock_if_unlocked f m"

text \<open>The second component is the fiber made ready.\<close>

definition mutex_unlock :: "mutex \<Rightarrow> mutex \<times> nat option" where
  "mutex_unlock m =
     (let n = (case mx_waiting m of [] \<Rightarrow> None | w # ws \<Rightarrow> Some w)
      in (m\<lparr>mx_waiting := tl (mx_waiting m), mx_owner := None, mx_locked := False\<rparr>, n))"

section \<open>Recursive mutex\<close>

text \<open>The count is a \<open>size_t\<close> that a fiber raises by a nested call of \<open>lock\<close>; it cannot come near its bound.\<close>

record recursive_mutex = mutex +
  rm_count :: nat

definition recursive_mutex_new :: recursive_mutex where
  "recursive_mutex_new = \<lparr>mx_locked = False, mx_owner = None, mx_waiting = [], rm_count = 0\<rparr>"

definition recursive_lock_if_unlocked :: "nat \<Rightarrow> recursive_mutex \<Rightarrow> recursive_mutex \<times> bool" where
  "recursive_lock_if_unlocked f m =
     (if \<not> mx_locked m then (m\<lparr>mx_locked := True, mx_owner := Some f, rm_count := rm_count m + 1\<rparr>, True)
      else if mx_owner m = Some f then (m\<lparr>rm_count := rm_count m + 1\<rparr>, True)
      else (m, False))"

definition recursive_lock :: "nat \<Rightarrow> recursive_mutex \<Rightarrow> recursive_mutex \<times> bool" where
  "recursive_lock f m =
     (case recursive_lock_if_unlocked f m of
        (m', True) \<Rightarrow> (m', True)
      | (m', False) \<Rightarrow> (m'\<lparr>mx_waiting := mx_waiting m' @ [f]\<rparr>, False))"

definition recursive_try_lock :: "nat \<Rightarrow> recursive_mutex \<Rightarrow> recursive_mutex \<times> bool" where
  "recursive_try_lock f m = recursive_lock_if_unlocked f m"

definition recursive_unlock :: "recursive_mutex \<Rightarrow> recursive_mutex \<times> nat option" where
  "recursive_unlock m =
     (let m1 = m\<lparr>rm_count := rm_count m - 1\<rparr>
      in if rm_count m1 = 0
         then (let n = (case mx_waiting m1 of [] \<Rightarrow> None | w # ws \<Rightarrow> Some w)
               in (m1\<lparr>mx_waiting := tl (mx_waiting m1), mx_owner := None, mx_locked := False\<rparr>, n))
         else (m1, None))"

section \<open>Fibers at a lock\<close>

text \<open>A fiber is outside of \<open>lock\<close>, about to try, or suspended.  The depth of a fiber is the number of its
  acquisitions minus the number of its releases, that is, its history.\<close>

datatype lock_phase = Away | Trying | Suspended

record 'm lock_system =
  ls_lock :: 'm
  ls_phase :: "nat \<Rightarrow> lock_phase"
  ls_depth :: "nat \<Rightarrow> nat"

definition lock_start :: "'m \<Rightarrow> 'm lock_system" where
  "lock_start m = \<lparr>ls_lock = m, ls_phase = (\<lambda>f. Away), ls_depth = (\<lambda>f. 0)\<rparr>"

definition resumed :: "nat option \<Rightarrow> (nat \<Rightarrow> lock_phase) \<Rightarrow> nat \<Rightarrow> lock_phase" where
  "resumed n ph = (case n of None \<Rightarrow> ph | Some w \<Rightarrow> ph(w := Trying))"

inductive lock_step ::
  "(nat \<Rightarrow> 'm \<Rightarrow> 'm \<times> bool) \<Rightarrow> (nat \<Rightarrow> 'm \<Rightarrow> 'm \<times> bool) \<Rightarrow> ('m \<Rightarrow> 'm \<times> nat option) \<Rightarrow>
     'm lock_system \<Rightarrow> 'm lock_system \<Rightarrow> bool"
  for lock try_lock unlock where
  call: "ls_phase s f = Away \<Longrightarrow> lock_step lock try_lock unlock s (s\<lparr>ls_phase := (ls_phase s)(f := Trying)\<rparr>)"
| acquire: "ls_phase s f = Trying \<Longrightarrow> lock f (ls_lock s) = (m, True) \<Longrightarrow>
     lock_step lock try_lock unlock s
       (s\<lparr>ls_lock := m, ls_phase := (ls_phase s)(f := Away), ls_depth := (ls_depth s)(f := Suc (ls_depth s f))\<rparr>)"
| suspend: "ls_phase s f = Trying \<Longrightarrow> lock f (ls_lock s) = (m, False) \<Longrightarrow>
     lock_step lock try_lock unlock s (s\<lparr>ls_lock := m, ls_phase := (ls_phase s)(f := Suspended)\<rparr>)"
| try_acquire: "ls_phase s f = Away \<Longrightarrow> try_lock f (ls_lock s) = (m, True) \<Longrightarrow>
     lock_step lock try_lock unlock s (s\<lparr>ls_lock := m, ls_depth := (ls_depth s)(f := Suc (ls_depth s f))\<rparr>)"
| try_fail: "ls_phase s f = Away \<Longrightarrow> try_lock f (ls_lock s) = (m, False) \<Longrightarrow>
     lock_step lock try_lock unlock s (s\<lparr>ls_lock := m\<rparr>)"
| release: "ls_phase s f = Away \<Longrightarrow> ls_depth s f > 0 \<Longrightarrow> unlock (ls_lock s) = (m, n) \<Longrightarrow>
     lock_step lock try_lock unlock s
       (s\<lparr>ls_lock := m, ls_phase := resumed n (ls_phase s), ls_depth := (ls_depth s)(f := ls_depth s f - 1)\<rparr>)"

subsection \<open>Timed locking\<close>

text \<open>\<open>try_lock_until\<close> as a fiber sees it: an attempt, and what happens when its time is over.  \<open>fm_wait_until\<close> tells a
  timeout by the clock alone, so also a fiber that \<open>unlock\<close> has just made ready gives up when it runs too late.\<close>

definition timed_give_up :: "nat \<Rightarrow> mutex \<Rightarrow> mutex" where
  "timed_give_up f m = m\<lparr>mx_waiting := remove1 f (mx_waiting m)\<rparr>"

inductive timed_step :: "mutex lock_system \<Rightarrow> mutex lock_system \<Rightarrow> bool" where
  untimed: "lock_step mutex_lock mutex_try_lock mutex_unlock s s' \<Longrightarrow> timed_step s s'"
| give_up: "ls_phase s f \<noteq> Away \<Longrightarrow>
     timed_step s (s\<lparr>ls_lock := timed_give_up f (ls_lock s), ls_phase := (ls_phase s)(f := Away)\<rparr>)"

section \<open>Barrier\<close>

record barrier =
  ba_initial :: nat
  ba_current :: nat
  ba_cycle :: bool

definition barrier_new :: "nat \<Rightarrow> barrier option" where
  "barrier_new initial =
     (if initial = 0 then None else Some \<lparr>ba_initial = initial, ba_current = initial, ba_cycle = True\<rparr>)"

text \<open>\<open>wait\<close> up to its return, true, or its first wait for the cycle to change.\<close>

definition barrier_arrive :: "barrier \<Rightarrow> barrier \<times> bool" where
  "barrier_arrive b =
     (let b1 = b\<lparr>ba_current := ba_current b - 1\<rparr>
      in if ba_current b1 = 0 then (b1\<lparr>ba_cycle := \<not> ba_cycle b1, ba_current := ba_initial b1\<rparr>, True)
         else (b1, False))"

text \<open>The test of the loop by a fiber that entered in the given cycle.\<close>

definition barrier_passes :: "bool \<Rightarrow> barrier \<Rightarrow> bool" where
  "barrier_passes cycle b \<longleftrightarrow> cycle \<noteq> ba_cycle b"

text \<open>As many fibers as the barrier was made for use it; \<open>bs_inside\<close> is the cycle in which a fiber entered that has
  not left; the history counts how often each fiber arrived and left.\<close>

record barrier_system =
  bs_barrier :: barrier
  bs_inside :: "nat \<Rightarrow> bool option"
  bs_arrived :: "nat \<Rightarrow> nat"
  bs_left :: "nat \<Rightarrow> nat"

definition barrier_start :: "barrier \<Rightarrow> barrier_system" where
  "barrier_start b = \<lparr>bs_barrier = b, bs_inside = (\<lambda>f. None), bs_arrived = (\<lambda>f. 0), bs_left = (\<lambda>f. 0)\<rparr>"

inductive barrier_step :: "barrier_system \<Rightarrow> barrier_system \<Rightarrow> bool" where
  last_arrives: "f < ba_initial (bs_barrier s) \<Longrightarrow> bs_inside s f = None \<Longrightarrow> barrier_arrive (bs_barrier s) = (b, True) \<Longrightarrow>
     barrier_step s (s\<lparr>bs_barrier := b, bs_arrived := (bs_arrived s)(f := Suc (bs_arrived s f)),
       bs_left := (bs_left s)(f := Suc (bs_left s f))\<rparr>)"
| arrives: "f < ba_initial (bs_barrier s) \<Longrightarrow> bs_inside s f = None \<Longrightarrow> barrier_arrive (bs_barrier s) = (b, False) \<Longrightarrow>
     barrier_step s (s\<lparr>bs_barrier := b, bs_arrived := (bs_arrived s)(f := Suc (bs_arrived s f)),
       bs_inside := (bs_inside s)(f := Some (ba_cycle (bs_barrier s)))\<rparr>)"
| leaves: "bs_inside s f = Some cycle \<Longrightarrow> barrier_passes cycle (bs_barrier s) \<Longrightarrow>
     barrier_step s (s\<lparr>bs_inside := (bs_inside s)(f := None), bs_left := (bs_left s)(f := Suc (bs_left s f))\<rparr>)"

section \<open>What a lock promises\<close>

text \<open>The contract of the operations, over the owner of the lock, how often it holds it, and the queue.\<close>

locale fiber_lock =
  fixes lock try_lock :: "nat \<Rightarrow> 'm \<Rightarrow> 'm \<times> bool" and unlock :: "'m \<Rightarrow> 'm \<times> nat option"
    and owner :: "'m \<Rightarrow> nat option" and depth :: "'m \<Rightarrow> nat" and waiting :: "'m \<Rightarrow> nat list" and inv :: "'m \<Rightarrow> bool"
  assumes free_iff: "inv m \<Longrightarrow> owner m = None \<longleftrightarrow> depth m = 0"
    and lock_got: "inv m \<Longrightarrow> lock f m = (m', True) \<Longrightarrow>
      (owner m = None \<or> owner m = Some f) \<and> owner m' = Some f \<and> depth m' = Suc (depth m) \<and> waiting m' = waiting m \<and> inv m'"
    and lock_queued: "inv m \<Longrightarrow> lock f m = (m', False) \<Longrightarrow>
      owner m \<noteq> None \<and> owner m' = owner m \<and> depth m' = depth m \<and> waiting m' = waiting m @ [f] \<and> inv m'"
    and try_got: "inv m \<Longrightarrow> try_lock f m = (m', True) \<Longrightarrow>
      (owner m = None \<or> owner m = Some f) \<and> owner m' = Some f \<and> depth m' = Suc (depth m) \<and> waiting m' = waiting m \<and> inv m'"
    and try_failed: "inv m \<Longrightarrow> try_lock f m = (m', False) \<Longrightarrow> m' = m"
    and unlock_last: "inv m \<Longrightarrow> depth m = 1 \<Longrightarrow> unlock m = (m', n) \<Longrightarrow>
      owner m' = None \<and> waiting m' = tl (waiting m) \<and> n = (case waiting m of [] \<Rightarrow> None | w # ws \<Rightarrow> Some w) \<and> inv m'"
    and unlock_inner: "inv m \<Longrightarrow> depth m > 1 \<Longrightarrow> unlock m = (m', n) \<Longrightarrow>
      owner m' = owner m \<and> depth m' = depth m - 1 \<and> waiting m' = waiting m \<and> n = None \<and> inv m'"
begin

text \<open>The lock knows the history; the queue holds the suspended fibers; and a free lock with a queue has a fiber that is
  about to try.\<close>

definition sys_ok :: "'m lock_system \<Rightarrow> bool" where
  "sys_ok s \<longleftrightarrow>
     inv (ls_lock s) \<and>
     (\<forall>f. ls_depth s f = (if owner (ls_lock s) = Some f then depth (ls_lock s) else 0)) \<and>
     distinct (waiting (ls_lock s)) \<and> set (waiting (ls_lock s)) = {f. ls_phase s f = Suspended} \<and>
     (owner (ls_lock s) = None \<and> waiting (ls_lock s) \<noteq> [] \<longrightarrow> (\<exists>f. ls_phase s f = Trying))"

lemma sys_ok_call: "sys_ok s \<Longrightarrow> ls_phase s f = Away \<Longrightarrow> sys_ok (s\<lparr>ls_phase := (ls_phase s)(f := Trying)\<rparr>)"
  unfolding sys_ok_def by auto

lemma sys_ok_acquire:
  assumes "sys_ok s" "ls_phase s f = Trying" "lock f (ls_lock s) = (m, True)"
  shows "sys_ok (s\<lparr>ls_lock := m, ls_phase := (ls_phase s)(f := Away), ls_depth := (ls_depth s)(f := Suc (ls_depth s f))\<rparr>)"
proof -
  have inv: "inv (ls_lock s)" using assms(1) by (simp add: sys_ok_def)
  note got = lock_got[OF inv assms(3)] and free = free_iff[OF inv]
  show ?thesis using assms(1,2) got free unfolding sys_ok_def by (auto split: if_splits)
qed

lemma sys_ok_suspend:
  assumes "sys_ok s" "ls_phase s f = Trying" "lock f (ls_lock s) = (m, False)"
  shows "sys_ok (s\<lparr>ls_lock := m, ls_phase := (ls_phase s)(f := Suspended)\<rparr>)"
proof -
  have inv: "inv (ls_lock s)" using assms(1) by (simp add: sys_ok_def)
  show ?thesis using assms(1,2) lock_queued[OF inv assms(3)] unfolding sys_ok_def by auto
qed

lemma sys_ok_try:
  assumes "sys_ok s" "ls_phase s f = Away" "try_lock f (ls_lock s) = (m, True)"
  shows "sys_ok (s\<lparr>ls_lock := m, ls_depth := (ls_depth s)(f := Suc (ls_depth s f))\<rparr>)"
proof -
  have inv: "inv (ls_lock s)" using assms(1) by (simp add: sys_ok_def)
  note got = try_got[OF inv assms(3)] and free = free_iff[OF inv]
  show ?thesis using assms(1) got free unfolding sys_ok_def by (auto split: if_splits)
qed

lemma sys_ok_release:
  assumes "sys_ok s" "ls_phase s f = Away" "ls_depth s f > 0" "unlock (ls_lock s) = (m, n)"
  shows "sys_ok (s\<lparr>ls_lock := m, ls_phase := resumed n (ls_phase s), ls_depth := (ls_depth s)(f := ls_depth s f - 1)\<rparr>)"
proof -
  have inv: "inv (ls_lock s)" using assms(1) by (simp add: sys_ok_def)
  have own: "owner (ls_lock s) = Some f" "ls_depth s f = depth (ls_lock s)"
    using assms(1,3) unfolding sys_ok_def by (auto split: if_splits)
  show ?thesis
  proof (cases "depth (ls_lock s) = 1")
    case True
    show ?thesis
      using assms(1) own unlock_last[OF inv True assms(4)] True unfolding sys_ok_def
      by (cases "waiting (ls_lock s)") (auto simp: resumed_def)
  next
    case False
    then have "depth (ls_lock s) > 1" using own assms(3) by simp
    then show ?thesis using assms(1) own unlock_inner[OF inv _ assms(4)] unfolding sys_ok_def by (auto simp: resumed_def)
  qed
qed

lemma sys_ok_step: "lock_step lock try_lock unlock s s' \<Longrightarrow> sys_ok s \<Longrightarrow> sys_ok s'"
proof (induction rule: lock_step.induct)
  case (try_fail s f m)
  then have "m = ls_lock s" using try_failed[of "ls_lock s" f m] by (simp add: sys_ok_def)
  then show ?case using try_fail.prems by simp
next
  case (release s f m n)
  then show ?case using sys_ok_release by blast
qed (simp_all add: sys_ok_call sys_ok_acquire sys_ok_suspend sys_ok_try)

lemma sys_ok_run:
  assumes "(lock_step lock try_lock unlock)\<^sup>*\<^sup>* (lock_start m) s" "inv m" "owner m = None" "waiting m = []"
  shows "sys_ok s"
  using assms(1)
proof (induction rule: rtranclp_induct)
  case base
  show ?case using assms(2-4) by (simp add: sys_ok_def lock_start_def)
qed (rule sys_ok_step)

lemma exclusive: "sys_ok s \<Longrightarrow> ls_depth s f > 0 \<Longrightarrow> ls_depth s g > 0 \<Longrightarrow> f = g"
  by (auto simp: sys_ok_def split: if_splits)

lemma wakeup_kept: "sys_ok s \<Longrightarrow> ls_phase s f = Suspended \<Longrightarrow> (\<exists>g. ls_depth s g > 0) \<or> (\<exists>g. ls_phase s g = Trying)"
proof (cases "owner (ls_lock s)")
  case (Some g)
  assume "sys_ok s"
  then have "ls_depth s g > 0" using Some free_iff[of "ls_lock s"] by (auto simp: sys_ok_def)
  then show ?thesis by blast
next
  case None
  assume "sys_ok s" "ls_phase s f = Suspended"
  then have "waiting (ls_lock s) \<noteq> []" by (auto simp: sys_ok_def)
  then show ?thesis using \<open>sys_ok s\<close> None by (simp add: sys_ok_def)
qed

end

definition mutex_depth :: "mutex \<Rightarrow> nat" where
  "mutex_depth m = (if mx_locked m then 1 else 0)"

definition mutex_ok :: "mutex \<Rightarrow> bool" where
  "mutex_ok m \<longleftrightarrow> mx_locked m = (mx_owner m \<noteq> None)"

interpretation mx: fiber_lock mutex_lock mutex_try_lock mutex_unlock mx_owner mutex_depth mx_waiting mutex_ok
  by unfold_locales
     (auto simp: mutex_ok_def mutex_lock_def mutex_try_lock_def mutex_unlock_def lock_if_unlocked_def mutex_depth_def Let_def split: if_splits)

definition recursive_mutex_ok :: "recursive_mutex \<Rightarrow> bool" where
  "recursive_mutex_ok m \<longleftrightarrow> mx_locked m = (mx_owner m \<noteq> None) \<and> (mx_owner m = None \<longleftrightarrow> rm_count m = 0)"

interpretation rm: fiber_lock recursive_lock recursive_try_lock recursive_unlock mx_owner rm_count mx_waiting recursive_mutex_ok
  by unfold_locales
     (auto simp: recursive_lock_def recursive_try_lock_def recursive_unlock_def recursive_lock_if_unlocked_def
       recursive_mutex_ok_def Let_def split: if_splits)

section \<open>Rounds of a barrier\<close>

text \<open>In round \<open>R\<close> (the rounds that are over): who is outside has passed \<open>R\<close> times, who waits for this round has
  arrived once more, and who still has to leave entered in the round before.\<close>

definition waiting_at :: "barrier_system \<Rightarrow> nat set" where
  "waiting_at s = {f. f < ba_initial (bs_barrier s) \<and> bs_inside s f = Some (ba_cycle (bs_barrier s))}"

definition fiber_round :: "nat \<Rightarrow> barrier_system \<Rightarrow> nat \<Rightarrow> bool" where
  "fiber_round R s f \<longleftrightarrow>
     (case bs_inside s f of
        None \<Rightarrow> bs_arrived s f = R \<and> bs_left s f = R
      | Some c \<Rightarrow> if c = ba_cycle (bs_barrier s) then bs_arrived s f = Suc R \<and> bs_left s f = R
          else bs_arrived s f = R \<and> Suc (bs_left s f) = R)"

definition barrier_round :: "nat \<Rightarrow> barrier_system \<Rightarrow> bool" where
  "barrier_round R s \<longleftrightarrow>
     ba_cycle (bs_barrier s) = even R \<and>
     card (waiting_at s) + ba_current (bs_barrier s) = ba_initial (bs_barrier s) \<and> ba_current (bs_barrier s) > 0 \<and>
     (\<forall>f. f \<ge> ba_initial (bs_barrier s) \<longrightarrow> bs_inside s f = None) \<and>
     (\<forall>f < ba_initial (bs_barrier s). fiber_round R s f)"

lemma finite_waiting_at [simp]: "finite (waiting_at s)"
  by (simp add: waiting_at_def)

lemma barrier_arriveD:
  "barrier_arrive b = (b', True) \<Longrightarrow> ba_current b > 0 \<Longrightarrow>
     ba_current b = 1 \<and> b' = b\<lparr>ba_cycle := \<not> ba_cycle b, ba_current := ba_initial b\<rparr>"
  "barrier_arrive b = (b', False) \<Longrightarrow> ba_current b > 0 \<Longrightarrow> ba_current b > 1 \<and> b' = b\<lparr>ba_current := ba_current b - 1\<rparr>"
  by (auto simp: barrier_arrive_def Let_def split: if_splits)

text \<open>The last fiber arrives when all others wait.\<close>

lemma all_others_wait:
  assumes "barrier_round R s" "ba_current (bs_barrier s) = 1" "f < ba_initial (bs_barrier s)" "bs_inside s f = None"
    "g < ba_initial (bs_barrier s)" "g \<noteq> f"
  shows "bs_inside s g = Some (ba_cycle (bs_barrier s))"
proof (rule ccontr)
  assume "\<not> ?thesis"
  then have "waiting_at s \<subseteq> {..<ba_initial (bs_barrier s)} - {f, g}" using assms(4) by (auto simp: waiting_at_def)
  then have "card (waiting_at s) \<le> card ({..<ba_initial (bs_barrier s)} - {f, g})" by (rule card_mono[rotated]) simp
  moreover have "card ({..<ba_initial (bs_barrier s)} - {f, g}) = ba_initial (bs_barrier s) - 2"
    using assms(3,5,6) by (simp add: card_Diff_subset)
  ultimately show False using assms(1-3,5,6) by (auto simp: barrier_round_def)
qed

lemma barrier_round_last:
  assumes "barrier_round R s" "f < ba_initial (bs_barrier s)" "bs_inside s f = None" "barrier_arrive (bs_barrier s) = (b, True)"
  shows "barrier_round (Suc R) (s\<lparr>bs_barrier := b, bs_arrived := (bs_arrived s)(f := Suc (bs_arrived s f)),
    bs_left := (bs_left s)(f := Suc (bs_left s f))\<rparr>)" (is "barrier_round _ ?s")
proof -
  have cur: "ba_current (bs_barrier s) > 0" using assms(1) by (simp add: barrier_round_def)
  note b = barrier_arriveD(1)[OF assms(4) cur]
  have others: "bs_inside s g = Some (ba_cycle (bs_barrier s))" if "g < ba_initial (bs_barrier s)" "g \<noteq> f" for g
    using all_others_wait[OF assms(1) _ assms(2,3) that] b by simp
  have "bs_inside s g \<noteq> Some (\<not> ba_cycle (bs_barrier s))" if "g < ba_initial (bs_barrier s)" for g
    using others[OF that] assms(3) by (cases "g = f") simp_all
  then have "waiting_at ?s = {}" using b by (auto simp: waiting_at_def)
  moreover have "fiber_round (Suc R) ?s g" if g: "g < ba_initial (bs_barrier s)" for g
  proof (cases "g = f")
    case True
    have "fiber_round R s f" using assms(1,2) by (simp add: barrier_round_def)
    then show ?thesis using assms(3) True by (simp add: fiber_round_def)
  next
    case False
    have "fiber_round R s g" using assms(1) g by (simp add: barrier_round_def)
    then show ?thesis using others[OF g False] False b by (simp add: fiber_round_def)
  qed
  ultimately show ?thesis using assms(1,2) b by (simp add: barrier_round_def)
qed

lemma barrier_round_arrive:
  assumes "barrier_round R s" "f < ba_initial (bs_barrier s)" "bs_inside s f = None" "barrier_arrive (bs_barrier s) = (b, False)"
  shows "barrier_round R (s\<lparr>bs_barrier := b, bs_arrived := (bs_arrived s)(f := Suc (bs_arrived s f)),
       bs_inside := (bs_inside s)(f := Some (ba_cycle (bs_barrier s)))\<rparr>)" (is "barrier_round _ ?s")
proof -
  have cur: "ba_current (bs_barrier s) > 0" using assms(1) by (simp add: barrier_round_def)
  note b = barrier_arriveD(2)[OF assms(4) cur]
  have "waiting_at ?s = insert f (waiting_at s)" "f \<notin> waiting_at s" using b assms(2,3) by (auto simp: waiting_at_def)
  then have "card (waiting_at ?s) = Suc (card (waiting_at s))" by simp
  moreover have "fiber_round R ?s g" if "g < ba_initial (bs_barrier s)" for g
    using assms(1,3) that b by (auto simp: barrier_round_def fiber_round_def split: option.splits)
  ultimately show ?thesis using assms(1,2) b by (simp add: barrier_round_def)
qed

lemma barrier_round_leave:
  assumes "barrier_round R s" "bs_inside s f = Some c" "barrier_passes c (bs_barrier s)"
  shows "barrier_round R (s\<lparr>bs_inside := (bs_inside s)(f := None), bs_left := (bs_left s)(f := Suc (bs_left s f))\<rparr>)"
    (is "barrier_round _ ?s")
proof -
  have f: "f < ba_initial (bs_barrier s)" using assms(1,2) by (cases "f < ba_initial (bs_barrier s)") (auto simp: barrier_round_def)
  moreover have "waiting_at ?s = waiting_at s" using assms(2,3) by (auto simp: waiting_at_def barrier_passes_def)
  moreover have "fiber_round R ?s g" if "g < ba_initial (bs_barrier s)" for g
  proof -
    have "fiber_round R s g" using assms(1) that by (simp add: barrier_round_def)
    then show ?thesis using assms(2,3) by (cases "g = f"; cases "bs_inside s g") (simp_all add: fiber_round_def barrier_passes_def)
  qed
  ultimately show ?thesis using assms(1) f by (simp add: barrier_round_def)
qed

lemma barrier_round_step: "barrier_step s s' \<Longrightarrow> barrier_round R s \<Longrightarrow> barrier_round R s' \<or> barrier_round (Suc R) s'"
proof (induction rule: barrier_step.induct)
  case (last_arrives f s b)
  then show ?case using barrier_round_last by blast
next
  case (arrives f s b)
  then show ?case using barrier_round_arrive by blast
next
  case (leaves s f cycle)
  then show ?case using barrier_round_leave by blast
qed

lemma barrier_initial_step: "barrier_step s s' \<Longrightarrow> ba_initial (bs_barrier s') = ba_initial (bs_barrier s)"
  by (induction rule: barrier_step.induct) (auto simp: barrier_arrive_def Let_def split: if_splits)

lemma barrier_run:
  assumes "barrier_new n = Some b" "barrier_step\<^sup>*\<^sup>* (barrier_start b) s"
  shows "(\<exists>R. barrier_round R s) \<and> ba_initial (bs_barrier s) = n"
  using assms(2)
proof (induction rule: rtranclp_induct)
  case base
  have "barrier_round 0 (barrier_start b)" "ba_initial b = n"
    using assms(1) by (auto simp: barrier_new_def barrier_round_def fiber_round_def barrier_start_def waiting_at_def split: if_splits)
  then show ?case by (auto simp: barrier_start_def)
next
  case (step s s')
  then show ?case using barrier_round_step barrier_initial_step by metis
qed

text \<open>While a round is open, some fiber has not arrived at it.\<close>

lemma somebody_missing:
  assumes "barrier_round R s"
  shows "\<exists>g < ba_initial (bs_barrier s). g \<notin> waiting_at s"
proof (rule ccontr)
  assume "\<not> ?thesis"
  then have "waiting_at s = {..<ba_initial (bs_barrier s)}" by (auto simp: waiting_at_def)
  then show False using assms by (auto simp: barrier_round_def)
qed

section \<open>Properties\<close>

text \<open>\<^bold>\<open>C19\<close>. Mutual exclusion, for any number of fibers and any interleaving of \<open>lock\<close>, \<open>try_lock\<close> and
  \<open>unlock\<close>: at most one fiber has acquired the mutex without having released it, and it has acquired it once.\<close>

theorem mutex_exclusive:
  assumes "(lock_step mutex_lock mutex_try_lock mutex_unlock)\<^sup>*\<^sup>* (lock_start mutex_new) s" "ls_depth s f > 0"
  shows "ls_depth s f = 1 \<and> mx_owner (ls_lock s) = Some f \<and> (\<forall>g. g \<noteq> f \<longrightarrow> ls_depth s g = 0)"
proof -
  have ok: "mx.sys_ok s" by (rule mx.sys_ok_run[OF assms(1)]) (simp_all add: mutex_new_def mutex_ok_def)
  then have "mx_owner (ls_lock s) = Some f" "ls_depth s f = 1"
    using assms(2) by (auto simp: mx.sys_ok_def mutex_depth_def split: if_splits)
  then show ?thesis using mx.exclusive[OF ok assms(2)] by blast
qed

text \<open>The recursive mutex is exclusive as well, and it is free exactly when the fiber that took it
  has released it as often as it has acquired it: its count is the depth of the owner.\<close>

theorem recursive_mutex_exclusive:
  assumes "(lock_step recursive_lock recursive_try_lock recursive_unlock)\<^sup>*\<^sup>* (lock_start recursive_mutex_new) s"
  shows "(mx_locked (ls_lock s) \<longleftrightarrow> (\<exists>f. ls_depth s f > 0)) \<and>
    (\<forall>f. ls_depth s f > 0 \<longrightarrow> mx_owner (ls_lock s) = Some f \<and> ls_depth s f = rm_count (ls_lock s))"
proof -
  have "rm.sys_ok s"
    by (rule rm.sys_ok_run[OF assms]) (simp_all add: recursive_mutex_new_def recursive_mutex_ok_def)
  then show ?thesis by (auto simp: rm.sys_ok_def recursive_mutex_ok_def split: if_splits)
qed


text \<open>\<^bold>\<open>C35\<close>. The barrier keeps the rounds apart when it is used by as many fibers as it was made for: no fiber has left more
  rounds than any other has arrived at, so that a fiber is at most two arrivals ahead of what another has left; and a
  fiber inside the barrier may pass exactly when every fiber has arrived at its round.\<close>

theorem barrier_synchronises:
  assumes "barrier_new n = Some b" "barrier_step\<^sup>*\<^sup>* (barrier_start b) s" "f < n"
  shows "(\<forall>g < n. bs_left s f \<le> bs_arrived s g \<and> bs_arrived s f \<le> bs_left s g + 2) \<and>
    (\<forall>c. bs_inside s f = Some c \<longrightarrow> (barrier_passes c (bs_barrier s) \<longleftrightarrow> (\<forall>g < n. bs_arrived s f \<le> bs_arrived s g)))"
proof -
  obtain R where R: "barrier_round R s" "ba_initial (bs_barrier s) = n" using barrier_run[OF assms(1,2)] by blast
  then have fr: "fiber_round R s g" if "g < n" for g using that by (auto simp: barrier_round_def)
  have "bs_left s f \<le> bs_arrived s g \<and> bs_arrived s f \<le> bs_left s g + 2" if "g < n" for g
    using fr[OF assms(3)] fr[OF that] by (auto simp: fiber_round_def split: option.splits if_splits)
  moreover have "barrier_passes c (bs_barrier s) \<longleftrightarrow> (\<forall>g < n. bs_arrived s f \<le> bs_arrived s g)" if c: "bs_inside s f = Some c" for c
  proof (cases "c = ba_cycle (bs_barrier s)")
    case True
    obtain g where g: "g < n" "g \<notin> waiting_at s" using somebody_missing[OF R(1)] R(2) by auto
    then have "bs_arrived s g = R" using fr[OF g(1)] R(2) by (auto simp: fiber_round_def waiting_at_def split: option.splits if_splits)
    moreover have "bs_arrived s f = Suc R" using fr[OF assms(3)] c True by (simp add: fiber_round_def)
    ultimately show ?thesis using True g(1) by (auto simp: barrier_passes_def not_le)
  next
    case False
    then have "bs_arrived s f = R" using fr[OF assms(3)] c by (simp add: fiber_round_def)
    moreover have "R \<le> bs_arrived s g" if "g < n" for g using fr[OF that] by (auto simp: fiber_round_def split: option.splits if_splits)
    ultimately show ?thesis using False by (simp add: barrier_passes_def)
  qed
  ultimately show ?thesis by blast
qed

subsection \<open>Witnesses\<close>

definition wit_lock :: "nat \<Rightarrow> mutex lock_system" where
  "wit_lock k =
     [lock_start mutex_new,
      (lock_start mutex_new)\<lparr>ls_lock := \<lparr>mx_locked = True, mx_owner = Some 1, mx_waiting = []\<rparr>, ls_depth := (\<lambda>f. 0)(1 := 1)\<rparr>,
      (lock_start mutex_new)\<lparr>ls_lock := \<lparr>mx_locked = True, mx_owner = Some 1, mx_waiting = []\<rparr>, ls_depth := (\<lambda>f. 0)(1 := 1),
        ls_phase := (\<lambda>f. Away)(2 := Trying)\<rparr>,
      (lock_start mutex_new)\<lparr>ls_lock := \<lparr>mx_locked = True, mx_owner = Some 1, mx_waiting = [2]\<rparr>, ls_depth := (\<lambda>f. 0)(1 := 1),
        ls_phase := (\<lambda>f. Away)(2 := Suspended)\<rparr>] ! k"

lemma wit_lock_run: "(lock_step mutex_lock mutex_try_lock mutex_unlock)\<^sup>*\<^sup>* (lock_start mutex_new) (wit_lock 3)"
proof -
  let ?step = "lock_step mutex_lock mutex_try_lock mutex_unlock"
  have "?step (wit_lock 0) (wit_lock 1)"
    using lock_step.try_acquire[of "wit_lock 0" 1 mutex_try_lock "\<lparr>mx_locked = True, mx_owner = Some 1, mx_waiting = []\<rparr>"]
    by (simp add: wit_lock_def lock_start_def mutex_new_def mutex_try_lock_def lock_if_unlocked_def)
  moreover have "?step (wit_lock 1) (wit_lock 2)"
    using lock_step.call[of "wit_lock 1" 2] by (simp add: wit_lock_def lock_start_def)
  moreover have "?step (wit_lock 2) (wit_lock 3)"
    using lock_step.suspend[of "wit_lock 2" 2 mutex_lock "\<lparr>mx_locked = True, mx_owner = Some 1, mx_waiting = [2]\<rparr>"]
    by (simp add: wit_lock_def lock_start_def mutex_lock_def lock_if_unlocked_def)
  moreover have "wit_lock 0 = lock_start mutex_new" by (simp add: wit_lock_def)
  ultimately show ?thesis by (metis converse_rtranclp_into_rtranclp rtranclp.rtrancl_refl)
qed

theorem mutex_exclusive_witness: "ls_depth (wit_lock 3) 1 = 1 \<and> ls_depth (wit_lock 3) 2 = 0"
  using mutex_exclusive[OF wit_lock_run, of 1] by (simp add: wit_lock_def)


theorem recursive_mutex_exclusive_witness:
  "mx_locked (ls_lock (lock_start recursive_mutex_new)) \<longleftrightarrow> (\<exists>f. ls_depth (lock_start recursive_mutex_new) f > 0)"
  using recursive_mutex_exclusive[of "lock_start recursive_mutex_new"] by simp

definition wit_barrier :: barrier where
  "wit_barrier = \<lparr>ba_initial = 2, ba_current = 2, ba_cycle = True\<rparr>"

theorem barrier_synchronises_witness:
  "let s = (barrier_start wit_barrier)\<lparr>bs_barrier := wit_barrier\<lparr>ba_current := 1\<rparr>, bs_arrived := (\<lambda>f. 0)(0 := 1),
       bs_inside := (\<lambda>f. None)(0 := Some True)\<rparr>
   in bs_left s 0 \<le> bs_arrived s 1 \<and> bs_arrived s 0 \<le> bs_left s 1 + 2 \<and> bs_arrived s 0 = 1 \<and> \<not> barrier_passes True (bs_barrier s)"
proof -
  have new: "barrier_new 2 = Some wit_barrier" by (simp add: barrier_new_def wit_barrier_def)
  have "barrier_step (barrier_start wit_barrier) ((barrier_start wit_barrier)\<lparr>bs_barrier := wit_barrier\<lparr>ba_current := 1\<rparr>,
      bs_arrived := (\<lambda>f. 0)(0 := 1), bs_inside := (\<lambda>f. None)(0 := Some True)\<rparr>)" (is "barrier_step _ ?s")
    using barrier_step.arrives[of 0 "barrier_start wit_barrier" "wit_barrier\<lparr>ba_current := 1\<rparr>"]
    by (simp add: barrier_start_def wit_barrier_def barrier_arrive_def Let_def)
  then have run: "barrier_step\<^sup>*\<^sup>* (barrier_start wit_barrier) ?s" by (rule r_into_rtranclp)
  have "bs_inside ?s 0 = Some True" "bs_arrived ?s 0 = 1" "bs_arrived ?s 1 = 0" by (simp_all add: barrier_start_def)
  moreover have "\<not> (\<forall>g < 2. bs_arrived ?s 0 \<le> bs_arrived ?s g)" using calculation(2,3) by (metis not_one_le_zero one_less_numeral_iff semiring_norm(76))
  ultimately show ?thesis
    using barrier_synchronises[OF new run, of 0] unfolding Let_def
    by (metis one_less_numeral_iff semiring_norm(76) zero_less_numeral)
qed

text \<open>A fiber that gives up in \<open>try_lock_until\<close> can take a wake-up with it: the mutex can be free and a
  fiber suspended in \<open>lock\<close> although no fiber holds the mutex and none is about to try.  Nothing will wake that fiber
  before some other fiber happens to lock and unlock the mutex.\<close>

theorem timed_lock_drops_wakeup:
  "\<exists>s. timed_step\<^sup>*\<^sup>* (lock_start mutex_new) s \<and> \<not> mx_locked (ls_lock s) \<and> (\<exists>f. ls_phase s f = Suspended) \<and>
     (\<forall>g. ls_depth s g = 0 \<and> ls_phase s g \<noteq> Trying)"
proof -
  let ?m = "\<lambda>l ws. \<lparr>mx_locked = l, mx_owner = (if l then Some 1 else None), mx_waiting = ws\<rparr>"
  let ?s = "\<lambda>l ws p2 p3. \<lparr>ls_lock = ?m l ws, ls_phase = (\<lambda>f. Away)(2 := p2, 3 := p3), ls_depth = (\<lambda>f. 0)(1 := if l then 1 else 0)\<rparr>"
  note step = timed_step.untimed
  have "timed_step\<^sup>*\<^sup>* (lock_start mutex_new) (wit_lock 3)"
    using rtranclp_mono[of "lock_step mutex_lock mutex_try_lock mutex_unlock" timed_step] wit_lock_run step by blast
  moreover have "wit_lock 3 = ?s True [2] Suspended Away" by (simp add: wit_lock_def lock_start_def fun_eq_iff)
  moreover have "timed_step (?s True [2] Suspended Away) (?s True [2] Suspended Trying)"
    using step[OF lock_step.call[of "?s True [2] Suspended Away" 3]] by (simp add: fun_upd_twist)
  moreover have "timed_step (?s True [2] Suspended Trying) (?s True [2, 3] Suspended Suspended)"
    using step[OF lock_step.suspend[of "?s True [2] Suspended Trying" 3 mutex_lock "?m True [2, 3]"]]
    by (simp add: mutex_lock_def lock_if_unlocked_def fun_upd_twist)
  moreover have "timed_step (?s True [2, 3] Suspended Suspended) (?s False [3] Trying Suspended)"
    using step[OF lock_step.release[of "?s True [2, 3] Suspended Suspended" 1 mutex_unlock "?m False [3]" "Some 2"]]
    by (simp add: mutex_unlock_def resumed_def fun_upd_twist)
  moreover have "timed_step (?s False [3] Trying Suspended) (?s False [3] Away Suspended)"
    using timed_step.give_up[of "?s False [3] Trying Suspended" 2] by (simp add: timed_give_up_def fun_upd_twist)
  ultimately have "timed_step\<^sup>*\<^sup>* (lock_start mutex_new) (?s False [3] Away Suspended)"
    by (metis (no_types, lifting) rtranclp.rtrancl_into_rtrancl)
  then show ?thesis by (intro exI[of _ "?s False [3] Away Suspended"]) auto
qed


end
