(* ===== verification/Fiber_Scheduler.thy ===== *)
theory Fiber_Scheduler
  imports Fibp_Prelude "HOL-Library.Extended_Nat"
begin

text \<open>
  The scheduler of the fibers of one thread: \<open>boost-fiber/fiber_manager.cpp\<close> with \<open>detail/waiting_queue.hpp\<close>,
  \<open>detail/fifo.hpp\<close>, \<open>detail/worker_fiber\<close> and \<open>round_robin.cpp\<close>.  Both queues are linked through the fibers
  themselves, so a fiber is a record in a memory and a queue its first and last fiber.  Time points are extended
  naturals, the largest one \<open>\<infinity>\<close>; the clock is an argument.  A context switch is a change of the active fiber:
  \<open>None\<close> is the main fiber, which runs \<open>fm_run\<close>.
\<close>

section \<open>Fibers\<close>

datatype state_t = READY | RUNNING | WAITING | TERMINATED

record worker_fiber =
  wf_prev :: "nat option"
  wf_nxt :: "nat option"
  wf_tp :: enat
  wf_state :: state_t
  wf_requested :: bool
  wf_waiting :: "nat list"
  wf_attached :: bool

definition worker_fiber_new :: worker_fiber where
  "worker_fiber_new = \<lparr>wf_prev = None, wf_nxt = None, wf_tp = \<infinity>, wf_state = READY, wf_requested = False, wf_waiting = [],
     wf_attached = False\<rparr>"

record fiber_manager =
  fm_mem :: "nat \<Rightarrow> worker_fiber"
  wq_head :: "nat option"
  wq_tail :: "nat option"
  rq_head :: "nat option"
  rq_tail :: "nat option"
  fm_active :: "nat option"

definition fiber_manager_new :: fiber_manager where
  "fiber_manager_new = \<lparr>fm_mem = (\<lambda>_. worker_fiber_new), wq_head = None, wq_tail = None, rq_head = None, rq_tail = None,
     fm_active = None\<rparr>"

definition with_fiber :: "nat \<Rightarrow> (worker_fiber \<Rightarrow> worker_fiber) \<Rightarrow> fiber_manager \<Rightarrow> fiber_manager" where
  "with_fiber f g M = M\<lparr>fm_mem := (fm_mem M)(f := g (fm_mem M f))\<rparr>"

definition next_to :: "nat \<Rightarrow> nat option \<Rightarrow> fiber_manager \<Rightarrow> fiber_manager" where
  "next_to f n = with_fiber f (\<lambda>x. x\<lparr>wf_nxt := n\<rparr>)"

definition prev_to :: "nat \<Rightarrow> nat option \<Rightarrow> fiber_manager \<Rightarrow> fiber_manager" where
  "prev_to f p = with_fiber f (\<lambda>x. x\<lparr>wf_prev := p\<rparr>)"

definition state_to :: "nat \<Rightarrow> state_t \<Rightarrow> fiber_manager \<Rightarrow> fiber_manager" where
  "state_to f st = with_fiber f (\<lambda>x. x\<lparr>wf_state := st\<rparr>)"

definition time_point :: "nat \<Rightarrow> enat \<Rightarrow> fiber_manager \<Rightarrow> fiber_manager" where
  "time_point f t = with_fiber f (\<lambda>x. x\<lparr>wf_tp := t\<rparr>)"

definition attach_queue :: "nat \<Rightarrow> fiber_manager \<Rightarrow> fiber_manager" where
  "attach_queue f = with_fiber f (\<lambda>x. x\<lparr>wf_attached := True\<rparr>)"

definition detach_queue :: "nat \<Rightarrow> fiber_manager \<Rightarrow> fiber_manager" where
  "detach_queue f = with_fiber f (\<lambda>x. x\<lparr>wf_attached := False\<rparr>)"

abbreviation is_ready :: "fiber_manager \<Rightarrow> nat \<Rightarrow> bool" where
  "is_ready M f \<equiv> wf_state (fm_mem M f) = READY"

section \<open>The queue of waiting fibers\<close>

definition wq_push_front :: "nat \<Rightarrow> nat \<Rightarrow> fiber_manager \<Rightarrow> fiber_manager" where
  "wq_push_front item h M = (prev_to h (Some item) (next_to item (Some h) M))\<lparr>wq_head := Some item\<rparr>"

definition wq_push_back :: "nat \<Rightarrow> nat \<Rightarrow> fiber_manager \<Rightarrow> fiber_manager" where
  "wq_push_back item t M = (prev_to item (Some t) (next_to t (Some item) M))\<lparr>wq_tail := Some item\<rparr>"

definition wq_insert_before :: "nat \<Rightarrow> nat \<Rightarrow> nat option \<Rightarrow> fiber_manager \<Rightarrow> fiber_manager" where
  "wq_insert_before item f prev M =
     (let M1 = prev_to f (Some item) (next_to item (Some f) M)
      in if wq_head M = Some f then M1\<lparr>wq_head := Some item\<rparr>
         else (case prev of None \<Rightarrow> M1 | Some p \<Rightarrow> prev_to item (Some p) (next_to p (Some item) M1)))"

text \<open>The loop over the queue; on a queue with a cycle it would not end.\<close>

partial_function (option) wq_insert :: "nat \<Rightarrow> nat \<Rightarrow> nat option \<Rightarrow> fiber_manager \<Rightarrow> fiber_manager option" where
  "wq_insert item f prev M =
     (if \<not> is_ready M f \<and> wf_tp (fm_mem M item) \<le> wf_tp (fm_mem M f) then Some (wq_insert_before item f prev M)
      else if wq_tail M = Some f then Some (wq_push_back item f M)
      else (case wf_nxt (fm_mem M f) of None \<Rightarrow> Some M | Some nxt \<Rightarrow> wq_insert item nxt (Some f) M))"

text \<open>A queue with a first fiber has a last one; \<open>tail_\<close> is only read then.\<close>

definition wq_push :: "nat \<Rightarrow> fiber_manager \<Rightarrow> fiber_manager option" where
  "wq_push item M =
     (if wf_attached (fm_mem M item) then Some M
      else (let M1 = attach_queue item M
            in case wq_head M1 of
                 None \<Rightarrow> Some (M1\<lparr>wq_head := Some item, wq_tail := Some item\<rparr>)
               | Some h \<Rightarrow>
                   if h = item then Some M1
                   else if is_ready M1 item then Some (wq_push_front item h M1)
                   else if wf_tp (fm_mem M1 item) = \<infinity>
                   then (case wq_tail M1 of None \<Rightarrow> None | Some t \<Rightarrow> Some (wq_push_back item t M1))
                   else wq_insert item h None M1))"

definition wq_move_to_run :: "nat \<Rightarrow> fiber_manager \<Rightarrow> fiber_manager" where
  "wq_move_to_run f M =
     (case wf_prev (fm_mem M f) of
        None \<Rightarrow> M
      | Some p \<Rightarrow>
          if \<not> wf_attached (fm_mem M f) then M
          else (let M1 = (case wf_nxt (fm_mem M f) of
                            None \<Rightarrow> M\<lparr>wq_tail := Some p\<rparr>
                          | Some n \<Rightarrow> prev_to n (Some p) M);
                    M2 = next_to p (wf_nxt (fm_mem M1 f)) M1;
                    M3 = prev_to f None (next_to f (wq_head M2) M2);
                    M4 = (case wq_head M3 of None \<Rightarrow> M3 | Some h \<Rightarrow> prev_to h (Some f) M3)
                in M4\<lparr>wq_head := Some f\<rparr>))"

definition set_ready :: "nat \<Rightarrow> fiber_manager \<Rightarrow> fiber_manager" where
  "set_ready f M = wq_move_to_run f (state_to f READY M)"

definition fetch_ready :: "nat \<Rightarrow> nat \<Rightarrow> fiber_manager \<Rightarrow> fiber_manager" where
  "fetch_ready f now M =
     (if wf_tp (fm_mem M f) \<le> enat now \<or> wf_requested (fm_mem M f) then set_ready f M else M)"

section \<open>The queue of ready fibers\<close>

definition fifo_push :: "nat \<Rightarrow> fiber_manager \<Rightarrow> fiber_manager" where
  "fifo_push item M =
     (case rq_head M of
        None \<Rightarrow> M\<lparr>rq_head := Some item, rq_tail := Some item\<rparr>
      | Some h \<Rightarrow>
          if h = item then M
          else (case rq_tail M of
                  None \<Rightarrow> M
                | Some t \<Rightarrow> (prev_to item (Some t) (next_to t (Some item) M))\<lparr>rq_tail := Some item\<rparr>))"

definition fifo_pop :: "nat \<Rightarrow> fiber_manager \<Rightarrow> fiber_manager" where
  "fifo_pop item M =
     (let M1 = M\<lparr>rq_head := wf_nxt (fm_mem M item)\<rparr>;
          M2 = (case rq_head M1 of None \<Rightarrow> M1\<lparr>rq_tail := None\<rparr> | Some h \<Rightarrow> prev_to h None M1)
      in prev_to item None (next_to item None M2))"

definition awakened :: "nat \<Rightarrow> fiber_manager \<Rightarrow> fiber_manager" where
  "awakened f M = fifo_push f M"

definition pick_next :: "fiber_manager \<Rightarrow> nat option \<times> fiber_manager" where
  "pick_next M = (case rq_head M of None \<Rightarrow> (None, M) | Some f \<Rightarrow> (Some f, fifo_pop f M))"

text \<open>One turn of the loop of \<open>move_to\<close>, for a fiber that is due.\<close>

definition wq_take :: "nat \<Rightarrow> fiber_manager \<Rightarrow> fiber_manager" where
  "wq_take f M =
     (let M1 = M\<lparr>wq_head := wf_nxt (fm_mem M f)\<rparr>;
          M2 = (case wq_head M1 of None \<Rightarrow> M1\<lparr>wq_tail := None\<rparr> | Some h \<Rightarrow> prev_to h None M1)
      in awakened f (time_point f \<infinity> (detach_queue f (prev_to f None (next_to f None M2)))))"

partial_function (option) wq_move_to :: "nat \<Rightarrow> nat option \<Rightarrow> fiber_manager \<Rightarrow> fiber_manager option" where
  "wq_move_to now f M =
     (case f of
        None \<Rightarrow> Some M
      | Some x \<Rightarrow>
          (let nxt = wf_nxt (fm_mem M x); M1 = fetch_ready x now M
           in if is_ready M1 x then wq_move_to now nxt (wq_take x M1) else Some M1))"

section \<open>The manager\<close>

definition fm_spawn :: "nat \<Rightarrow> fiber_manager \<Rightarrow> fiber_manager" where
  "fm_spawn f M = awakened f M"

text \<open>The trampoline leaves a new fiber running; \<open>start_\<close> makes it ready.\<close>

definition fiber_start :: "nat \<Rightarrow> fiber_manager \<Rightarrow> fiber_manager" where
  "fiber_start f M = fm_spawn f (set_ready f (with_fiber f (\<lambda>_. worker_fiber_new\<lparr>wf_state := RUNNING\<rparr>) M))"

definition fm_resume :: "nat \<Rightarrow> fiber_manager \<Rightarrow> fiber_manager" where
  "fm_resume f M = (state_to f RUNNING M)\<lparr>fm_active := Some f\<rparr>"

definition fm_run :: "nat \<Rightarrow> fiber_manager \<Rightarrow> (nat option \<times> fiber_manager) option" where
  "fm_run now M =
     (case wq_move_to now (wq_head M) M of
        None \<Rightarrow> None
      | Some M1 \<Rightarrow>
          Some (case pick_next M1 of (None, M2) \<Rightarrow> (None, M2) | (Some f, M2) \<Rightarrow> (Some f, fm_resume f M2)))"

definition fm_wait_until :: "nat \<Rightarrow> enat \<Rightarrow> fiber_manager \<Rightarrow> fiber_manager option" where
  "fm_wait_until f timeout_time M =
     map_option (\<lambda>M'. M'\<lparr>fm_active := None\<rparr>) (wq_push f (time_point f timeout_time (state_to f WAITING M)))"

definition fm_wait :: "nat \<Rightarrow> fiber_manager \<Rightarrow> fiber_manager option" where
  "fm_wait f M = fm_wait_until f \<infinity> M"

definition fm_yield :: "nat \<Rightarrow> fiber_manager \<Rightarrow> fiber_manager option" where
  "fm_yield f M = map_option (\<lambda>M'. M'\<lparr>fm_active := None\<rparr>) (wq_push f (set_ready f M))"

definition worker_join :: "nat \<Rightarrow> nat \<Rightarrow> fiber_manager \<Rightarrow> bool \<times> fiber_manager" where
  "worker_join g f M =
     (if wf_state (fm_mem M g) = TERMINATED then (False, M)
      else (True, with_fiber g (\<lambda>x. x\<lparr>wf_waiting := wf_waiting x @ [f]\<rparr>) M))"

definition fm_join :: "nat \<Rightarrow> nat \<Rightarrow> fiber_manager \<Rightarrow> fiber_manager option" where
  "fm_join f g M =
     (case wq_push f (state_to f WAITING M) of
        None \<Rightarrow> None
      | Some M1 \<Rightarrow>
          (let (joined, M2) = worker_join g f M1; M3 = (if joined then M2 else set_ready f M2)
           in Some (M3\<lparr>fm_active := None\<rparr>)))"

text \<open>The end of the trampoline: \<open>set_terminated\<close> and \<open>release\<close>.\<close>

definition worker_release :: "nat \<Rightarrow> fiber_manager \<Rightarrow> fiber_manager" where
  "worker_release f M =
     fold set_ready (wf_waiting (fm_mem M f)) (with_fiber f (\<lambda>x. x\<lparr>wf_waiting := []\<rparr>) M)"

definition fiber_end :: "nat \<Rightarrow> fiber_manager \<Rightarrow> fiber_manager" where
  "fiber_end f M = (worker_release f (state_to f TERMINATED M))\<lparr>fm_active := None\<rparr>"

definition request_interruption :: "nat \<Rightarrow> bool \<Rightarrow> fiber_manager \<Rightarrow> fiber_manager" where
  "request_interruption f req M =
     (if req then set_ready f (with_fiber f (\<lambda>x. x\<lparr>wf_requested := True\<rparr>) M)
      else with_fiber f (\<lambda>x. x\<lparr>wf_requested := False\<rparr>) M)"

section \<open>A thread and its fibers\<close>

text \<open>\<open>sc_spawned\<close> are the fibers started so far and \<open>sc_picked\<close> those that \<open>fm_run\<close> resumed, in order.  Mutexes and
  condition variables notify fibers that wait for them; neither they nor interruptions reach a fiber that joins another
  here, since \<open>fm_join\<close> then returns to its caller before the other has ended.\<close>

record sched_system =
  sc_fm :: fiber_manager
  sc_spawned :: "nat set"
  sc_picked :: "nat list"

definition sched_start :: sched_system where
  "sched_start = \<lparr>sc_fm = fiber_manager_new, sc_spawned = {}, sc_picked = []\<rparr>"

definition joining :: "fiber_manager \<Rightarrow> nat \<Rightarrow> bool" where
  "joining M f \<longleftrightarrow> (\<exists>g. f \<in> set (wf_waiting (fm_mem M g)))"

inductive sched_step :: "sched_system \<Rightarrow> sched_system \<Rightarrow> bool" where
  spawn: "f \<notin> sc_spawned s \<Longrightarrow>
     sched_step s (s\<lparr>sc_fm := fiber_start f (sc_fm s), sc_spawned := insert f (sc_spawned s)\<rparr>)"
| run: "fm_active (sc_fm s) = None \<Longrightarrow> fm_run now (sc_fm s) = Some (Some f, M) \<Longrightarrow>
     sched_step s (s\<lparr>sc_fm := M, sc_picked := sc_picked s @ [f]\<rparr>)"
| idle: "fm_active (sc_fm s) = None \<Longrightarrow> fm_run now (sc_fm s) = Some (None, M) \<Longrightarrow> sched_step s (s\<lparr>sc_fm := M\<rparr>)"
| wait: "fm_active (sc_fm s) = Some f \<Longrightarrow> fm_wait_until f t (sc_fm s) = Some M \<Longrightarrow> sched_step s (s\<lparr>sc_fm := M\<rparr>)"
| yield: "fm_active (sc_fm s) = Some f \<Longrightarrow> fm_yield f (sc_fm s) = Some M \<Longrightarrow> sched_step s (s\<lparr>sc_fm := M\<rparr>)"
| join: "fm_active (sc_fm s) = Some f \<Longrightarrow> g \<in> sc_spawned s \<Longrightarrow> g \<noteq> f \<Longrightarrow> \<not> wf_requested (fm_mem (sc_fm s) f) \<Longrightarrow> fm_join f g (sc_fm s) = Some M \<Longrightarrow>
     sched_step s (s\<lparr>sc_fm := M\<rparr>)"
| finish: "fm_active (sc_fm s) = Some f \<Longrightarrow> sched_step s (s\<lparr>sc_fm := fiber_end f (sc_fm s)\<rparr>)"
| notify: "f \<in> sc_spawned s \<Longrightarrow> wf_state (fm_mem (sc_fm s) f) = WAITING \<Longrightarrow> \<not> joining (sc_fm s) f \<Longrightarrow>
     sched_step s (s\<lparr>sc_fm := set_ready f (sc_fm s)\<rparr>)"
| interrupt: "f \<in> sc_spawned s \<Longrightarrow> wf_state (fm_mem (sc_fm s) f) = WAITING \<Longrightarrow> \<not> joining (sc_fm s) f \<Longrightarrow>
     sched_step s (s\<lparr>sc_fm := request_interruption f True (sc_fm s)\<rparr>)"
| interrupted: "fm_active (sc_fm s) = Some f \<Longrightarrow>
     sched_step s (s\<lparr>sc_fm := request_interruption f False (sc_fm s)\<rparr>)"

abbreviation sched_run :: "sched_system \<Rightarrow> sched_system \<Rightarrow> bool" where
  "sched_run \<equiv> sched_step\<^sup>*\<^sup>*"


section \<open>Linked fibers\<close>

definition hd_or :: "nat list \<Rightarrow> nat option \<Rightarrow> nat option" where
  "hd_or xs n = (case xs of [] \<Rightarrow> n | x # _ \<Rightarrow> Some x)"

definition last_or :: "nat option \<Rightarrow> nat list \<Rightarrow> nat option" where
  "last_or p xs = (if xs = [] then p else Some (last xs))"

lemma ends_simps [simp]:
  "hd_or [] n = n" "hd_or (x # xs) n = Some x" "hd_or (xs @ ys) n = hd_or xs (hd_or ys n)"
  "last_or p [] = p" "last_or p (x # xs) = last_or (Some x) xs" "last_or p (xs @ ys) = last_or (last_or p xs) ys"
  by (auto simp: hd_or_def last_or_def split: list.splits)

lemma ends_ne: "xs \<noteq> [] \<Longrightarrow> hd_or xs n = Some (hd xs)" "xs \<noteq> [] \<Longrightarrow> last_or p xs = Some (last xs)"
  by (auto simp: hd_or_def last_or_def split: list.splits)

text \<open>A segment of a queue: the fibers \<open>xs\<close>, after \<open>p\<close> and before \<open>n\<close>.\<close>

fun segment :: "(nat \<Rightarrow> nat option) \<Rightarrow> (nat \<Rightarrow> nat option) \<Rightarrow> nat option \<Rightarrow> nat list \<Rightarrow> nat option \<Rightarrow> bool" where
  "segment nx pv p [] n \<longleftrightarrow> True"
| "segment nx pv p (x # xs) n \<longleftrightarrow> pv x = p \<and> nx x = hd_or xs n \<and> segment nx pv (Some x) xs n"

lemma segment_append: "segment nx pv p (xs @ ys) n \<longleftrightarrow> segment nx pv p xs (hd_or ys n) \<and> segment nx pv (last_or p xs) ys n"
  by (induction xs arbitrary: p) auto

lemma segment_cong:
  "(\<And>x. x \<in> set xs \<Longrightarrow> nx' x = nx x \<and> pv' x = pv x) \<Longrightarrow> segment nx' pv' p xs n = segment nx pv p xs n"
  by (induction xs arbitrary: p) auto

lemma segment_upd [simp]:
  "x \<notin> set xs \<Longrightarrow> segment (nx(x := a)) pv p xs n = segment nx pv p xs n"
  "x \<notin> set xs \<Longrightarrow> segment nx (pv(x := a)) p xs n = segment nx pv p xs n"
  by (rule segment_cong; force)+

lemma segment_first:
  "segment nx pv p xs n \<Longrightarrow> distinct xs \<Longrightarrow> xs \<noteq> [] \<Longrightarrow> segment nx (pv(hd xs := q)) q xs n"
proof (cases xs)
  case (Cons y ys)
  moreover assume "segment nx pv p xs n" "distinct xs"
  moreover from this have "segment nx (pv(y := q)) (Some y) ys n = segment nx pv (Some y) ys n"
    using Cons by (intro segment_cong) auto
  ultimately show ?thesis by simp
qed simp

lemma segment_last:
  "segment nx pv p xs n \<Longrightarrow> distinct xs \<Longrightarrow> xs \<noteq> [] \<Longrightarrow> segment (nx(last xs := m)) pv p xs m"
proof (cases xs rule: rev_cases)
  case (snoc ys y)
  moreover assume "segment nx pv p xs n" "distinct xs"
  moreover from this have "segment (nx(y := m)) pv p ys (Some y) = segment nx pv p ys (Some y)"
    using snoc by (intro segment_cong) auto
  ultimately show ?thesis by (simp add: segment_append)
qed simp

lemma segment_in: "segment nx pv p xs n \<Longrightarrow> x \<in> set xs \<Longrightarrow>
    \<exists>ys zs. xs = ys @ x # zs \<and> pv x = last_or p ys \<and> nx x = hd_or zs n"
proof -
  assume "segment nx pv p xs n" "x \<in> set xs"
  moreover from this obtain ys zs where "xs = ys @ x # zs" by (auto simp: in_set_conv_decomp)
  ultimately show ?thesis by (intro exI[of _ ys] exI[of _ zs]) (simp add: segment_append)
qed

definition chain :: "(nat \<Rightarrow> nat option) \<Rightarrow> (nat \<Rightarrow> nat option) \<Rightarrow> nat option \<Rightarrow> nat option \<Rightarrow> nat list \<Rightarrow> bool" where
  "chain nx pv h t xs \<longleftrightarrow> h = hd_or xs None \<and> t = last_or None xs \<and> segment nx pv None xs None"

lemma chain_cong:
  "(\<And>x. x \<in> set xs \<Longrightarrow> nx' x = nx x \<and> pv' x = pv x) \<Longrightarrow> chain nx' pv' h t xs = chain nx pv h t xs"
  unfolding chain_def using segment_cong[of xs nx' nx pv' pv] by simp

lemma chain_upd [simp]:
  "x \<notin> set xs \<Longrightarrow> chain (nx(x := a)) pv h t xs = chain nx pv h t xs"
  "x \<notin> set xs \<Longrightarrow> chain nx (pv(x := a)) h t xs = chain nx pv h t xs"
  by (simp_all add: chain_def)

lemma chain_push_front:
  assumes "chain nx pv h t (y # ys)" "distinct (x # y # ys)" "pv x = None"
  shows "chain (nx(x := Some y)) (pv(y := Some x)) (Some x) t (x # y # ys)"
proof -
  have "segment nx (pv(y := Some x)) (Some x) (y # ys) None"
    using segment_first[of nx pv None "y # ys" None "Some x"] assms by (simp add: chain_def)
  then have "segment (nx(x := Some y)) (pv(y := Some x)) (Some x) (y # ys) None"
    using assms(2) segment_upd(1)[of x "y # ys"] by simp
  then show ?thesis using assms by (auto simp: chain_def)
qed

lemma chain_push_back:
  assumes "chain nx pv h (Some l) xs" "distinct (xs @ [x])" "nx x = None"
  shows "chain (nx(l := Some x)) (pv(x := Some l)) h (Some x) (xs @ [x])"
proof -
  have xs: "xs \<noteq> []" "last xs = l" using assms(1) by (auto simp: chain_def last_or_def split: if_splits)
  then have "segment (nx(l := Some x)) pv None xs (Some x)"
    using segment_last[of nx pv None xs None "Some x"] assms by (simp add: chain_def)
  then have "segment (nx(l := Some x)) (pv(x := Some l)) None xs (Some x)"
    using assms(2) by simp
  moreover have "x \<noteq> l" using xs assms(2) by auto
  moreover have "hd_or xs (Some x) = hd_or xs None" "last_or None xs = Some l" using xs by (auto simp: hd_or_def last_or_def split: list.splits)
  ultimately show ?thesis using assms by (simp add: chain_def segment_append)
qed

lemma last_notin: "distinct (as @ bs) \<Longrightarrow> as \<noteq> [] \<Longrightarrow> last as \<notin> set bs"
  by (meson disjoint_iff distinct_append last_in_set)

lemma hd_notin: "set as \<inter> set bs = {} \<Longrightarrow> bs \<noteq> [] \<Longrightarrow> hd bs \<notin> set as"
  by (meson disjoint_iff hd_in_set)

lemma chain_insert:
  assumes "chain nx pv h t (as @ f # bs)" "as \<noteq> []" "distinct (as @ x # f # bs)"
  shows "chain (nx(x := Some f, last as := Some x)) (pv(f := Some x, x := Some (last as))) h t (as @ x # f # bs)"
proof -
  let ?n = "nx(x := Some f, last as := Some x)" and ?p = "pv(f := Some x, x := Some (last as))"
  have seg: "segment nx pv None as (Some f)" "segment nx pv (last_or None as) (f # bs) None"
    using assms(1) by (simp_all add: chain_def segment_append)
  have ne: "x \<noteq> last as" using last_notin[OF assms(3,2)] by auto
  have "segment (nx(last as := Some x)) pv None as (Some x)" using segment_last[OF seg(1)] assms(2,3) by simp
  then have "segment ?n ?p None as (Some x)"
    using assms(3) ne by (simp add: fun_upd_twist[of x "last as"])
  moreover have "segment ?n ?p (Some x) (f # bs) None"
  proof -
    have "segment nx (pv(f := Some x)) (Some x) (f # bs) None" using segment_first[OF seg(2), of "Some x"] assms(3) by simp
    moreover have "x \<notin> set (f # bs)" "last as \<notin> set (f # bs)" using assms(3) last_notin[OF assms(3,2)] by auto
    ultimately show ?thesis using segment_upd[of _ "f # bs"] by simp
  qed
  moreover have "x \<noteq> f" using assms(3) by auto
  ultimately have "segment ?n ?p None (as @ x # f # bs) None"
    using ne by (simp add: segment_append ends_ne[OF assms(2)])
  then show ?thesis using assms(1) by (simp add: chain_def ends_ne[OF assms(2)])
qed

lemma chain_remove:
  assumes "chain nx pv h t (as @ x # bs)" "as \<noteq> []" "distinct (as @ x # bs)"
  shows "chain (nx(last as := hd_or bs None)) (if bs = [] then pv else pv(hd bs := Some (last as))) h
    (last_or (Some (last as)) bs) (as @ bs)"
proof -
  let ?p = "if bs = [] then pv else pv(hd bs := Some (last as))"
  have seg: "segment nx pv None as (Some x)" "segment nx pv (Some x) bs None"
    using assms(1) by (simp_all add: chain_def segment_append)
  have "segment (nx(last as := hd_or bs None)) pv None as (hd_or bs None)" using segment_last[OF seg(1)] assms(2,3) by simp
  then have "segment (nx(last as := hd_or bs None)) ?p None as (hd_or bs None)"
    using hd_notin[of as "x # bs"] assms(3) by (cases "bs = []") (simp_all add: hd_notin)
  moreover have "segment (nx(last as := hd_or bs None)) ?p (Some (last as)) bs None"
  proof (cases "bs = []")
    case False
    then have "segment nx ?p (Some (last as)) bs None" using segment_first[OF seg(2), of "Some (last as)"] assms(3) by simp
    moreover have "last as \<notin> set bs" using last_notin[OF assms(3,2)] by auto
    ultimately show ?thesis by simp
  qed simp
  ultimately have "segment (nx(last as := hd_or bs None)) ?p None (as @ bs) None"
    by (simp add: segment_append ends_ne[OF assms(2)])
  then show ?thesis using assms(1) by (simp add: chain_def ends_ne[OF assms(2)])
qed

lemma chain_pop:
  assumes "chain nx pv h t (x # xs)" "distinct (x # xs)"
  shows "chain nx (if xs = [] then pv else pv(hd xs := None)) (nx x) (if xs = [] then None else t) xs"
proof (cases xs)
  case (Cons y ys)
  then have "segment nx (pv(y := None)) None xs None"
    using segment_first[of nx pv "Some x" xs None None] assms by (simp add: chain_def)
  then show ?thesis using assms Cons by (simp add: chain_def)
qed (use assms in \<open>simp add: chain_def\<close>)

definition nx :: "fiber_manager \<Rightarrow> nat \<Rightarrow> nat option" where
  "nx M f = wf_nxt (fm_mem M f)"

definition pv :: "fiber_manager \<Rightarrow> nat \<Rightarrow> nat option" where
  "pv M f = wf_prev (fm_mem M f)"

lemmas link_folds [simp] = nx_def [symmetric] pv_def [symmetric]

definition linked :: "fiber_manager \<Rightarrow> nat list \<Rightarrow> nat list \<Rightarrow> bool" where
  "linked M ws rs \<longleftrightarrow>
     chain (nx M) (pv M) (wq_head M) (wq_tail M) ws \<and> chain (nx M) (pv M) (rq_head M) (rq_tail M) rs \<and>
     distinct (ws @ rs) \<and> (\<forall>f. wf_attached (fm_mem M f) \<longleftrightarrow> f \<in> set ws) \<and>
     (\<forall>f. f \<notin> set ws \<union> set rs \<longrightarrow> nx M f = None \<and> pv M f = None)"

text \<open>What the links do not touch.\<close>

definition core :: "fiber_manager \<Rightarrow> nat \<Rightarrow> worker_fiber" where
  "core M f = (fm_mem M f)\<lparr>wf_prev := None, wf_nxt := None, wf_attached := False\<rparr>"

lemma core_simps [simp]:
  "wf_tp (core M f) = wf_tp (fm_mem M f)" "wf_state (core M f) = wf_state (fm_mem M f)"
  "wf_requested (core M f) = wf_requested (fm_mem M f)" "wf_waiting (core M f) = wf_waiting (fm_mem M f)"
  by (simp_all add: core_def)

lemma core_eqD: "core M' = core M \<Longrightarrow>
    wf_tp (fm_mem M' f) = wf_tp (fm_mem M f) \<and> wf_state (fm_mem M' f) = wf_state (fm_mem M f) \<and>
    wf_requested (fm_mem M' f) = wf_requested (fm_mem M f) \<and> wf_waiting (fm_mem M' f) = wf_waiting (fm_mem M f)"
  by (metis core_simps)

lemma links_simps [simp]:
  "nx (next_to f n M) = (nx M)(f := n)" "pv (next_to f n M) = pv M"
  "nx (prev_to f n M) = nx M" "pv (prev_to f n M) = (pv M)(f := n)"
  "core (next_to f n M) = core M" "core (prev_to f n M) = core M"
  "core (attach_queue f M) = core M" "core (detach_queue f M) = core M"
  "nx (attach_queue f M) = nx M" "pv (attach_queue f M) = pv M" "nx (detach_queue f M) = nx M" "pv (detach_queue f M) = pv M"
  "nx (time_point f t M) = nx M" "pv (time_point f t M) = pv M" "nx (state_to f st M) = nx M" "pv (state_to f st M) = pv M"
  "core (time_point f t M) = (core M)(f := (core M f)\<lparr>wf_tp := t\<rparr>)"
  "core (state_to f st M) = (core M)(f := (core M f)\<lparr>wf_state := st\<rparr>)"
  "nx (M\<lparr>wq_head := x\<rparr>) = nx M" "nx (M\<lparr>wq_tail := x\<rparr>) = nx M" "nx (M\<lparr>rq_head := x\<rparr>) = nx M"
  "nx (M\<lparr>rq_tail := x\<rparr>) = nx M" "nx (M\<lparr>fm_active := x\<rparr>) = nx M"
  "pv (M\<lparr>wq_head := x\<rparr>) = pv M" "pv (M\<lparr>wq_tail := x\<rparr>) = pv M" "pv (M\<lparr>rq_head := x\<rparr>) = pv M"
  "pv (M\<lparr>rq_tail := x\<rparr>) = pv M" "pv (M\<lparr>fm_active := x\<rparr>) = pv M"
  by (auto simp: next_to_def prev_to_def attach_queue_def detach_queue_def time_point_def state_to_def with_fiber_def core_def nx_def pv_def fun_eq_iff
      simp del: link_folds)

lemma attached_simps [simp]:
  "wf_attached (fm_mem (next_to f n M) g) = wf_attached (fm_mem M g)"
  "wf_attached (fm_mem (prev_to f n M) g) = wf_attached (fm_mem M g)"
  "wf_attached (fm_mem (attach_queue f M) g) \<longleftrightarrow> g = f \<or> wf_attached (fm_mem M g)"
  "wf_attached (fm_mem (detach_queue f M) g) \<longleftrightarrow> g \<noteq> f \<and> wf_attached (fm_mem M g)"
  "wf_attached (fm_mem (time_point f t M) g) = wf_attached (fm_mem M g)"
  "wf_attached (fm_mem (state_to f st M) g) = wf_attached (fm_mem M g)"
  by (auto simp: next_to_def prev_to_def attach_queue_def detach_queue_def time_point_def state_to_def with_fiber_def)

lemma queue_fields [simp]:
  "wq_head (with_fiber f g M) = wq_head M" "wq_tail (with_fiber f g M) = wq_tail M" "rq_head (with_fiber f g M) = rq_head M"
  "rq_tail (with_fiber f g M) = rq_tail M" "fm_active (with_fiber f g M) = fm_active M"
  "fm_mem (with_fiber f g M) = (fm_mem M)(f := g (fm_mem M f))"
  by (simp_all add: with_fiber_def)

lemma queue_fields_links [simp]:
  "wq_head (next_to f n M) = wq_head M" "wq_tail (next_to f n M) = wq_tail M" "rq_head (next_to f n M) = rq_head M"
  "rq_tail (next_to f n M) = rq_tail M" "fm_active (next_to f n M) = fm_active M"
  "wq_head (prev_to f n M) = wq_head M" "wq_tail (prev_to f n M) = wq_tail M" "rq_head (prev_to f n M) = rq_head M"
  "rq_tail (prev_to f n M) = rq_tail M" "fm_active (prev_to f n M) = fm_active M"
  "wq_head (attach_queue f M) = wq_head M" "wq_tail (attach_queue f M) = wq_tail M" "rq_head (attach_queue f M) = rq_head M"
  "rq_tail (attach_queue f M) = rq_tail M" "fm_active (attach_queue f M) = fm_active M"
  "wq_head (detach_queue f M) = wq_head M" "wq_tail (detach_queue f M) = wq_tail M" "rq_head (detach_queue f M) = rq_head M"
  "rq_tail (detach_queue f M) = rq_tail M" "fm_active (detach_queue f M) = fm_active M"
  "wq_head (time_point f t M) = wq_head M" "wq_tail (time_point f t M) = wq_tail M" "rq_head (time_point f t M) = rq_head M"
  "rq_tail (time_point f t M) = rq_tail M" "fm_active (time_point f t M) = fm_active M"
  "wq_head (state_to f st M) = wq_head M" "wq_tail (state_to f st M) = wq_tail M" "rq_head (state_to f st M) = rq_head M"
  "rq_tail (state_to f st M) = rq_tail M" "fm_active (state_to f st M) = fm_active M"
  by (simp_all add: next_to_def prev_to_def attach_queue_def detach_queue_def time_point_def state_to_def)

lemma core_queue [simp]:
  "core (M\<lparr>wq_head := x\<rparr>) = core M" "core (M\<lparr>wq_tail := x\<rparr>) = core M" "core (M\<lparr>rq_head := x\<rparr>) = core M"
  "core (M\<lparr>rq_tail := x\<rparr>) = core M" "core (M\<lparr>fm_active := x\<rparr>) = core M"
  by (simp_all add: core_def fun_eq_iff)

lemma linkedD:
  assumes "linked M ws rs"
  shows "chain (nx M) (pv M) (wq_head M) (wq_tail M) ws" "chain (nx M) (pv M) (rq_head M) (rq_tail M) rs"
    "distinct (ws @ rs)" "wf_attached (fm_mem M f) \<longleftrightarrow> f \<in> set ws"
    "f \<notin> set ws \<Longrightarrow> f \<notin> set rs \<Longrightarrow> nx M f = None \<and> pv M f = None"
  using assms by (simp_all add: linked_def)

lemma linkedI:
  assumes "chain (nx M) (pv M) (wq_head M) (wq_tail M) ws" "chain (nx M) (pv M) (rq_head M) (rq_tail M) rs"
    "distinct (ws @ rs)" "\<And>f. wf_attached (fm_mem M f) \<longleftrightarrow> f \<in> set ws"
    "\<And>f. f \<notin> set ws \<Longrightarrow> f \<notin> set rs \<Longrightarrow> nx M f = None \<and> pv M f = None"
  shows "linked M ws rs"
  using assms by (simp add: linked_def)

lemma chain_ends: "chain n p h t xs \<Longrightarrow> xs \<noteq> [] \<Longrightarrow> h = Some (hd xs) \<and> t = Some (last xs)"
  by (simp add: chain_def ends_ne)

lemma linked_fifo_push:
  assumes "linked M ws rs" "x \<notin> set ws" "x \<notin> set rs"
  shows "linked (fifo_push x M) ws (rs @ [x]) \<and> core (fifo_push x M) = core M \<and> fm_active (fifo_push x M) = fm_active M"
proof (cases "rs = []")
  case True
  then show ?thesis using assms by (simp add: linked_def fifo_push_def chain_def)
next
  case False
  let ?t = "last rs"
  let ?M = "(prev_to x (Some ?t) (next_to ?t (Some x) M))\<lparr>rq_tail := Some x\<rparr>"
  note l = linkedD[OF assms(1)]
  have e: "rq_head M = Some (hd rs)" "rq_tail M = Some ?t" "hd rs \<noteq> x" "?t \<noteq> x" "?t \<notin> set ws"
    using chain_ends[OF l(2) False] False l(3) assms(3) hd_in_set[OF False] last_in_set[OF False] by auto
  have push: "fifo_push x M = ?M" using e by (simp add: fifo_push_def)
  have "linked ?M ws (rs @ [x])"
  proof (rule linkedI)
    show "chain (nx ?M) (pv ?M) (rq_head ?M) (rq_tail ?M) (rs @ [x])"
      using chain_push_back[of "nx M" "pv M" "rq_head M" ?t rs x] l(2,3) l(5)[OF assms(2,3)] assms e by simp
    show "chain (nx ?M) (pv ?M) (wq_head ?M) (wq_tail ?M) ws"
      using l(1) e assms(2) by simp
    show "nx ?M f = None \<and> pv ?M f = None" if "f \<notin> set ws" "f \<notin> set (rs @ [x])" for f
      using that l(5)[of f] last_in_set[OF False] by auto
  qed (use l(3,4) assms in auto)
  then show ?thesis unfolding push by simp
qed

lemma linked_fifo_pop:
  assumes "linked M ws (x # rs)"
  shows "linked (fifo_pop x M) ws rs \<and> core (fifo_pop x M) = core M \<and> fm_active (fifo_pop x M) = fm_active M"
proof -
  note l = linkedD[OF assms]
  let ?p = "if rs = [] then pv M else (pv M)(hd rs := None)"
  have nxt: "nx M x = hd_or rs None" using l(2) by (simp add: chain_def)
  have x: "x \<notin> set ws" "x \<notin> set rs" using l(3) by auto
  have h: "rs \<noteq> [] \<Longrightarrow> hd rs \<notin> set ws" using l(3) hd_in_set[of rs] by auto
  have views: "nx (fifo_pop x M) = (nx M)(x := None)" "pv (fifo_pop x M) = ?p(x := None)"
    "rq_head (fifo_pop x M) = nx M x" "rq_tail (fifo_pop x M) = (if rs = [] then None else rq_tail M)"
    "wq_head (fifo_pop x M) = wq_head M" "wq_tail (fifo_pop x M) = wq_tail M" "fm_active (fifo_pop x M) = fm_active M"
    "\<And>f. wf_attached (fm_mem (fifo_pop x M) f) = wf_attached (fm_mem M f)" "core (fifo_pop x M) = core M"
    by (cases rs; simp add: fifo_pop_def Let_def nxt)+
  have "linked (fifo_pop x M) ws rs"
  proof (rule linkedI, unfold views)
    have "chain (nx M) ?p (nx M x) (if rs = [] then None else rq_tail M) rs" using chain_pop[OF l(2)] l(3) by simp
    then show "chain ((nx M)(x := None)) (?p(x := None)) (nx M x) (if rs = [] then None else rq_tail M) rs"
      using x(2) by simp
    show "chain ((nx M)(x := None)) (?p(x := None)) (wq_head M) (wq_tail M) ws" using l(1) x(1) h by auto
  qed (use l(3,4) l(5) in auto)
  then show ?thesis using views by simp
qed

lemma linked_wq_take:
  assumes "linked M (x # ws) rs"
  shows "linked (wq_take x M) ws (rs @ [x]) \<and> core (wq_take x M) = (core M)(x := (core M x)\<lparr>wf_tp := \<infinity>\<rparr>) \<and>
    fm_active (wq_take x M) = fm_active M"
proof -
  note l = linkedD[OF assms]
  let ?p = "if ws = [] then pv M else (pv M)(hd ws := None)"
  let ?M1 = "M\<lparr>wq_head := nx M x\<rparr>"
  let ?M2 = "(case wq_head ?M1 of None \<Rightarrow> ?M1\<lparr>wq_tail := None\<rparr> | Some h \<Rightarrow> prev_to h None ?M1)"
  let ?M = "time_point x \<infinity> (detach_queue x (prev_to x None (next_to x None ?M2)))"
  have nxt: "nx M x = hd_or ws None" using l(1) by (simp add: chain_def)
  have x: "x \<notin> set ws" "x \<notin> set rs" using l(3) by auto
  have h: "ws \<noteq> [] \<Longrightarrow> hd ws \<notin> set rs" using l(3) hd_notin[of rs ws] by (auto simp: Int_commute)
  have views: "nx ?M = (nx M)(x := None)" "pv ?M = ?p(x := None)"
    "wq_head ?M = nx M x" "wq_tail ?M = (if ws = [] then None else wq_tail M)"
    "rq_head ?M = rq_head M" "rq_tail ?M = rq_tail M" "fm_active ?M = fm_active M"
    "\<And>f. wf_attached (fm_mem ?M f) \<longleftrightarrow> f \<noteq> x \<and> wf_attached (fm_mem M f)" "core ?M = (core M)(x := (core M x)\<lparr>wf_tp := \<infinity>\<rparr>)"
    by (cases ws; simp add: nxt)+
  have "linked ?M ws rs"
  proof (rule linkedI, unfold views)
    have "chain (nx M) ?p (nx M x) (if ws = [] then None else wq_tail M) ws" using chain_pop[OF l(1)] l(3) by simp
    then show "chain ((nx M)(x := None)) (?p(x := None)) (nx M x) (if ws = [] then None else wq_tail M) ws"
      using x(1) by simp
    show "chain ((nx M)(x := None)) (?p(x := None)) (rq_head M) (rq_tail M) rs" using l(2) x(2) h by auto
  qed (use l(3,4) l(5) x in auto)
  from linked_fifo_push[OF this x] show ?thesis using views by (simp add: wq_take_def awakened_def Let_def)
qed

lemma linked_wq_move_to_run:
  assumes "linked M ws rs"
  shows "linked (wq_move_to_run f M) (if f \<in> set ws then f # remove1 f ws else ws) rs \<and>
    core (wq_move_to_run f M) = core M \<and> fm_active (wq_move_to_run f M) = fm_active M"
proof -
  note l = linkedD[OF assms]
  consider "f \<notin> set ws" | bs where "ws = f # bs" | as bs where "ws = as @ f # bs" "as \<noteq> []"
    by (metis append_self_conv2 split_list)
  then show ?thesis
  proof cases
    case 1
    then have "wq_move_to_run f M = M" using l(4)[of f] by (simp add: wq_move_to_run_def split: option.splits)
    then show ?thesis using 1 assms by simp
  next
    case (2 bs)
    then have "wq_move_to_run f M = M" using l(1) by (simp add: wq_move_to_run_def chain_def)
    then show ?thesis using 2 assms by simp
  next
    case (3 as bs)
    let ?a = "last as" and ?h = "hd as"
    let ?q = "if bs = [] then pv M else (pv M)(hd bs := Some ?a)"
    have d: "distinct (as @ f # bs)" "as \<noteq> []" using 3 l(3) by auto
    have n: "nx M f = hd_or bs None" "pv M f = Some ?a" "wq_head M = Some ?h"
      using l(1) 3 by (simp_all add: chain_def segment_append ends_ne)
    have ne: "f \<notin> set as" "f \<notin> set bs" "?a \<noteq> f" "?h \<noteq> f" "f \<notin> set rs" "?a \<notin> set rs" "?h \<notin> set rs" "bs \<noteq> [] \<Longrightarrow> hd bs \<notin> set rs"
    proof -
      have "set as \<inter> set (f # bs @ rs) = {}" "set bs \<inter> set rs = {}" using l(3) 3 by auto
      then show "?a \<noteq> f" "?h \<noteq> f" "?a \<notin> set rs" "?h \<notin> set rs" "bs \<noteq> [] \<Longrightarrow> hd bs \<notin> set rs"
        using last_in_set[OF d(2)] hd_in_set[OF d(2)] hd_in_set[of bs] by (metis IntI Un_iff empty_iff list.set_intros set_append)+
    qed (use d l(3) 3 in auto)
    have "bs \<noteq> [] \<Longrightarrow> hd bs \<noteq> f" using ne(2) hd_in_set[of bs] by metis
    then have views: "nx (wq_move_to_run f M) = (nx M)(?a := hd_or bs None, f := Some ?h)"
      "pv (wq_move_to_run f M) = ?q(f := None, ?h := Some f)" "wq_head (wq_move_to_run f M) = Some f"
      "wq_tail (wq_move_to_run f M) = (if bs = [] then Some ?a else wq_tail M)"
      "rq_head (wq_move_to_run f M) = rq_head M" "rq_tail (wq_move_to_run f M) = rq_tail M"
      "fm_active (wq_move_to_run f M) = fm_active M" "core (wq_move_to_run f M) = core M"
      "\<And>g. wf_attached (fm_mem (wq_move_to_run f M) g) = wf_attached (fm_mem M g)"
      using n ne(3,4) l(4)[of f] 3 by (cases bs; simp add: wq_move_to_run_def Let_def)+
    have "linked (wq_move_to_run f M) (f # as @ bs) rs"
    proof (rule linkedI, unfold views)
      have "chain ((nx M)(?a := hd_or bs None)) ?q (wq_head M) (last_or (Some ?a) bs) (as @ bs)"
        using chain_remove[of "nx M" "pv M" "wq_head M" "wq_tail M" as f bs] l(1) 3 d by simp
      then have "chain ((nx M)(?a := hd_or bs None)) (?q(f := None)) (wq_head M) (last_or (Some ?a) bs) (as @ bs)"
        using chain_upd(2)[of f "as @ bs"] ne(1,2) by simp
      moreover have eq: "as @ bs = ?h # tl as @ bs" using d(2) by (cases as) simp_all
      ultimately have c: "chain ((nx M)(?a := hd_or bs None)) (?q(f := None)) (wq_head M) (last_or (Some ?a) bs) (?h # tl as @ bs)"
        by simp
      have "distinct (f # ?h # tl as @ bs)" using d unfolding eq[symmetric] by auto
      from chain_push_front[OF c this] have "chain ((nx M)(?a := hd_or bs None, f := Some ?h)) (?q(f := None, ?h := Some f)) (Some f)
          (last_or (Some ?a) bs) (f # as @ bs)" unfolding eq by simp
      then
      show "chain ((nx M)(?a := hd_or bs None, f := Some ?h)) (?q(f := None, ?h := Some f)) (Some f)
          (if bs = [] then Some ?a else wq_tail M) (f # as @ bs)"
        using l(1) 3 by (cases "bs = []") (simp_all add: chain_def ends_ne)
      show "chain ((nx M)(?a := hd_or bs None, f := Some ?h)) (?q(f := None, ?h := Some f)) (rq_head M) (rq_tail M) rs"
        using l(2) ne by auto
    qed (use l(3,4) 3 l(5) ne in auto)
    moreover have "remove1 f ws = as @ bs" using 3 ne(1) by (simp add: remove1_append)
    ultimately show ?thesis using views 3 by simp
  qed
qed

text \<open>The fibers that a new one is put behind, and the queue with it.\<close>

definition goes_first :: "fiber_manager \<Rightarrow> nat \<Rightarrow> nat \<Rightarrow> bool" where
  "goes_first M item x \<longleftrightarrow> is_ready M x \<or> wf_tp (fm_mem M x) < wf_tp (fm_mem M item)"

definition inserted :: "fiber_manager \<Rightarrow> nat \<Rightarrow> nat list \<Rightarrow> nat list" where
  "inserted M item ws =
     (if is_ready M item then item # ws
      else if wf_tp (fm_mem M item) = \<infinity> then ws @ [item]
      else takeWhile (goes_first M item) ws @ item # dropWhile (goes_first M item) ws)"

definition insert_at :: "fiber_manager \<Rightarrow> nat \<Rightarrow> nat list \<Rightarrow> nat list \<Rightarrow> fiber_manager" where
  "insert_at M item xs ys =
     (case ys of [] \<Rightarrow> wq_push_back item (last xs) M | g # _ \<Rightarrow> wq_insert_before item g (last_or None xs) M)"

lemma wq_insert_turn:
  "wq_insert item f prev M =
     (if \<not> goes_first M item f then Some (wq_insert_before item f prev M)
      else if wq_tail M = Some f then Some (wq_push_back item f M)
      else (case nx M f of None \<Rightarrow> Some M | Some nxt \<Rightarrow> wq_insert item nxt (Some f) M))"
  by (subst wq_insert.simps) (auto simp: goes_first_def not_le)

lemma wq_insert_eq:
  assumes "chain (nx M) (pv M) (wq_head M) (wq_tail M) (as @ f # bs)" "distinct (as @ f # bs)" "\<forall>x \<in> set as. goes_first M item x"
  shows "wq_insert item f (last_or None as) M =
    Some (insert_at M item (takeWhile (goes_first M item) (as @ f # bs)) (dropWhile (goes_first M item) (as @ f # bs)))"
  using assms
proof (induction bs arbitrary: as f)
  case Nil
  have "wq_tail M = Some f" using Nil(1) by (simp add: chain_def)
  then show ?case
    using Nil(3) by (subst wq_insert_turn) (simp add: insert_at_def takeWhile_append2 dropWhile_append2)
next
  case (Cons b bs)
  have t: "wq_tail M = Some (last (b # bs))" "nx M f = Some b"
    using Cons.prems(1) by (simp_all add: chain_def segment_append ends_ne del: ends_simps(5))
  have ne: "last (b # bs) \<noteq> f"
    using Cons.prems(2) last_in_set[of "b # bs"] by (metis distinct.simps(2) distinct_append list.distinct(1))
  show ?case
  proof (cases "goes_first M item f")
    case True
    have "wq_insert item f (last_or None as) M = wq_insert item b (last_or None (as @ [f])) M"
      using True t ne by (subst wq_insert_turn) simp
    then show ?thesis using Cons.IH[of "as @ [f]" b] Cons.prems True by simp
  next
    case False
    then show ?thesis
      using Cons.prems(3) by (subst wq_insert_turn) (simp add: insert_at_def takeWhile_append2 dropWhile_append2)
  qed
qed

lemma linked_add_back:
  assumes "linked M ws rs" "item \<notin> set ws" "item \<notin> set rs" "ws \<noteq> []"
  shows "linked (wq_push_back item (last ws) (attach_queue item M)) (ws @ [item]) rs"
proof -
  note l = linkedD[OF assms(1)]
  let ?t = "last ws"
  let ?M = "wq_push_back item ?t (attach_queue item M)"
  have t: "wq_tail M = Some ?t" using chain_ends[OF l(1) assms(4)] by simp
  have ne: "?t \<notin> set rs" using last_notin[OF l(3) assms(4)] .
  have views: "nx ?M = (nx M)(?t := Some item)" "pv ?M = (pv M)(item := Some ?t)" "wq_head ?M = wq_head M"
    "wq_tail ?M = Some item" "rq_head ?M = rq_head M" "rq_tail ?M = rq_tail M"
    "\<And>g. wf_attached (fm_mem ?M g) \<longleftrightarrow> g = item \<or> wf_attached (fm_mem M g)"
    by (simp_all add: wq_push_back_def)
  show ?thesis
  proof (rule linkedI, unfold views)
    show "chain ((nx M)(?t := Some item)) ((pv M)(item := Some ?t)) (wq_head M) (Some item) (ws @ [item])"
      using chain_push_back[of "nx M" "pv M" "wq_head M" ?t ws item] l(1,3) l(5)[OF assms(2,3)] t assms(2) by simp
    show "chain ((nx M)(?t := Some item)) ((pv M)(item := Some ?t)) (rq_head M) (rq_tail M) rs" using l(2) ne assms(3) by simp
    show "((nx M)(?t := Some item)) f = None \<and> ((pv M)(item := Some ?t)) f = None"
      if "f \<notin> set (ws @ [item])" "f \<notin> set rs" for f using that l(5)[of f] last_in_set[OF assms(4)] by auto
  qed (use l(3,4) assms(2,3) in auto)
qed

lemma linked_add_front:
  assumes "linked M (h # ws) rs" "item \<notin> set (h # ws)" "item \<notin> set rs"
  shows "linked ((prev_to h (Some item) (next_to item (Some h) (attach_queue item M)))\<lparr>wq_head := Some item\<rparr>) (item # h # ws) rs"
proof -
  note l = linkedD[OF assms(1)]
  let ?M = "(prev_to h (Some item) (next_to item (Some h) (attach_queue item M)))\<lparr>wq_head := Some item\<rparr>"
  show ?thesis
  proof (rule linkedI)
    show "chain (nx ?M) (pv ?M) (wq_head ?M) (wq_tail ?M) (item # h # ws)"
      using chain_push_front[OF l(1), of item] l(3) l(5)[OF assms(2,3)] assms(2) by simp
    show "chain (nx ?M) (pv ?M) (rq_head ?M) (rq_tail ?M) rs" using l(2,3) assms(3) by simp
    show "nx ?M f = None \<and> pv ?M f = None" if "f \<notin> set (item # h # ws)" "f \<notin> set rs" for f using that l(5)[of f] by auto
  qed (use l(3,4) assms(2,3) in auto)
qed

lemma linked_add_between:
  assumes "linked M (as @ f # bs) rs" "item \<notin> set (as @ f # bs)" "item \<notin> set rs" "as \<noteq> []"
  shows "linked (prev_to item (Some (last as)) (next_to (last as) (Some item)
    (prev_to f (Some item) (next_to item (Some f) (attach_queue item M))))) (as @ item # f # bs) rs"
proof -
  note l = linkedD[OF assms(1)]
  let ?M = "prev_to item (Some (last as)) (next_to (last as) (Some item)
    (prev_to f (Some item) (next_to item (Some f) (attach_queue item M))))"
  have d: "distinct (as @ item # f # bs)" using l(3) assms(2) by auto
  have ne: "last as \<notin> set (f # bs @ rs)" using last_notin[of as "f # bs @ rs"] l(3) assms(4) by simp
  show ?thesis
  proof (rule linkedI)
    show "chain (nx ?M) (pv ?M) (wq_head ?M) (wq_tail ?M) (as @ item # f # bs)"
      using chain_insert[OF l(1) assms(4), of item] d by simp
    show "chain (nx ?M) (pv ?M) (rq_head ?M) (rq_tail ?M) rs" using l(2,3) assms(3) ne by auto
    show "nx ?M g = None \<and> pv ?M g = None" if "g \<notin> set (as @ item # f # bs)" "g \<notin> set rs" for g
      using that l(5)[of g] last_in_set[OF assms(4)] by auto
  qed (use l(3,4) assms(2,3) in auto)
qed

lemma linked_insert_at:
  assumes "linked M (xs @ ys) rs" "item \<notin> set (xs @ ys)" "item \<notin> set rs" "xs @ ys \<noteq> []"
  shows "linked (insert_at (attach_queue item M) item xs ys) (xs @ item # ys) rs"
proof (cases ys)
  case Nil
  then show ?thesis using linked_add_back[of M xs rs item] assms by (simp add: insert_at_def)
next
  case (Cons g zs)
  note l = linkedD[OF assms(1)]
  show ?thesis
  proof (cases "xs = []")
    case True
    then have "wq_head M = Some g" using chain_ends[OF l(1)] Cons by simp
    then show ?thesis using linked_add_front[of M g zs rs item] assms Cons True
      by (simp add: insert_at_def wq_insert_before_def Let_def)
  next
    case False
    then have "wq_head M = Some (hd xs)" using chain_ends[OF l(1)] Cons by simp
    moreover have "hd xs \<noteq> g" using l(3) Cons False by (cases xs) auto
    ultimately show ?thesis using linked_add_between[of M xs g zs rs item] assms Cons False
      by (simp add: insert_at_def wq_insert_before_def Let_def ends_ne)
  qed
qed

lemma core_wq [simp]:
  "core (wq_push_front item h M) = core M" "core (wq_push_back item h M) = core M" "core (insert_at M item xs ys) = core M"
  "fm_active (wq_push_front item h M) = fm_active M" "fm_active (wq_push_back item h M) = fm_active M"
  "fm_active (insert_at M item xs ys) = fm_active M"
  by (simp_all add: wq_push_front_def wq_push_back_def insert_at_def wq_insert_before_def Let_def split: list.splits option.splits)

lemma linked_wq_push:
  assumes "linked M ws rs" "item \<notin> set ws" "item \<notin> set rs"
  shows "\<exists>M'. wq_push item M = Some M' \<and> linked M' (inserted M item ws) rs \<and> core M' = core M \<and> fm_active M' = fm_active M"
proof -
  note l = linkedD[OF assms(1)]
  let ?M = "attach_queue item M"
  have same: "wf_state (fm_mem ?M x) = wf_state (fm_mem M x)" "wf_tp (fm_mem ?M x) = wf_tp (fm_mem M x)" for x
    using core_eqD[of ?M M] by simp_all
  then have gf: "goes_first ?M item = goes_first M item" by (simp add: goes_first_def fun_eq_iff)
  have att: "\<not> wf_attached (fm_mem M item)" using l(4) assms(2) by simp
  show ?thesis
  proof (cases ws)
    case Nil
    let ?N = "?M\<lparr>wq_head := Some item, wq_tail := Some item\<rparr>"
    have "wq_push item M = Some ?N" using att l(1) Nil by (simp add: wq_push_def chain_def Let_def)
    moreover have "linked ?N [item] rs"
      using l(2-5) assms(2,3) Nil by (intro linkedI) (auto simp: chain_def)
    moreover have "inserted M item ws = [item]" using Nil by (simp add: inserted_def)
    ultimately show ?thesis by simp
  next
    case (Cons h hs)
    have ends: "wq_head M = Some h" "wq_tail M = Some (last ws)" using chain_ends[OF l(1)] Cons by simp_all
    have ne: "h \<noteq> item" using assms(2) Cons by auto
    let ?xs = "takeWhile (goes_first M item) ws" and ?ys = "dropWhile (goes_first M item) ws"
    consider "is_ready M item" | "\<not> is_ready M item" "wf_tp (fm_mem M item) = \<infinity>"
      | "\<not> is_ready M item" "wf_tp (fm_mem M item) \<noteq> \<infinity>" by blast
    then show ?thesis
    proof cases
      case 1
      then have "wq_push item M = Some (wq_push_front item h ?M)" using att ends ne same by (simp add: wq_push_def Let_def)
      then show ?thesis using 1 linked_add_front[of M h hs rs item] assms Cons
        by (simp add: inserted_def wq_push_front_def)
    next
      case 2
      then have "wq_push item M = Some (wq_push_back item (last ws) ?M)" using att ends ne same by (simp add: wq_push_def Let_def)
      then show ?thesis using 2 linked_add_back[OF assms] Cons by (simp add: inserted_def)
    next
      case 3
      have "wq_push item M = wq_insert item h None ?M" using 3 att ends ne same by (auto simp: wq_push_def Let_def)
      also have "\<dots> = Some (insert_at ?M item ?xs ?ys)"
        using wq_insert_eq[of ?M "[]" h hs item] l(1,3) Cons gf by simp
      finally have push: "wq_push item M = Some (insert_at ?M item ?xs ?ys)" .
      moreover have "linked (insert_at ?M item ?xs ?ys) (?xs @ item # ?ys) rs"
        by (rule linked_insert_at, unfold takeWhile_dropWhile_id) (use assms in blast, use assms in blast, use assms in blast, simp add: Cons)
      ultimately show ?thesis using 3 by (auto simp: inserted_def)
    qed
  qed
qed

lemma linked_state_to [simp]: "linked (state_to f st M) ws rs = linked M ws rs"
  by (simp add: linked_def)

lemma linked_active [simp]: "linked (M\<lparr>fm_active := x\<rparr>) ws rs = linked M ws rs"
  by (simp add: linked_def)

lemma linked_time_point [simp]: "linked (time_point f t M) ws rs = linked M ws rs"
  by (simp add: linked_def)

lemma linked_set_ready:
  assumes "linked M ws rs"
  shows "linked (set_ready f M) (if f \<in> set ws then f # remove1 f ws else ws) rs \<and>
    core (set_ready f M) = (core M)(f := (core M f)\<lparr>wf_state := READY\<rparr>) \<and> fm_active (set_ready f M) = fm_active M"
  using linked_wq_move_to_run[of "state_to f READY M" ws rs f] assms by (simp add: set_ready_def)

definition due :: "fiber_manager \<Rightarrow> nat \<Rightarrow> nat \<Rightarrow> bool" where
  "due M now x \<longleftrightarrow> is_ready M x \<or> wf_tp (fm_mem M x) \<le> enat now \<or> wf_requested (fm_mem M x)"

lemma due_core: "core M' x = core M x \<Longrightarrow> due M' now x = due M now x"
  unfolding due_def by (metis core_simps(1,2,3))

definition woken :: "nat set \<Rightarrow> (nat \<Rightarrow> worker_fiber) \<Rightarrow> nat \<Rightarrow> worker_fiber" where
  "woken S c f = (if f \<in> S then (c f)\<lparr>wf_state := READY, wf_tp := \<infinity>\<rparr> else c f)"

lemma linked_wq_move_to:
  assumes "linked M ws rs"
  shows "\<exists>M'. wq_move_to now (wq_head M) M = Some M' \<and>
    linked M' (dropWhile (due M now) ws) (rs @ takeWhile (due M now) ws) \<and>
    core M' = woken (set (takeWhile (due M now) ws)) (core M) \<and> fm_active M' = fm_active M"
  using assms
proof (induction ws arbitrary: M rs)
  case Nil
  then have "wq_head M = None" by (simp add: linked_def chain_def)
  then show ?case using Nil by (subst wq_move_to.simps) (simp add: woken_def fun_eq_iff)
next
  case (Cons x ws)
  note l = linkedD[OF Cons.prems]
  let ?M = "fetch_ready x now M"
  have h: "wq_head M = Some x" "nx M x = hd_or ws None" using l(1) by (simp_all add: chain_def)
  have f: "linked ?M (x # ws) rs" "fm_active ?M = fm_active M"
    "core ?M = (if due M now x then (core M)(x := (core M x)\<lparr>wf_state := READY\<rparr>) else core M)"
    using linked_set_ready[OF Cons.prems, of x] Cons.prems by (auto simp: fetch_ready_def due_def core_def)
  have "wf_state (core ?M x) = (if due M now x then READY else wf_state (core M x))" unfolding f(3) by simp
  then have r: "is_ready ?M x \<longleftrightarrow> due M now x" by (auto simp: due_def split: if_splits)
  show ?case
  proof (cases "due M now x")
    case False
    then have "wq_move_to now (wq_head M) M = Some ?M" using h r by (subst wq_move_to.simps) (simp add: Let_def)
    then show ?thesis using f False by (simp add: woken_def fun_eq_iff)
  next
    case True
    let ?N = "wq_take x ?M"
    have t: "linked ?N ws (rs @ [x])" "fm_active ?N = fm_active M" "core ?N = woken {x} (core M)"
      using linked_wq_take[OF f(1)] f(2,3) True by (auto simp: woken_def fun_eq_iff)
    have hd: "wq_head ?N = hd_or ws None" using linkedD(1)[OF t(1)] by (simp add: chain_def)
    have other: "due ?N now y = due M now y" if "y \<in> set ws" for y
      using that l(3) t(3) by (intro due_core) (auto simp: woken_def)
    then have w: "takeWhile (due ?N now) ws = takeWhile (due M now) ws" "dropWhile (due ?N now) ws = dropWhile (due M now) ws"
      by (auto intro: takeWhile_cong dropWhile_cong)
    have "wq_move_to now (wq_head M) M = wq_move_to now (wq_head ?N) ?N"
      using h r True hd by (subst wq_move_to.simps) (simp add: Let_def)
    then show ?thesis using Cons.IH[OF t(1)] True t(2,3) unfolding w by (auto simp: woken_def fun_eq_iff)
  qed
qed


section \<open>Every reachable state\<close>

text \<open>Ready fibers stand in front in the waiting queue, the others by their time points.\<close>

definition before :: "(nat \<Rightarrow> worker_fiber) \<Rightarrow> nat \<Rightarrow> nat \<Rightarrow> bool" where
  "before c x y \<longleftrightarrow> wf_state (c x) = READY \<or> (wf_state (c y) \<noteq> READY \<and> wf_tp (c x) \<le> wf_tp (c y))"

definition joins_ok :: "(nat \<Rightarrow> worker_fiber) \<Rightarrow> nat list \<Rightarrow> bool" where
  "joins_ok c ws \<longleftrightarrow>
     (\<forall>g. \<forall>f \<in> set (wf_waiting (c g)). f \<in> set ws \<and> wf_state (c f) = WAITING \<and> wf_tp (c f) = \<infinity> \<and> \<not> wf_requested (c f) \<and>
        wf_state (c g) \<noteq> TERMINATED \<and> (\<forall>g'. f \<in> set (wf_waiting (c g')) \<longrightarrow> g' = g))"

definition data_ok :: "(nat \<Rightarrow> worker_fiber) \<Rightarrow> nat option \<Rightarrow> nat set \<Rightarrow> nat list \<Rightarrow> nat list \<Rightarrow> bool" where
  "data_ok c a S ws rs \<longleftrightarrow>
     set ws \<subseteq> S \<and> set rs \<subseteq> S \<and> distinct (ws @ rs) \<and>
     (\<forall>f. a = Some f \<longrightarrow> f \<in> S \<and> f \<notin> set ws \<and> f \<notin> set rs \<and> wf_state (c f) = RUNNING) \<and>
     sorted_wrt (before c) ws \<and> (\<forall>f \<in> set ws. wf_state (c f) = READY \<or> wf_state (c f) = WAITING) \<and>
     (\<forall>f \<in> set rs. wf_state (c f) = READY) \<and> (\<forall>f. f \<notin> set ws \<longrightarrow> wf_tp (c f) = \<infinity>) \<and>
     (\<forall>f \<in> S. f \<in> set ws \<or> f \<in> set rs \<or> a = Some f \<or> wf_state (c f) = TERMINATED) \<and>
     (\<forall>f. f \<notin> S \<longrightarrow> wf_waiting (c f) = []) \<and> joins_ok c ws"

lemma data_okD:
  assumes "data_ok c a S ws rs"
  shows "set ws \<subseteq> S" "set rs \<subseteq> S" "distinct (ws @ rs)"
    "a = Some f \<Longrightarrow> f \<in> S \<and> f \<notin> set ws \<and> f \<notin> set rs \<and> wf_state (c f) = RUNNING" "sorted_wrt (before c) ws"
    "f \<in> set ws \<Longrightarrow> wf_state (c f) = READY \<or> wf_state (c f) = WAITING" "f \<in> set rs \<Longrightarrow> wf_state (c f) = READY"
    "f \<notin> set ws \<Longrightarrow> wf_tp (c f) = \<infinity>" "f \<in> S \<Longrightarrow> f \<in> set ws \<or> f \<in> set rs \<or> a = Some f \<or> wf_state (c f) = TERMINATED"
    "f \<notin> S \<Longrightarrow> wf_waiting (c f) = []" "joins_ok c ws"
  using assms unfolding data_ok_def by blast+

lemma data_okI:
  assumes "set ws \<subseteq> S" "set rs \<subseteq> S" "distinct (ws @ rs)"
    "\<And>f. a = Some f \<Longrightarrow> f \<in> S \<and> f \<notin> set ws \<and> f \<notin> set rs \<and> wf_state (c f) = RUNNING" "sorted_wrt (before c) ws"
    "\<And>f. f \<in> set ws \<Longrightarrow> wf_state (c f) = READY \<or> wf_state (c f) = WAITING" "\<And>f. f \<in> set rs \<Longrightarrow> wf_state (c f) = READY"
    "\<And>f. f \<notin> set ws \<Longrightarrow> wf_tp (c f) = \<infinity>"
    "\<And>f. f \<in> S \<Longrightarrow> f \<in> set ws \<or> f \<in> set rs \<or> a = Some f \<or> wf_state (c f) = TERMINATED"
    "\<And>f. f \<notin> S \<Longrightarrow> wf_waiting (c f) = []" "joins_ok c ws"
  shows "data_ok c a S ws rs"
  using assms unfolding data_ok_def by blast

lemma joins_okD:
  assumes "joins_ok c ws" "f \<in> set (wf_waiting (c g))"
  shows "f \<in> set ws" "wf_state (c f) = WAITING" "wf_tp (c f) = \<infinity>" "\<not> wf_requested (c f)" "wf_state (c g) \<noteq> TERMINATED"
    "f \<in> set (wf_waiting (c g')) \<Longrightarrow> g' = g"
  using assms unfolding joins_ok_def by blast+

lemma sorted_before_cong:
  assumes "sorted_wrt (before c) ws" "\<And>x. x \<in> set ws \<Longrightarrow> wf_state (c' x) = wf_state (c x) \<and> wf_tp (c' x) = wf_tp (c x)"
  shows "sorted_wrt (before c') ws"
  using assms(1) by (rule sorted_wrt_mono_rel[rotated]) (simp add: before_def assms(2))

lemma sorted_remove1: "sorted_wrt P xs \<Longrightarrow> sorted_wrt P (remove1 x xs)"
  by (induction xs) (auto dest: in_set_remove1[THEN iffD1, rotated] notin_set_remove1)

lemma set_inserted [simp]: "set (inserted M item ws) = insert item (set ws)"
proof -
  have "set (takeWhile P ws) \<union> set (dropWhile P ws) = set ws" for P
    by (metis set_append takeWhile_dropWhile_id)
  then show ?thesis by (auto simp: inserted_def)
qed

lemma distinct_inserted:
  assumes "distinct ws" "item \<notin> set ws" shows "distinct (inserted M item ws)"
proof -
  have "distinct (takeWhile P ws @ dropWhile P ws)" "item \<notin> set (takeWhile P ws @ dropWhile P ws)" for P using assms by simp_all
  then have "distinct (takeWhile P ws @ item # dropWhile P ws)" for P by (auto simp del: takeWhile_dropWhile_id)
  then show ?thesis using assms by (simp add: inserted_def)
qed

lemma sorted_inserted:
  assumes "sorted_wrt (before (core M)) ws"
  shows "sorted_wrt (before (core M)) (inserted M item ws)"
proof -
  let ?P = "goes_first M item"
  have parts: "sorted_wrt (before (core M)) (takeWhile ?P ws @ dropWhile ?P ws)" using assms by simp
  have behind: "before (core M) item y" if "y \<in> set (dropWhile ?P ws)" "\<not> is_ready M item" for y
  proof (cases "dropWhile ?P ws")
    case (Cons z zs)
    then have z: "\<not> ?P z" using hd_dropWhile[of ?P ws] by simp
    moreover have "y = z \<or> before (core M) z y" using parts Cons that(1) by (auto simp: sorted_wrt_append)
    ultimately show ?thesis by (auto simp: before_def goes_first_def not_less)
  next
    case Nil
    then show ?thesis using that(1) by (simp only: list.set(1) empty_iff)
  qed
  have front: "before (core M) x item" if "x \<in> set (takeWhile ?P ws)" "\<not> is_ready M item" for x
    using set_takeWhileD[OF that(1)] that(2) by (auto simp: before_def goes_first_def)
  show ?thesis
    using assms parts behind front
    by (auto simp: inserted_def sorted_wrt_append before_def simp del: takeWhile_dropWhile_id)
qed

text \<open>The steps on the data.\<close>

lemma joins_cong:
  assumes "joins_ok c ws" "set ws \<subseteq> set ws'" "\<And>g. wf_waiting (c' g) = wf_waiting (c g)"
    "\<And>f g. f \<in> set (wf_waiting (c g)) \<Longrightarrow> wf_state (c' f) = WAITING \<and> wf_tp (c' f) = \<infinity> \<and> \<not> wf_requested (c' f) \<and> wf_state (c' g) \<noteq> TERMINATED"
  shows "joins_ok c' ws'"
  unfolding joins_ok_def
proof (intro allI ballI)
  fix g f
  assume "f \<in> set (wf_waiting (c' g))"
  then have f: "f \<in> set (wf_waiting (c g))" using assms(3) by simp
  show "f \<in> set ws' \<and> wf_state (c' f) = WAITING \<and> wf_tp (c' f) = \<infinity> \<and> \<not> wf_requested (c' f) \<and> wf_state (c' g) \<noteq> TERMINATED \<and>
      (\<forall>g'. f \<in> set (wf_waiting (c' g')) \<longrightarrow> g' = g)"
    using joins_okD(1,6)[OF assms(1) f] assms(2) assms(4)[OF f] assms(3) by auto
qed

lemma data_ready:
  assumes "data_ok c a S ws rs" "x \<in> set ws" "\<And>g. x \<notin> set (wf_waiting (c g))" "wf_state n = READY" "wf_waiting n = wf_waiting (c x)"
  shows "data_ok (c(x := n)) a S (x # remove1 x ws) rs"
proof -
  note d = data_okD[OF assms(1)]
  have set: "set (x # remove1 x ws) = set ws" using assms(2) d(3) by auto
  have "sorted_wrt (before c) (remove1 x ws)" using d(5) by (rule sorted_remove1)
  then have "sorted_wrt (before (c(x := n))) (remove1 x ws)" by (rule sorted_before_cong) (use d(3) in auto)
  then have sorted: "sorted_wrt (before (c(x := n))) (x # remove1 x ws)" using assms(4) by (simp add: before_def)
  have waiting: "wf_waiting ((c(x := n)) g) = wf_waiting (c g)" for g using assms(5) by simp
  show ?thesis
  proof (rule data_okI, unfold set waiting)
    show "joins_ok (c(x := n)) (x # remove1 x ws)"
    proof (rule joins_cong[OF d(11)])
      show "wf_state ((c(x := n)) f) = WAITING \<and> wf_tp ((c(x := n)) f) = \<infinity> \<and> \<not> wf_requested ((c(x := n)) f) \<and>
          wf_state ((c(x := n)) g) \<noteq> TERMINATED" if "f \<in> set (wf_waiting (c g))" for f g
        using joins_okD(2-5)[OF d(11) that] that assms(3)[of g] assms(4) by auto
    qed (use set waiting in auto)
    show "distinct ((x # remove1 x ws) @ rs)" using d(3) assms(2) by auto
    show "wf_state ((c(x := n)) f) = READY \<or> wf_state ((c(x := n)) f) = WAITING" if "f \<in> set ws" for f
      using d(6)[OF that] assms(4) by simp
    show "f \<in> set ws \<or> f \<in> set rs \<or> a = Some f \<or> wf_state ((c(x := n)) f) = TERMINATED" if "f \<in> S" for f
      using d(9)[OF that] assms(2) by auto
    show "f \<in> S \<and> f \<notin> set ws \<and> f \<notin> set rs \<and> wf_state ((c(x := n)) f) = RUNNING" if "a = Some f" for f
      using d(4)[OF that] assms(2) by auto
    show "wf_state ((c(x := n)) f) = READY" if "f \<in> set rs" for f using d(7)[OF that] assms(4) by simp
    show "wf_tp ((c(x := n)) f) = \<infinity>" if "f \<notin> set ws" for f using d(8)[OF that] that assms(2) by auto
  qed (use d(1,2,10) sorted in auto)
qed

text \<open>The active fiber goes to the waiting queue.\<close>

lemma data_push:
  assumes "data_ok c (Some x) S ws rs" "core M = c(x := n)" "wf_state n = READY \<or> wf_state n = WAITING" "wf_waiting n = wf_waiting (c x)"
  shows "data_ok (c(x := n)) None S (inserted M x ws) rs"
proof -
  note d = data_okD[OF assms(1)]
  have x: "x \<in> S" "x \<notin> set ws" "x \<notin> set rs" "wf_state (c x) = RUNNING" using d(4)[of x] by simp_all
  have "sorted_wrt (before (core M)) ws" by (rule sorted_before_cong[OF d(5)]) (use x assms(2) in auto)
  then have sorted: "sorted_wrt (before (c(x := n))) (inserted M x ws)" using sorted_inserted assms(2) by metis
  have waiting: "wf_waiting ((c(x := n)) g) = wf_waiting (c g)" for g using assms(4) by simp
  show ?thesis
  proof (rule data_okI, unfold set_inserted waiting)
    show "joins_ok (c(x := n)) (inserted M x ws)"
    proof (rule joins_cong[OF d(11)])
      show "wf_state ((c(x := n)) f) = WAITING \<and> wf_tp ((c(x := n)) f) = \<infinity> \<and> \<not> wf_requested ((c(x := n)) f) \<and>
          wf_state ((c(x := n)) g) \<noteq> TERMINATED" if "f \<in> set (wf_waiting (c g))" for f g
        using joins_okD(1-5)[OF d(11) that] x(2) assms(3) by auto
    qed (use waiting in auto)
    show "distinct (inserted M x ws @ rs)" using d(3) x distinct_inserted[of ws x M] by auto
    show "wf_state ((c(x := n)) f) = READY \<or> wf_state ((c(x := n)) f) = WAITING" if "f \<in> insert x (set ws)" for f
      using d(6)[of f] assms(3) that by auto
    show "f \<in> insert x (set ws) \<or> f \<in> set rs \<or> None = Some f \<or> wf_state ((c(x := n)) f) = TERMINATED" if "f \<in> S" for f
      using d(9)[OF that] by auto
    show "wf_state ((c(x := n)) f) = READY" if "f \<in> set rs" for f using d(7)[OF that] that x(3) by auto
    show "wf_tp ((c(x := n)) f) = \<infinity>" if "f \<notin> insert x (set ws)" for f using d(8)[of f] that by auto
  qed (use d(1,2,10) sorted x in auto)
qed

lemma data_spawn:
  assumes "data_ok c a S ws rs" "f \<notin> S" "wf_state n = READY" "wf_tp n = \<infinity>" "wf_waiting n = []"
  shows "data_ok (c(f := n)) a (insert f S) ws (rs @ [f])"
proof -
  note d = data_okD[OF assms(1)]
  have f: "f \<notin> set ws" "f \<notin> set rs" using d(1,2) assms(2) by auto
  show ?thesis
  proof (rule data_okI)
    show "sorted_wrt (before (c(f := n))) ws" by (rule sorted_before_cong[OF d(5)]) (use f in auto)
    show "joins_ok (c(f := n)) ws"
    proof (rule joins_cong[OF d(11)])
      show "wf_waiting ((c(f := n)) g) = wf_waiting (c g)" for g using d(10)[OF assms(2)] assms(5) by simp
      show "wf_state ((c(f := n)) x) = WAITING \<and> wf_tp ((c(f := n)) x) = \<infinity> \<and> \<not> wf_requested ((c(f := n)) x) \<and>
          wf_state ((c(f := n)) g) \<noteq> TERMINATED" if "x \<in> set (wf_waiting (c g))" for x g
        using joins_okD(1-5)[OF d(11) that] f(1) assms(3) by auto
    qed simp
    show "x \<in> insert f S \<and> x \<notin> set ws \<and> x \<notin> set (rs @ [f]) \<and> wf_state ((c(f := n)) x) = RUNNING" if "a = Some x" for x
      using d(4)[OF that] assms(2) by auto
    show "x \<in> set ws \<or> x \<in> set (rs @ [f]) \<or> a = Some x \<or> wf_state ((c(f := n)) x) = TERMINATED" if "x \<in> insert f S" for x
      using d(9)[of x] that by auto
  qed (use d(1-3) d(6-8,10) f assms(3,4) in auto)
qed

lemma data_wake:
  assumes "data_ok (core M) None S ws rs"
  shows "data_ok (woken (set (takeWhile (due M now) ws)) (core M)) None S (dropWhile (due M now) ws) (rs @ takeWhile (due M now) ws)"
proof -
  note d = data_okD[OF assms]
  let ?T = "takeWhile (due M now) ws" and ?W = "dropWhile (due M now) ws" and ?c = "woken (set (takeWhile (due M now) ws)) (core M)"
  have sets: "set ws = set ?T \<union> set ?W" by (metis set_append takeWhile_dropWhile_id)
  have "distinct (?T @ ?W)" using d(3) by simp
  then have dis: "set ?T \<inter> set ?W = {}" "distinct ?T" "distinct ?W" unfolding distinct_append by blast+
  have "sorted_wrt (before (core M)) (?T @ ?W)" using d(5) by simp
  then have W: "sorted_wrt (before (core M)) ?W" unfolding sorted_wrt_append by blast
  have same: "?c x = core M x" if "x \<notin> set ?T" for x using that by (simp add: woken_def)
  show ?thesis
  proof (rule data_okI)
    show "sorted_wrt (before ?c) ?W"
    proof (rule sorted_before_cong[OF W])
      show "wf_state (?c x) = wf_state (core M x) \<and> wf_tp (?c x) = wf_tp (core M x)" if "x \<in> set ?W" for x
        using same[of x] that dis(1) by (metis IntI empty_iff)
    qed
    show "joins_ok ?c ?W"
      unfolding joins_ok_def
    proof (intro allI ballI)
      fix g f
      assume "f \<in> set (wf_waiting (?c g))"
      then have f: "f \<in> set (wf_waiting (core M g))" by (auto simp: woken_def split: if_splits)
      note j = joins_okD[OF d(11) f]
      have T: "f \<notin> set ?T" using j(2-4) set_takeWhileD[of f "due M now" ws] by (auto simp: due_def)
      have g: "wf_state (?c g) \<noteq> TERMINATED" using j(5) by (simp add: woken_def)
      show "f \<in> set ?W \<and> wf_state (?c f) = WAITING \<and> wf_tp (?c f) = \<infinity> \<and> \<not> wf_requested (?c f) \<and> wf_state (?c g) \<noteq> TERMINATED \<and>
          (\<forall>g'. f \<in> set (wf_waiting (?c g')) \<longrightarrow> g' = g)"
        using j(1-4) j(6) T g same[OF T] sets by (auto simp: woken_def split: if_splits)
    qed
    show "wf_state (?c f) = READY" if "f \<in> set (rs @ ?T)" for f using that d(7)[of f] by (auto simp: woken_def)
    show "wf_tp (?c f) = \<infinity>" if "f \<notin> set ?W" for f using that d(8)[of f] sets by (auto simp: woken_def)
    show "f \<in> set ?W \<or> f \<in> set (rs @ ?T) \<or> None = Some f \<or> wf_state (?c f) = TERMINATED" if "f \<in> S" for f
      using d(9)[OF that] sets by (auto simp: woken_def)
    show "wf_waiting (?c f) = []" if "f \<notin> S" for f using d(10)[OF that] by (simp add: woken_def)
    show "wf_state (?c f) = READY \<or> wf_state (?c f) = WAITING" if "f \<in> set ?W" for f
      using d(6)[of f] that sets by (auto simp: woken_def)
    show "distinct (?W @ rs @ ?T)" using d(3) dis sets by auto
  qed (use d(1,2) sets in auto)
qed

lemma data_resume:
  assumes "data_ok c None S ws (f # rs)"
  shows "data_ok (c(f := (c f)\<lparr>wf_state := RUNNING\<rparr>)) (Some f) S ws rs"
proof -
  note d = data_okD[OF assms]
  have f: "f \<in> S" "f \<notin> set ws" "f \<notin> set rs" using d(2,3) by auto
  let ?c = "c(f := (c f)\<lparr>wf_state := RUNNING\<rparr>)"
  show ?thesis
  proof (rule data_okI)
    show "sorted_wrt (before ?c) ws" by (rule sorted_before_cong[OF d(5)]) (use f in auto)
    show "joins_ok ?c ws"
    proof (rule joins_cong[OF d(11)])
      show "wf_state (?c x) = WAITING \<and> wf_tp (?c x) = \<infinity> \<and> \<not> wf_requested (?c x) \<and> wf_state (?c g) \<noteq> TERMINATED"
        if "x \<in> set (wf_waiting (c g))" for x g
        using joins_okD(1-5)[OF d(11) that] f(2) by auto
    qed auto
    show "x \<in> set ws \<or> x \<in> set rs \<or> Some f = Some x \<or> wf_state (?c x) = TERMINATED" if "x \<in> S" for x
      using d(9)[OF that] by auto
  qed (use d(1-3) d(6-8,10) f in auto)
qed

lemma data_calm:
  assumes "data_ok c (Some f) S ws rs"
  shows "data_ok (c(f := (c f)\<lparr>wf_requested := False\<rparr>)) (Some f) S ws rs"
proof -
  note d = data_okD[OF assms]
  let ?c = "c(f := (c f)\<lparr>wf_requested := False\<rparr>)"
  have same: "wf_state (?c x) = wf_state (c x)" "wf_tp (?c x) = wf_tp (c x)" "wf_waiting (?c x) = wf_waiting (c x)" for x by simp_all
  show ?thesis
  proof (rule data_okI, unfold same)
    show "sorted_wrt (before ?c) ws" by (rule sorted_before_cong[OF d(5)]) simp
    show "joins_ok ?c ws"
    proof (rule joins_cong[OF d(11)])
      show "wf_state (?c x) = WAITING \<and> wf_tp (?c x) = \<infinity> \<and> \<not> wf_requested (?c x) \<and> wf_state (?c g) \<noteq> TERMINATED"
        if "x \<in> set (wf_waiting (c g))" for x g
        using joins_okD(2-5)[OF d(11) that] by auto
    qed simp_all
  qed (use d(1-4) d(6-10) in auto)
qed

lemma data_joined:
  assumes "data_ok c a S ws rs" "f \<in> set ws" "wf_state (c f) = WAITING" "wf_tp (c f) = \<infinity>" "\<not> wf_requested (c f)"
    "\<And>h. f \<notin> set (wf_waiting (c h))" "g \<in> S" "wf_state (c g) \<noteq> TERMINATED"
  shows "data_ok (c(g := (c g)\<lparr>wf_waiting := wf_waiting (c g) @ [f]\<rparr>)) a S ws rs"
proof -
  note d = data_okD[OF assms(1)]
  let ?c = "c(g := (c g)\<lparr>wf_waiting := wf_waiting (c g) @ [f]\<rparr>)"
  have same: "wf_state (?c x) = wf_state (c x)" "wf_tp (?c x) = wf_tp (c x)" "wf_requested (?c x) = wf_requested (c x)" for x by simp_all
  have w: "x \<in> set (wf_waiting (?c h)) \<longleftrightarrow> x \<in> set (wf_waiting (c h)) \<or> (h = g \<and> x = f)" for x h by auto
  show ?thesis
  proof (rule data_okI, unfold same)
    show "sorted_wrt (before ?c) ws" by (rule sorted_before_cong[OF d(5)]) simp
    show "joins_ok ?c ws"
      unfolding joins_ok_def same
    proof (intro allI ballI)
      fix h x
      assume "x \<in> set (wf_waiting (?c h))"
      then show "x \<in> set ws \<and> wf_state (c x) = WAITING \<and> wf_tp (c x) = \<infinity> \<and> \<not> wf_requested (c x) \<and> wf_state (c h) \<noteq> TERMINATED \<and>
          (\<forall>h'. x \<in> set (wf_waiting (?c h')) \<longrightarrow> h' = h)"
        unfolding w using joins_okD[OF d(11), of x h] assms(2-6,8) by auto
    qed
  qed (use d(1-4) d(6-10) assms(7) in auto)
qed

lemma data_end:
  assumes "data_ok c (Some f) S ws rs" "wf_state n = TERMINATED" "wf_waiting n = []" "wf_tp n = \<infinity>"
  shows "data_ok (c(f := n)) None S ws rs" and "x \<in> set (wf_waiting (c f)) \<Longrightarrow> x \<in> set ws \<and> x \<notin> set (wf_waiting ((c(f := n)) g))"
proof -
  note d = data_okD[OF assms(1)]
  have f: "f \<in> S" "f \<notin> set ws" "f \<notin> set rs" using d(4)[of f] by auto
  have w: "x \<in> set (wf_waiting ((c(f := n)) g)) \<longleftrightarrow> g \<noteq> f \<and> x \<in> set (wf_waiting (c g))" for x g using assms(3) by auto
  show "data_ok (c(f := n)) None S ws rs"
  proof (rule data_okI)
    show "sorted_wrt (before (c(f := n))) ws" by (rule sorted_before_cong[OF d(5)]) (use f in auto)
    show "joins_ok (c(f := n)) ws"
      unfolding joins_ok_def w
    proof (intro allI ballI)
      fix g x
      assume "x \<in> set (wf_waiting ((c(f := n)) g))"
      then have x: "x \<in> set (wf_waiting (c g))" "g \<noteq> f" unfolding w by blast+
      note j = joins_okD[OF d(11) x(1)]
      show "x \<in> set ws \<and> wf_state ((c(f := n)) x) = WAITING \<and> wf_tp ((c(f := n)) x) = \<infinity> \<and> \<not> wf_requested ((c(f := n)) x) \<and>
          wf_state ((c(f := n)) g) \<noteq> TERMINATED \<and> (\<forall>g'. g' \<noteq> f \<and> x \<in> set (wf_waiting (c g')) \<longrightarrow> g' = g)"
        using j(1-5) j(6) f(2) x(2) by auto
    qed
    show "x \<in> set ws \<or> x \<in> set rs \<or> None = Some x \<or> wf_state ((c(f := n)) x) = TERMINATED" if "x \<in> S" for x
      using d(9)[OF that] assms(2) by auto
  qed (use d(1-3) d(6-8,10) f assms(2-4) in auto)
  show "x \<in> set ws \<and> x \<notin> set (wf_waiting ((c(f := n)) g))" if "x \<in> set (wf_waiting (c f))"
    using joins_okD(1)[OF d(11) that] joins_okD(6)[OF d(11) that, of g] unfolding w by blast
qed

definition sched_ok :: "sched_system \<Rightarrow> nat list \<Rightarrow> nat list \<Rightarrow> bool" where
  "sched_ok s ws rs \<longleftrightarrow>
     linked (sc_fm s) ws rs \<and> data_ok (core (sc_fm s)) (fm_active (sc_fm s)) (sc_spawned s) ws rs"

lemma linked_with:
  assumes "linked M ws rs" "\<And>x. wf_nxt (g x) = wf_nxt x \<and> wf_prev (g x) = wf_prev x \<and> wf_attached (g x) = wf_attached x"
  shows "linked (with_fiber f g M) ws rs"
proof -
  have "nx (with_fiber f g M) = nx M" "pv (with_fiber f g M) = pv M" "\<And>x. wf_attached (fm_mem (with_fiber f g M) x) = wf_attached (fm_mem M x)"
    using assms(2) by (auto simp: nx_def pv_def fun_eq_iff simp del: link_folds)
  then show ?thesis using assms(1) by (simp add: linked_def)
qed

lemma core_with: "core (with_fiber f g M) = (core M)(f := (g (fm_mem M f))\<lparr>wf_prev := None, wf_nxt := None, wf_attached := False\<rparr>)"
  by (auto simp: core_def fun_eq_iff)

lemma core_field:
  "core (with_fiber f (\<lambda>x. x\<lparr>wf_waiting := wf_waiting x @ L\<rparr>) M) = (core M)(f := (core M f)\<lparr>wf_waiting := wf_waiting (core M f) @ L\<rparr>)"
  "core (with_fiber f (\<lambda>x. x\<lparr>wf_waiting := []\<rparr>) M) = (core M)(f := (core M f)\<lparr>wf_waiting := []\<rparr>)"
  "core (with_fiber f (\<lambda>x. x\<lparr>wf_requested := b\<rparr>) M) = (core M)(f := (core M f)\<lparr>wf_requested := b\<rparr>)"
  by (cases "fm_mem M f"; simp add: core_def fun_eq_iff)+

lemma linked_new:
  assumes "linked M ws rs" "f \<notin> set ws" "f \<notin> set rs" "wf_nxt n = None" "wf_prev n = None" "\<not> wf_attached n"
  shows "linked (with_fiber f (\<lambda>_. n) M) ws rs"
proof -
  note l = linkedD[OF assms(1)]
  have views: "nx (with_fiber f (\<lambda>_. n) M) = (nx M)(f := None)" "pv (with_fiber f (\<lambda>_. n) M) = (pv M)(f := None)"
    using assms(4,5) by (auto simp: nx_def pv_def fun_eq_iff simp del: link_folds)
  show ?thesis
  proof (rule linkedI, unfold views)
    show "((nx M)(f := None)) x = None \<and> ((pv M)(f := None)) x = None" if "x \<notin> set ws" "x \<notin> set rs" for x
      using l(5)[OF that] by simp
  qed (use l(1-4) assms(2,3,6) in auto)
qed

lemma step_spawn:
  assumes "linked M ws rs" "data_ok (core M) a S ws rs" "f \<notin> S"
  shows "linked (fiber_start f M) ws (rs @ [f]) \<and> data_ok (core (fiber_start f M)) a (insert f S) ws (rs @ [f]) \<and>
    fm_active (fiber_start f M) = fm_active M"
proof -
  have f: "f \<notin> set ws" "f \<notin> set rs" using data_okD(1,2)[OF assms(2)] assms(3) by auto
  let ?n = "worker_fiber_new\<lparr>wf_state := RUNNING\<rparr>"
  let ?M1 = "with_fiber f (\<lambda>_. ?n) M"
  have l1: "linked ?M1 ws rs" using linked_new[OF assms(1) f] by (simp add: worker_fiber_new_def del: link_folds)
  have l2: "linked (set_ready f ?M1) ws rs" "core (set_ready f ?M1) = (core M)(f := worker_fiber_new)"
    "fm_active (set_ready f ?M1) = fm_active M"
    using linked_set_ready[OF l1, of f] f by (simp_all add: core_with worker_fiber_new_def fun_eq_iff)
  show ?thesis
    using linked_fifo_push[OF l2(1) f] l2(2,3) data_spawn[OF assms(2,3), of worker_fiber_new]
    by (simp add: fiber_start_def fm_spawn_def awakened_def worker_fiber_new_def)
qed


lemma step_run:
  assumes "linked M ws rs" "data_ok (core M) None S ws rs" "fm_active M = None"
  shows "\<exists>r M' ws' rs'. fm_run now M = Some (r, M') \<and> linked M' ws' rs' \<and> data_ok (core M') (fm_active M') S ws' rs' \<and>
    fm_active M' = r \<and> ws' = dropWhile (due M now) ws \<and>
    (case r of None \<Rightarrow> rs @ takeWhile (due M now) ws = [] \<and> rs' = [] | Some f \<Rightarrow> rs @ takeWhile (due M now) ws = f # rs')"
proof -
  let ?T = "takeWhile (due M now) ws" and ?W = "dropWhile (due M now) ws"
  obtain N where N: "wq_move_to now (wq_head M) M = Some N" "linked N ?W (rs @ ?T)" "core N = woken (set ?T) (core M)" "fm_active N = None"
    using linked_wq_move_to[OF assms(1)] assms(3) by auto
  have d: "data_ok (core N) None S ?W (rs @ ?T)" using data_wake[OF assms(2)] N(3) by simp
  show ?thesis
  proof (cases "rs @ ?T")
    case Nil
    then have "rq_head N = None" using linkedD(2)[OF N(2)] by (simp add: chain_def)
    then have "fm_run now M = Some (None, N)" using N(1) by (simp add: fm_run_def pick_next_def)
    then show ?thesis using N d Nil by (intro exI[of _ None] exI[of _ N] exI[of _ ?W] exI[of _ "[]"]) simp
  next
    case (Cons f qs)
    then have "rq_head N = Some f" using linkedD(2)[OF N(2)] by (simp add: chain_def)
    then have run: "fm_run now M = Some (Some f, fm_resume f (fifo_pop f N))" using N(1) by (simp add: fm_run_def pick_next_def)
    have p: "linked (fifo_pop f N) ?W qs" "core (fifo_pop f N) = core N" using linked_fifo_pop[of N ?W f qs] N(2) Cons by simp_all
    have "data_ok ((core N)(f := (core N f)\<lparr>wf_state := RUNNING\<rparr>)) (Some f) S ?W qs" using data_resume[of "core N" S ?W f qs] d Cons by simp
    then show ?thesis using run p Cons
      by (intro exI[of _ "Some f"] exI[of _ "fm_resume f (fifo_pop f N)"] exI[of _ ?W] exI[of _ qs]) (simp add: fm_resume_def)
  qed
qed

lemma step_push:
  assumes "linked M ws rs" "data_ok (core M) (Some f) S ws rs" "linked M1 ws rs" "core M1 = (core M)(f := n)"
    "wf_state n = READY \<or> wf_state n = WAITING" "wf_waiting n = wf_waiting (core M f)"
  shows "\<exists>M2. wq_push f M1 = Some M2 \<and> linked M2 (inserted M1 f ws) rs \<and> core M2 = core M1 \<and> data_ok (core M2) None S (inserted M1 f ws) rs"
proof -
  have "f \<notin> set ws" "f \<notin> set rs" using data_okD(4)[OF assms(2), of f] by auto
  from linked_wq_push[OF assms(3) this] data_push[OF assms(2,4-6)] show ?thesis using assms(4) by auto
qed

lemma step_ready:
  assumes "linked M ws rs" "data_ok (core M) a S ws rs" "x \<in> set ws" "\<And>g. x \<notin> set (wf_waiting (core M g))"
  shows "linked (set_ready x M) (x # remove1 x ws) rs \<and> data_ok (core (set_ready x M)) a S (x # remove1 x ws) rs \<and>
    fm_active (set_ready x M) = fm_active M \<and> (\<forall>g. wf_waiting (core (set_ready x M) g) = wf_waiting (core M g))"
  using linked_set_ready[OF assms(1), of x] data_ready[OF assms(2-4), of "(core M x)\<lparr>wf_state := READY\<rparr>"] assms(3) by auto

lemma step_release:
  assumes "linked M ws rs" "data_ok (core M) a S ws rs" "\<forall>x \<in> set L. x \<in> set ws \<and> (\<forall>g. x \<notin> set (wf_waiting (core M g)))"
  shows "\<exists>ws'. linked (fold set_ready L M) ws' rs \<and> data_ok (core (fold set_ready L M)) a S ws' rs \<and>
    fm_active (fold set_ready L M) = fm_active M"
  using assms
proof (induction L arbitrary: M ws)
  case (Cons x L)
  have s: "linked (set_ready x M) (x # remove1 x ws) rs" "data_ok (core (set_ready x M)) a S (x # remove1 x ws) rs"
    "fm_active (set_ready x M) = fm_active M" "\<forall>g. wf_waiting (core (set_ready x M) g) = wf_waiting (core M g)"
    using step_ready[OF Cons.prems(1,2), of x] Cons.prems(3) by auto
  have "set (x # remove1 x ws) = set ws" using Cons.prems(3) linkedD(3)[OF Cons.prems(1)] by auto
  then show ?case using Cons.IH[OF s(1,2)] s(3,4) Cons.prems(3) by simp
qed auto

lemma step_join:
  assumes "linked M ws rs" "data_ok (core M) (Some f) S ws rs" "g \<in> S" "g \<noteq> f" "\<not> wf_requested (fm_mem M f)" "fm_join f g M = Some M'"
  shows "\<exists>ws'. linked M' ws' rs \<and> data_ok (core M') None S ws' rs \<and> fm_active M' = None"
proof -
  note d = data_okD[OF assms(2)]
  let ?n = "(core M f)\<lparr>wf_state := WAITING\<rparr>"
  obtain M2 where M2: "wq_push f (state_to f WAITING M) = Some M2" "linked M2 (inserted (state_to f WAITING M) f ws) rs"
    "core M2 = (core M)(f := ?n)" "data_ok (core M2) None S (inserted (state_to f WAITING M) f ws) rs"
    using step_push[OF assms(1,2), of "state_to f WAITING M" ?n] assms(1) by auto
  let ?ws = "inserted (state_to f WAITING M) f ws"
  have f: "f \<notin> set ws" using d(4)[of f] by auto
  have free: "f \<notin> set (wf_waiting (core M2 h))" for h using joins_okD(1)[OF d(11), of f h] f M2(3) by (auto split: if_splits)
  show ?thesis
  proof (cases "wf_state (fm_mem M2 g) = TERMINATED")
    case True
    then have "M' = (set_ready f M2)\<lparr>fm_active := None\<rparr>" using assms(6) M2(1) by (simp add: fm_join_def worker_join_def)
    then show ?thesis using step_ready[OF M2(2,4), of f] free by auto
  next
    case False
    let ?M3 = "with_fiber g (\<lambda>x. x\<lparr>wf_waiting := wf_waiting x @ [f]\<rparr>) M2"
    have M': "M' = ?M3\<lparr>fm_active := None\<rparr>" using False assms(6) M2(1) by (simp add: fm_join_def worker_join_def)
    have "core ?M3 = (core M2)(g := (core M2 g)\<lparr>wf_waiting := wf_waiting (core M2 g) @ [f]\<rparr>)" by (rule core_field)
    moreover have "linked ?M3 ?ws rs" using linked_with[OF M2(2)] by simp
    moreover have "data_ok ((core M2)(g := (core M2 g)\<lparr>wf_waiting := wf_waiting (core M2 g) @ [f]\<rparr>)) None S ?ws rs"
    proof (rule data_joined[OF M2(4)])
      show "wf_state (core M2 f) = WAITING" "wf_tp (core M2 f) = \<infinity>" "\<not> wf_requested (core M2 f)"
        using M2(3) d(8)[OF f] assms(5) by simp_all
    qed (use free False assms(3) in simp_all)
    ultimately show ?thesis using M' by auto
  qed
qed

lemma step_end:
  assumes "linked M ws rs" "data_ok (core M) (Some f) S ws rs"
  shows "\<exists>ws'. linked (fiber_end f M) ws' rs \<and> data_ok (core (fiber_end f M)) None S ws' rs \<and> fm_active (fiber_end f M) = None"
proof -
  let ?M1 = "with_fiber f (\<lambda>x. x\<lparr>wf_waiting := []\<rparr>) (state_to f TERMINATED M)"
  let ?n = "(core M f)\<lparr>wf_state := TERMINATED, wf_waiting := []\<rparr>" and ?L = "wf_waiting (core M f)"
  have M1: "linked ?M1 ws rs" "core ?M1 = (core M)(f := ?n)"
    using linked_with[of "state_to f TERMINATED M" ws rs] assms(1) by (simp_all add: core_field)
  have w: "wf_waiting (fm_mem (state_to f TERMINATED M) f) = ?L" by (simp add: state_to_def)
  have "wf_tp (core M f) = \<infinity>" using data_okD(4,8)[OF assms(2)] by blast
  then have d: "data_ok (core ?M1) None S ws rs" "\<forall>x \<in> set ?L. x \<in> set ws \<and> (\<forall>g. x \<notin> set (wf_waiting (core ?M1 g)))"
    using data_end[OF assms(2), of ?n] M1(2) by auto
  from step_release[OF M1(1) this] show ?thesis by (auto simp: fiber_end_def worker_release_def w)
qed

lemma sched_okD: "sched_ok s ws rs \<Longrightarrow> linked (sc_fm s) ws rs" "sched_ok s ws rs \<Longrightarrow> data_ok (core (sc_fm s)) (fm_active (sc_fm s)) (sc_spawned s) ws rs"
  by (simp_all add: sched_ok_def)

lemma stays:
  assumes "linked M ws' rs" "data_ok (core M) (fm_active M) (sc_spawned s) ws' rs"
  shows "\<exists>ws' rs'. sched_ok (s\<lparr>sc_fm := M\<rparr>) ws' rs' \<and> prefix (sc_picked s @ rs) (sc_picked (s\<lparr>sc_fm := M\<rparr>) @ rs')"
  using assms by (intro exI[of _ ws'] exI[of _ rs]) (simp add: sched_ok_def)

lemma waiting_in_queue:
  assumes "sched_ok s ws rs" "f \<in> sc_spawned s" "wf_state (fm_mem (sc_fm s) f) = WAITING"
  shows "f \<in> set ws"
  using data_okD(4,7,9)[OF sched_okD(2)[OF assms(1)], of f] assms(2,3) by auto

lemma sched_ok_step:
  assumes "sched_step s s'" "sched_ok s ws rs"
  shows "\<exists>ws' rs'. sched_ok s' ws' rs' \<and> prefix (sc_picked s @ rs) (sc_picked s' @ rs')"
  using assms
proof (induction rule: sched_step.induct)
  case (spawn f s)
  then show ?case using step_spawn[OF sched_okD[OF spawn(2)], of f]
    by (intro exI[of _ ws] exI[of _ "rs @ [f]"]) (simp add: sched_ok_def)
next
  case (run s now f M)
  then obtain ws' rs' where "linked M ws' rs'" "data_ok (core M) (fm_active M) (sc_spawned s) ws' rs'"
      "rs @ takeWhile (due (sc_fm s) now) ws = f # rs'"
    using step_run[of "sc_fm s" ws rs "sc_spawned s" now] by (auto simp: sched_ok_def)
  moreover from this(3) have "prefix rs (f # rs')" by (metis prefixI)
  ultimately show ?case by (intro exI[of _ ws'] exI[of _ rs']) (simp add: sched_ok_def)
next
  case (idle s now M)
  then show ?case using step_run[of "sc_fm s" ws rs "sc_spawned s" now]
    by (intro exI[of _ "dropWhile (due (sc_fm s) now) ws"] exI[of _ "[]"]) (auto simp: sched_ok_def)
next
  case (wait s f t M)
  then obtain M2 where "M = M2\<lparr>fm_active := None\<rparr>" "wq_push f (time_point f t (state_to f WAITING (sc_fm s))) = Some M2"
    by (auto simp: fm_wait_until_def)
  then show ?case
    using step_push[of "sc_fm s" ws rs f "sc_spawned s" "time_point f t (state_to f WAITING (sc_fm s))" "(core (sc_fm s) f)\<lparr>wf_state := WAITING, wf_tp := t\<rparr>"]
      sched_okD[OF wait(3)] wait(1)
    by (intro stays[of _ "inserted (time_point f t (state_to f WAITING (sc_fm s))) f ws"]) auto
next
  case (yield s f M)
  then obtain M2 where M2: "M = M2\<lparr>fm_active := None\<rparr>" "wq_push f (set_ready f (sc_fm s)) = Some M2"
    by (auto simp: fm_yield_def)
  have "f \<notin> set ws" using data_okD(4)[OF sched_okD(2)[OF yield(3)] yield(1)] by simp
  then have "linked (set_ready f (sc_fm s)) ws rs" "core (set_ready f (sc_fm s)) = (core (sc_fm s))(f := (core (sc_fm s) f)\<lparr>wf_state := READY\<rparr>)"
    using linked_set_ready[OF sched_okD(1)[OF yield(3)], of f] by simp_all
  then show ?case
    using step_push[of "sc_fm s" ws rs f "sc_spawned s" "set_ready f (sc_fm s)" "(core (sc_fm s) f)\<lparr>wf_state := READY\<rparr>"]
      sched_okD[OF yield(3)] yield(1) M2
    by (intro stays[of _ "inserted (set_ready f (sc_fm s)) f ws"]) auto
next
  case (join s f g M)
  then obtain ws' where "linked M ws' rs \<and> data_ok (core M) None (sc_spawned s) ws' rs \<and> fm_active M = None"
    using step_join[of "sc_fm s" ws rs f "sc_spawned s" g M] sched_okD[OF join(6)] by auto
  then show ?case by (intro stays[of _ ws']) simp_all
next
  case (finish s f)
  then obtain ws' where "linked (fiber_end f (sc_fm s)) ws' rs \<and> data_ok (core (fiber_end f (sc_fm s))) None (sc_spawned s) ws' rs \<and>
      fm_active (fiber_end f (sc_fm s)) = None"
    using step_end[of "sc_fm s" ws rs f "sc_spawned s"] sched_okD[OF finish(2)] by auto
  then show ?case by (intro stays[of _ ws']) simp_all
next
  case (notify f s)
  have "f \<in> set ws" using waiting_in_queue[OF notify(4,1,2)] .
  then show ?case
    using step_ready[OF sched_okD[OF notify(4)], of f] notify(3)
    by (intro stays[of _ "f # remove1 f ws"]) (simp_all add: joining_def)
next
  case (interrupt f s)
  let ?M = "with_fiber f (\<lambda>x. x\<lparr>wf_requested := True\<rparr>) (sc_fm s)"
  let ?n = "(core (sc_fm s) f)\<lparr>wf_requested := True, wf_state := READY\<rparr>"
  have f: "f \<in> set ws" using waiting_in_queue[OF interrupt(4,1,2)] .
  have "linked ?M ws rs" using linked_with[OF sched_okD(1)[OF interrupt(4)]] by simp
  from linked_set_ready[OF this, of f] have s: "linked (set_ready f ?M) (f # remove1 f ws) rs" "core (set_ready f ?M) = (core (sc_fm s))(f := ?n)"
    "fm_active (set_ready f ?M) = fm_active (sc_fm s)"
    using f by (simp_all add: core_field)
  have "data_ok ((core (sc_fm s))(f := ?n)) (fm_active (sc_fm s)) (sc_spawned s) (f # remove1 f ws) rs"
    using data_ready[OF sched_okD(2)[OF interrupt(4)] f, of ?n] interrupt(3) by (simp add: joining_def)
  then show ?case using s by (intro stays[of _ "f # remove1 f ws"]) (simp_all add: request_interruption_def)
next
  case (interrupted s f)
  let ?M = "with_fiber f (\<lambda>x. x\<lparr>wf_requested := False\<rparr>) (sc_fm s)"
  have "linked ?M ws rs" using linked_with[OF sched_okD(1)[OF interrupted(2)]] by simp
  moreover have "data_ok (core ?M) (Some f) (sc_spawned s) ws rs"
    using data_calm[of "core (sc_fm s)" f "sc_spawned s" ws rs] sched_okD(2)[OF interrupted(2)] interrupted(1) by (simp add: core_field)
  ultimately show ?case using interrupted(1) by (intro stays[of _ ws]) (simp_all add: request_interruption_def)
qed

lemma sched_ok_start: "sched_ok sched_start [] []"
  by (simp add: sched_ok_def sched_start_def fiber_manager_new_def linked_def chain_def data_ok_def joins_ok_def core_def
      worker_fiber_new_def nx_def pv_def del: link_folds)

lemma sched_ok_run:
  assumes "sched_run s s'" "sched_ok s ws rs"
  shows "\<exists>ws' rs'. sched_ok s' ws' rs' \<and> prefix (sc_picked s @ rs) (sc_picked s' @ rs')"
  using assms
proof (induction rule: rtranclp_induct)
  case base
  then show ?case by (intro exI[of _ ws] exI[of _ rs]) simp
next
  case (step y z)
  then obtain ws1 rs1 where "sched_ok y ws1 rs1" "prefix (sc_picked s @ rs) (sc_picked y @ rs1)" by blast
  moreover from sched_ok_step[OF step(2) this(1)] obtain ws2 rs2
    where "sched_ok z ws2 rs2" "prefix (sc_picked y @ rs1) (sc_picked z @ rs2)" by blast
  ultimately show ?case by (intro exI[of _ ws2] exI[of _ rs2]) (simp add: prefix_order.trans)
qed

lemma sched_ok_reachable: "sched_run sched_start s \<Longrightarrow> \<exists>ws rs. sched_ok s ws rs"
  using sched_ok_run[OF _ sched_ok_start] by blast


lemma segment_unique:
  "segment n p q xs None \<Longrightarrow> segment n p q ys None \<Longrightarrow> hd_or xs None = hd_or ys None \<Longrightarrow> xs = ys"
proof (induction xs arbitrary: ys q)
  case (Cons x xs)
  then show ?case by (cases ys) auto
qed (auto simp: hd_or_def split: list.splits)

lemma linked_unique: "linked M ws rs \<Longrightarrow> linked M ws' rs' \<Longrightarrow> ws' = ws \<and> rs' = rs"
  unfolding linked_def chain_def using segment_unique by metis

lemma sched_pick:
  assumes "sched_ok s ws (f # rs)" "fm_active (sc_fm s) = None"
  shows "\<exists>s1 ws1 rs1. sched_step s s1 \<and> sched_ok s1 ws1 rs1 \<and> sc_picked s1 = sc_picked s @ [f] \<and> fm_active (sc_fm s1) = Some f \<and>
    prefix rs rs1"
proof -
  obtain r M ws' rs' where r: "fm_run 0 (sc_fm s) = Some (r, M)" "linked M ws' rs'" "data_ok (core M) (fm_active M) (sc_spawned s) ws' rs'"
    "fm_active M = r" "case r of None \<Rightarrow> (f # rs) @ takeWhile (due (sc_fm s) 0) ws = [] \<and> rs' = []
      | Some g \<Rightarrow> (f # rs) @ takeWhile (due (sc_fm s) 0) ws = g # rs'"
    using step_run[OF sched_okD(1)[OF assms(1)], of "sc_spawned s" 0] sched_okD(2)[OF assms(1)] assms(2) by auto
  then have "r = Some f" "prefix rs rs'" by (auto split: option.splits)
  then show ?thesis
    using sched_step.run[OF assms(2), of 0 f M] r
    by (intro exI[of _ "s\<lparr>sc_fm := M, sc_picked := sc_picked s @ [f]\<rparr>"] exI[of _ ws'] exI[of _ rs']) (simp add: sched_ok_def)
qed

section \<open>Properties\<close>

text \<open>No fiber is ever lost: in every reachable state of a thread each fiber that was started and has not ended is the
  active one or stands exactly once in one of the two queues, whose links are intact; the queue of waiting fibers has the
  ready ones in front and the others in the order of their time points; and a fiber that joins another stays suspended
  while that one has not ended.\<close>

theorem fibers_never_lost:
  assumes "sched_run sched_start s"
  shows "\<exists>ws rs. linked (sc_fm s) ws rs \<and> sorted_wrt (before (core (sc_fm s))) ws \<and>
    (\<forall>f \<in> sc_spawned s. wf_state (fm_mem (sc_fm s) f) = TERMINATED \<or> fm_active (sc_fm s) = Some f \<or> f \<in> set ws \<or> f \<in> set rs) \<and>
    (\<forall>f. fm_active (sc_fm s) = Some f \<longrightarrow> f \<notin> set ws \<union> set rs) \<and>
    (\<forall>f g. f \<in> set (wf_waiting (fm_mem (sc_fm s) g)) \<longrightarrow> f \<in> set ws \<and> wf_state (fm_mem (sc_fm s) f) = WAITING \<and>
       wf_state (fm_mem (sc_fm s) g) \<noteq> TERMINATED)"
proof -
  obtain ws rs where ok: "sched_ok s ws rs" using sched_ok_reachable[OF assms] by blast
  note d = data_okD[OF sched_okD(2)[OF ok]]
  show ?thesis
  proof (rule exI[of _ ws], rule exI[of _ rs], intro conjI)
    show "\<forall>f g. f \<in> set (wf_waiting (fm_mem (sc_fm s) g)) \<longrightarrow> f \<in> set ws \<and> wf_state (fm_mem (sc_fm s) f) = WAITING \<and>
        wf_state (fm_mem (sc_fm s) g) \<noteq> TERMINATED"
      using joins_okD(1,2,5)[OF d(11)] by simp
  qed (use sched_okD(1)[OF ok] d(4,5,9) in auto)
qed

definition wit_two :: sched_system where
  "wit_two = \<lparr>sc_fm = fiber_start 2 (fiber_start 1 fiber_manager_new), sc_spawned = {2, 1}, sc_picked = []\<rparr>"

lemma wit_two_ok: "sched_ok wit_two [] [1, 2]" "fm_active (sc_fm wit_two) = None"
proof -
  have "linked fiber_manager_new [] []" "data_ok (core fiber_manager_new) None {} [] []"
    using sched_ok_start by (simp_all add: sched_ok_def sched_start_def) (simp add: fiber_manager_new_def)
  from step_spawn[OF this, of 1] have one: "linked (fiber_start 1 fiber_manager_new) [] [1]"
    "data_ok (core (fiber_start 1 fiber_manager_new)) None {1} [] [1]" "fm_active (fiber_start 1 fiber_manager_new) = None"
    by (simp_all add: fiber_manager_new_def)
  from step_spawn[OF one(1,2), of 2] one(3) show "sched_ok wit_two [] [1, 2]" "fm_active (sc_fm wit_two) = None"
    by (simp_all add: sched_ok_def wit_two_def)
qed

lemma wit_two_run: "sched_run sched_start wit_two"
proof -
  have "sched_step sched_start (sched_start\<lparr>sc_fm := fiber_start 1 fiber_manager_new, sc_spawned := {1}\<rparr>)"
    using sched_step.spawn[of 1 sched_start] by (simp add: sched_start_def)
  moreover have "sched_step (sched_start\<lparr>sc_fm := fiber_start 1 fiber_manager_new, sc_spawned := {1}\<rparr>) wit_two"
    using sched_step.spawn[of 2 "sched_start\<lparr>sc_fm := fiber_start 1 fiber_manager_new, sc_spawned := {1}\<rparr>"]
    by (simp add: wit_two_def sched_start_def)
  ultimately show ?thesis by (meson r_into_rtranclp rtranclp_trans)
qed

theorem fibers_never_lost_witness:
  "sched_run sched_start wit_two \<and> sc_spawned wit_two = {1, 2} \<and> (\<exists>ws rs. linked (sc_fm wit_two) ws rs)"
  using wit_two_run fibers_never_lost[OF wit_two_run] by (auto simp: wit_two_def)




text \<open>Ready fibers run in the order of the ready queue: the fiber at position \<open>k\<close> is the one resumed \<open>k + 1\<close> turns
  later, whatever the fibers do in between and however many become ready.\<close>

theorem ready_fibers_in_turn:
  assumes "sched_run sched_start s" "linked (sc_fm s) ws rs" "sched_run s s'" "k < length rs"
    "length (sc_picked s) + k < length (sc_picked s')"
  shows "sc_picked s' ! (length (sc_picked s) + k) = rs ! k"
proof -
  have "sched_ok s ws rs" using sched_ok_reachable[OF assms(1)] linked_unique[OF assms(2)] sched_okD(1) by metis
  then obtain rs' where "prefix (sc_picked s @ rs) (sc_picked s' @ rs')" using sched_ok_run[OF assms(3)] by blast
  then obtain zs where "sc_picked s' @ rs' = (sc_picked s @ rs) @ zs" by (auto elim: prefixE)
  then have "(sc_picked s' @ rs') ! (length (sc_picked s) + k) = ((sc_picked s @ rs) @ zs) ! (length (sc_picked s) + k)" by simp
  then show ?thesis using assms(4,5) by (simp add: nth_append)
qed

theorem ready_fibers_in_turn_witness:
  "\<exists>s'. sched_run wit_two s' \<and> sc_picked s' ! 1 = 2 \<and> length (sc_picked s') = 2"
proof -
  obtain s1 ws1 rs1 where s1: "sched_step wit_two s1" "sched_ok s1 ws1 rs1" "fm_active (sc_fm s1) = Some 1" "prefix [2] rs1" "sc_picked s1 = [1]"
    using sched_pick[OF wit_two_ok] by (auto simp: wit_two_def)
  then obtain rs where rs: "rs1 = 2 # rs" by (auto elim: prefixE)
  let ?s2 = "s1\<lparr>sc_fm := fiber_end 1 (sc_fm s1)\<rparr>"
  have s2: "sched_step s1 ?s2" using sched_step.finish[OF s1(3)] .
  obtain ws2 where ok: "sched_ok ?s2 ws2 (2 # rs)" "fm_active (sc_fm ?s2) = None"
    using step_end[of "sc_fm s1" ws1 rs1 1 "sc_spawned s1"] sched_okD[OF s1(2)] s1(3) rs by (auto simp: sched_ok_def)
  obtain s3 where s3: "sched_step ?s2 s3" "sc_picked s3 = [1, 2]" using sched_pick[OF ok] s1(5) by auto
  have "sched_run wit_two s3" using s1(1) s2 s3(1) by (meson r_into_rtranclp rtranclp_trans)
  moreover from this have "sc_picked s3 ! (length (sc_picked wit_two) + 1) = [1, 2] ! 1"
    by (rule ready_fibers_in_turn[OF wit_two_run sched_okD(1)[OF wit_two_ok(1)]]) (simp_all add: s3(2) wit_two_def)
  ultimately show ?thesis using s3(2) by (intro exI[of _ s3]) (simp add: wit_two_def)
qed

end
